(* ===== verification/Svl_Prelude.thy ===== *)
theory Svl_Prelude
  imports Main "HOL-Library.Word"
begin

text \<open>
  Shared vocabulary of the development: machine integers, the status codes the C code passes
  around, and the guarded statement sequences every function of the repository is written in.

  The macros \<^verbatim>\<open>TN_GUARD\<close>, \<^verbatim>\<open>TN_GUARD_CLEANUP\<close>, \<^verbatim>\<open>TN_GUARD_NULL\<close> and \<^verbatim>\<open>TN_GUARD_NULL_CLEANUP\<close>
  run one statement after another and leave the sequence at the first one that fails (a non-zero
  status, a null pointer).  A statement is modelled as a function from the state to an optional
  pair of a status and a new state (\<open>stmt\<close>); \<open>None\<close> means that the C statement has no defined
  behaviour in that state (a null, dangling or uninitialised pointer is dereferenced, or a
  \<^verbatim>\<open>TN_ASSERT\<close> fails).  \<open>guards\<close> runs a list of statements.  \<open>triple\<close> is total correctness of a
  statement with a separate postcondition for the failing exit, and the rules below it are what
  the component proofs chain.
\<close>

section \<open>Machine integers and status codes\<close>

type_synonym u8 = "8 word"
type_synonym u16 = "16 word"
type_synonym u32 = "32 word"
type_synonym u64 = "64 word"

text \<open>An address of a heap block: a libuv handle, a connect request, an array.\<close>

type_synonym addr = nat
type_synonym handle = addr

text \<open>
  The status values the code names.  \<open>TN_SUCCESS\<close> is the only one that counts as success; the
  others are told apart only where the code stores them (\<open>link->error_code\<close>) or compares them
  with success.  \<open>Errno n\<close> is a negative status that libuv returns.
\<close>

datatype code =
    TN_SUCCESS
  | TN_ERROR
  | TN_ERROR_INVAL
  | TN_ERROR_NOMEM
  | TN_RECV_ERROR
  | TN_RECV_EBUF
  | TN_RECV_EVTPOP
  | TN_RECV_EVTPUSH
  | TN_SEND_NOREQ
  | TN_EVENT_NOCHAN
  | UV_EINVAL
  | UV_ENOMEM
  | Errno int

definition UINT64_MAX :: u64 where
  "UINT64_MAX = 18446744073709551615"

definition UINT16_MAX :: u64 where
  "UINT16_MAX = 65535"

named_theorems svl_defs \<open>definitions of the model that evaluation unfolds\<close>
named_theorems svl_frame \<open>fields that an operation leaves unchanged\<close>

declare UINT64_MAX_def [svl_defs] UINT16_MAX_def [svl_defs]

section \<open>Guarded statements\<close>

type_synonym 's stmt = "'s \<Rightarrow> (code \<times> 's) option"

definition assign :: "('s \<Rightarrow> 's) \<Rightarrow> 's stmt" where
  "assign f s = Some (TN_SUCCESS, f s)"

fun guards :: "'s stmt list \<Rightarrow> 's stmt" where
  "guards [] s = Some (TN_SUCCESS, s)"
| "guards (p # ps) s =
     (case p s of
        None \<Rightarrow> None
      | Some (r, s') \<Rightarrow> if r = TN_SUCCESS then guards ps s' else Some (r, s'))"

lemma guards_append:
  "guards (ps @ qs) s =
     (case guards ps s of
        None \<Rightarrow> None
      | Some (r, s') \<Rightarrow> if r = TN_SUCCESS then guards qs s' else Some (r, s'))"
  by (induction ps arbitrary: s) (auto split: option.splits)

definition triple :: "('s \<Rightarrow> bool) \<Rightarrow> 's stmt \<Rightarrow> ('s \<Rightarrow> bool) \<Rightarrow> ('s \<Rightarrow> bool) \<Rightarrow> bool" where
  "triple P p Q R \<longleftrightarrow>
     (\<forall>s. P s \<longrightarrow> (\<exists>r s'. p s = Some (r, s') \<and> (if r = TN_SUCCESS then Q s' else R s')))"

lemma tripleI:
  "(\<And>s. P s \<Longrightarrow> \<exists>r s'. p s = Some (r, s') \<and> (if r = TN_SUCCESS then Q s' else R s')) \<Longrightarrow> triple P p Q R"
  by (simp add: triple_def)

lemma tripleD:
  assumes "triple P p Q R" and "P s"
  obtains r s' where "p s = Some (r, s')" and "r = TN_SUCCESS \<Longrightarrow> Q s'" and "r \<noteq> TN_SUCCESS \<Longrightarrow> R s'"
  using assms unfolding triple_def by (metis (full_types))

lemma triple_assign: "(\<And>s. P s \<Longrightarrow> Q (f s)) \<Longrightarrow> triple P (assign f) Q R"
  by (simp add: triple_def assign_def)

lemma triple_weaken:
  "triple P' p Q' R' \<Longrightarrow> (\<And>s. P s \<Longrightarrow> P' s) \<Longrightarrow> (\<And>s. Q' s \<Longrightarrow> Q s) \<Longrightarrow> (\<And>s. R' s \<Longrightarrow> R s) \<Longrightarrow>
     triple P p Q R"
  unfolding triple_def by (metis (full_types))

lemma triple_guards_Nil: "(\<And>s. P s \<Longrightarrow> Q s) \<Longrightarrow> triple P (guards []) Q R"
  by (simp add: triple_def)

lemma triple_guards_Cons:
  assumes p: "triple P p M R" and ps: "triple M (guards ps) Q R"
  shows "triple P (guards (p # ps)) Q R"
proof (rule tripleI)
  fix s assume "P s"
  with p obtain r s1 where s1: "p s = Some (r, s1)"
    and ok: "r = TN_SUCCESS \<Longrightarrow> M s1" and bad: "r \<noteq> TN_SUCCESS \<Longrightarrow> R s1"
    by (elim tripleD) auto
  show "\<exists>r s'. guards (p # ps) s = Some (r, s') \<and> (if r = TN_SUCCESS then Q s' else R s')"
  proof (cases "r = TN_SUCCESS")
    case True
    from ps ok [OF True] obtain r2 s2 where "guards ps s1 = Some (r2, s2)"
      and "if r2 = TN_SUCCESS then Q s2 else R s2"
      unfolding triple_def by blast
    with s1 True show ?thesis by auto
  next
    case False
    with s1 bad show ?thesis by auto
  qed
qed

lemma triple_guards_append:
  assumes p: "triple P (guards ps) M R" and q: "triple M (guards qs) Q R"
  shows "triple P (guards (ps @ qs)) Q R"
proof (rule tripleI)
  fix s assume "P s"
  with p obtain r s1 where s1: "guards ps s = Some (r, s1)"
    and ok: "r = TN_SUCCESS \<Longrightarrow> M s1" and bad: "r \<noteq> TN_SUCCESS \<Longrightarrow> R s1"
    by (elim tripleD) auto
  show "\<exists>r s'. guards (ps @ qs) s = Some (r, s') \<and> (if r = TN_SUCCESS then Q s' else R s')"
  proof (cases "r = TN_SUCCESS")
    case True
    from q ok [OF True] obtain r2 s2 where "guards qs s1 = Some (r2, s2)"
      and "if r2 = TN_SUCCESS then Q s2 else R s2"
      unfolding triple_def by blast
    with s1 True show ?thesis by (auto simp: guards_append)
  next
    case False
    with s1 bad show ?thesis by (auto simp: guards_append)
  qed
qed

lemma triple_ex: "(\<And>x. triple (P x) p Q R) \<Longrightarrow> triple (\<lambda>s. \<exists>x. P x s) p Q R"
  unfolding triple_def by blast

lemmas triple_seq = triple_guards_Cons triple_guards_Nil

text \<open>
  Partial correctness, for what a statement does to values that the invariants do not mention: if \<open>p\<close>
  runs from a state with \<open>P\<close>, the state it ends in satisfies \<open>Q\<close> if it succeeds and \<open>R\<close> if it fails.
\<close>

definition outcome :: "('s \<Rightarrow> bool) \<Rightarrow> 's stmt \<Rightarrow> ('s \<Rightarrow> bool) \<Rightarrow> ('s \<Rightarrow> bool) \<Rightarrow> bool" where
  "outcome P p Q R \<longleftrightarrow> (\<forall>s r s'. P s \<longrightarrow> p s = Some (r, s') \<longrightarrow> (if r = TN_SUCCESS then Q s' else R s'))"

lemma outcomeI:
  "(\<And>s r s'. P s \<Longrightarrow> p s = Some (r, s') \<Longrightarrow> if r = TN_SUCCESS then Q s' else R s') \<Longrightarrow> outcome P p Q R"
  by (simp add: outcome_def)

lemma outcomeD: "outcome P p Q R \<Longrightarrow> P s \<Longrightarrow> p s = Some (r, s') \<Longrightarrow> if r = TN_SUCCESS then Q s' else R s'"
  by (simp add: outcome_def)

lemma outcome_weaken:
  "outcome P' p Q' R' \<Longrightarrow> (\<And>s. P s \<Longrightarrow> P' s) \<Longrightarrow> (\<And>s. Q' s \<Longrightarrow> Q s) \<Longrightarrow> (\<And>s. R' s \<Longrightarrow> R s) \<Longrightarrow> outcome P p Q R"
  unfolding outcome_def by meson

lemma outcome_ex: "(\<And>x. outcome (P x) p Q R) \<Longrightarrow> outcome (\<lambda>s. \<exists>x. P x s) p Q R"
  unfolding outcome_def by blast

lemma outcome_fact: "(c \<Longrightarrow> outcome P p Q R) \<Longrightarrow> outcome (\<lambda>s. c \<and> P s) p Q R"
  unfolding outcome_def by blast

lemma outcome_guards_Nil: "(\<And>s. P s \<Longrightarrow> Q s) \<Longrightarrow> outcome P (guards []) Q R"
  by (simp add: outcome_def)

lemma outcome_guards_Cons:
  assumes p: "outcome P p M R" and ps: "outcome M (guards ps) Q R"
  shows "outcome P (guards (p # ps)) Q R"
proof (rule outcomeI)
  fix s r s' assume P: "P s" and run: "guards (p # ps) s = Some (r, s')"
  then obtain r1 s1 where s1: "p s = Some (r1, s1)" by (auto split: option.splits)
  from outcomeD [OF p P s1] have one: "if r1 = TN_SUCCESS then M s1 else R s1" .
  show "if r = TN_SUCCESS then Q s' else R s'"
  proof (cases "r1 = TN_SUCCESS")
    case True
    with one run s1 have "M s1" and "guards ps s1 = Some (r, s')" by simp_all
    from outcomeD [OF ps this] show ?thesis .
  next
    case False
    with one run s1 show ?thesis by auto
  qed
qed

lemma outcome_guards_append:
  assumes "outcome P (guards ps) M R" and "outcome M (guards qs) Q R"
  shows "outcome P (guards (ps @ qs)) Q R"
proof (rule outcomeI)
  fix s r s' assume P: "P s" and run: "guards (ps @ qs) s = Some (r, s')"
  then obtain r1 s1 where s1: "guards ps s = Some (r1, s1)" by (auto simp: guards_append split: option.splits)
  from outcomeD [OF assms(1) P s1] have one: "if r1 = TN_SUCCESS then M s1 else R s1" .
  show "if r = TN_SUCCESS then Q s' else R s'"
  proof (cases "r1 = TN_SUCCESS")
    case True
    with one run s1 have "M s1" and "guards qs s1 = Some (r, s')" by (simp_all add: guards_append)
    from outcomeD [OF assms(2) this] show ?thesis .
  next
    case False
    with one run s1 show ?thesis by (auto simp: guards_append)
  qed
qed

text \<open>Statements that all keep \<open>I\<close>.\<close>

lemma outcome_guards: "(\<And>p. p \<in> set ps \<Longrightarrow> outcome I p I Q) \<Longrightarrow> outcome I (guards ps) I Q"
proof (induction ps)
  case Nil
  show ?case by (rule outcome_guards_Nil)
next
  case (Cons p ps)
  then show ?case by (intro outcome_guards_Cons) auto
qed

section \<open>Lists and words\<close>

lemma nth_list_update_cases:
  "j < length xs \<Longrightarrow> xs[i := x] ! j = (if i = j then x else xs ! j)"
  by simp

lemma distinct_last_butlast: "distinct xs \<Longrightarrow> xs \<noteq> [] \<Longrightarrow> last xs \<notin> set (butlast xs)"
  by (metis append_butlast_last_id distinct.simps(2) distinct1_rotate rotate1.simps(2))

lemma set_butlast_last: "xs \<noteq> [] \<Longrightarrow> set xs = insert (last xs) (set (butlast xs))"
  by (metis append_butlast_last_id list.simps(15) rotate1.simps(2) set_rotate1)

lemma unat_mult_no_overflow:
  "unat (a :: u64) * unat b < 2 ^ 64 \<Longrightarrow> unat (a * b) = unat a * unat b"
  by (simp add: unat_word_ariths)

lemma unat_add_no_overflow:
  "unat (a :: u64) + unat b < 2 ^ 64 \<Longrightarrow> unat (a + b) = unat a + unat b"
  by (simp add: unat_word_ariths)

end
