(* ===== verification/Tn_Interface.thy ===== *)
theory Tn_Interface
  imports Svl_Prelude "HOL-Library.Multiset"
begin

unbundle bit_operations_syntax

text \<open>
  The code the repository calls and does not contain: the \<^verbatim>\<open>tn\<close> library (lists, buffers, buffer
  pools, event and command lists, queues, endpoints), the allocator and libuv.

  Nothing is assumed about these functions here.  They are the fields of the record \<open>ext\<close>, which
  every definition of the model that calls one of them takes as its argument.  An object of the
  \<^verbatim>\<open>tn\<close> library (a list, a buffer, a pool, a queue, an event list, a command list) is an opaque
  value of the type \<open>'t\<close>.  libuv and the allocator are black boxes that see every call made so
  far: \<open>uv_ret E log c\<close> is the status of the call \<open>c\<close> after the calls in \<open>log\<close> (newest first,
  each with the status it returned).

  What the code relies on is stated further down as predicates (\<open>list_laws\<close>, \<open>buffer_laws\<close>,
  \<open>pool_laws\<close>, \<open>event_laws\<close>, \<open>cmd_laws\<close>, \<open>uv_laws\<close>, \<open>mem_laws\<close>) over \<open>ext\<close> and a \<open>view\<close> that reads
  the contents of an object.  They are hypotheses of the theorems that need them.
\<close>

section \<open>Structures of the tn library as the repository declares them\<close>

text \<open>
  The layout of endpoints, events and commands is the one of \<^verbatim>\<open>Native.cs\<close>: an endpoint is an address
  family, a port and the remaining address bytes; an event carries the fields of the client open,
  close and read events; a command those of the open, close and send commands.
\<close>

record tn_endpoint_t =
  ep_af :: u16
  ep_port :: u16
  ep_addr :: "u8 list"

datatype tn_event_type_t =
    TN_EVENT_NONE
  | TN_EVENT_START
  | TN_EVENT_STOP
  | TN_EVENT_IOERROR
  | TN_EVENT_CLIENT_OPEN
  | TN_EVENT_CLIENT_CLOSE
  | TN_EVENT_CLIENT_READ
  | TN_EVENT_STATS

record 't tn_event =
  ev_id :: u32
  ev_type :: tn_event_type_t
  ev_cmd_id :: u64
  ev_client_id :: u64
  ev_host :: tn_endpoint_t
  ev_error_code :: code
  ev_buffer :: "u8 list"
  ev_len :: u32
  ev_priv :: "'t option"

datatype tn_cmd_type_t =
    TN_CMD_NONE
  | TN_CMD_CLIENT_OPEN
  | TN_CMD_CLIENT_CLOSE
  | TN_CMD_CLIENT_SEND

record tn_cmd =
  cmd_id :: u64
  cmd_type :: tn_cmd_type_t
  cmd_client_id :: u64
  cmd_endpoint :: tn_endpoint_t
  cmd_buffer :: "u8 list"
  cmd_len :: u64
  cmd_priv :: "nat option"

section \<open>Calls to libuv, the allocator and the thread functions\<close>

datatype close_cb = On_close_handle_cb | On_close_link_cb

text \<open>The blocks the code allocates, by the type it passes to \<^verbatim>\<open>sizeof\<close>.\<close>

datatype block =
    Blk_link | Blk_tcp | Blk_connect | Blk_loop | Blk_timer | Blk_prepare | Blk_check | Blk_signal
  | Blk_write_req | Blk_priv | Blk_event_ptr | Blk_service

datatype uv_call =
    Mem_acquire block u64 "addr option"
  | Mem_release addr
  | Uv_loop_init handle
  | Uv_loop_close handle
  | Uv_run handle
  | Uv_walk handle
  | Uv_timer_init handle
  | Uv_timer_start handle u64 u64
  | Uv_prepare_init handle
  | Uv_prepare_start handle
  | Uv_check_init handle
  | Uv_check_start handle
  | Uv_signal_init handle
  | Uv_signal_start handle
  | Uv_tcp_init handle
  | Uv_tcp_nodelay handle
  | Uv_tcp_bind handle tn_endpoint_t
  | Uv_listen handle u64
  | Uv_accept handle
  | Uv_tcp_connect addr handle tn_endpoint_t
  | Uv_getpeername handle
  | Uv_getsockname handle
  | Uv_read_start handle
  | Uv_write nat handle "u8 list"
  | Uv_close handle "close_cb option"
  | Thread_launch
  | Thread_join

type_synonym uv_log = "(uv_call \<times> code) list"

definition mem_release :: "addr option \<Rightarrow> uv_log \<Rightarrow> uv_log" where
  "mem_release p lg = (case p of None \<Rightarrow> lg | Some a \<Rightarrow> (Mem_release a, TN_SUCCESS) # lg)"

lemma mem_release_simps [simp]:
  "mem_release None lg = lg"
  "mem_release (Some a) lg = (Mem_release a, TN_SUCCESS) # lg"
  by (simp_all add: mem_release_def)

section \<open>The external functions\<close>

record 't ext =
  TN_CMD_INVALID :: u64
  TN_BUFLEN_CAST :: "u64 \<Rightarrow> u64"
  sizeof :: "block \<Rightarrow> u64"
  sizeof_tn_event_base :: u64
  sizeof_tn_cmd_base :: u64
  tn_zero :: 't
  tn_list_ptr_setup :: "u64 \<Rightarrow> code \<times> 't"
  tn_list_ptr_cleanup :: "'t \<Rightarrow> 't"
  tn_list_ptr_clear :: "'t \<Rightarrow> 't"
  tn_list_ptr_push_back :: "'t \<Rightarrow> nat \<Rightarrow> code \<times> 't"
  tn_list_ptr_pop_back :: "'t \<Rightarrow> nat option \<Rightarrow> code \<times> nat option \<times> 't"
  tn_buffer_read_length :: "'t \<Rightarrow> u64"
  tn_buffer_remaining :: "'t \<Rightarrow> u64"
  tn_buffer_read_ptr :: "'t \<Rightarrow> u8 list"
  tn_buffer_add_length :: "'t \<Rightarrow> u64 \<Rightarrow> code \<times> 't"
  tn_buffer_read_be32 :: "'t \<Rightarrow> u32 \<Rightarrow> code \<times> u32 \<times> 't"
  tn_buffer_read_skip :: "'t \<Rightarrow> u64 \<Rightarrow> code \<times> 't"
  tn_buffer_read_reset :: "'t \<Rightarrow> 't"
  tn_buffer_write_buffer :: "'t \<Rightarrow> 't \<Rightarrow> u64 \<Rightarrow> code \<times> 't"
  kernel_store :: "'t \<Rightarrow> u8 list \<Rightarrow> 't"
  tn_buffer_pool_setup :: "u64 \<Rightarrow> u64 \<Rightarrow> code \<times> 't"
  tn_buffer_pool_cleanup :: "'t \<Rightarrow> 't"
  tn_buffer_pool_pop_back :: "'t \<Rightarrow> 't option \<Rightarrow> code \<times> 't option \<times> 't"
  tn_buffer_pool_push :: "'t \<Rightarrow> 't \<Rightarrow> code \<times> 't"
  tn_event_list_setup :: "u64 \<Rightarrow> code \<times> 't"
  tn_event_list_cleanup :: "'t \<Rightarrow> 't"
  tn_event_list_free_pop :: "tn_event_type_t \<Rightarrow> 't \<Rightarrow> code \<times> 't tn_event option \<times> 't"
  tn_event_list_free_push :: "'t \<Rightarrow> 't tn_event \<Rightarrow> code \<times> 't"
  tn_event_list_ready_push :: "'t \<Rightarrow> 't tn_event \<Rightarrow> code \<times> 't"
  tn_event_list_ready_pop_all :: "'t \<Rightarrow> u64 \<Rightarrow> code \<times> 't tn_event list \<times> 't"
  tn_cmd_list_setup :: "u64 \<Rightarrow> code \<times> 't"
  tn_cmd_list_cleanup :: "'t \<Rightarrow> 't"
  tn_cmd_list_free_pop :: "tn_cmd_type_t \<Rightarrow> 't \<Rightarrow> code \<times> tn_cmd option \<times> 't"
  tn_cmd_list_free_push :: "'t \<Rightarrow> tn_cmd \<Rightarrow> code \<times> 't"
  tn_cmd_list_ready_push :: "'t \<Rightarrow> tn_cmd \<Rightarrow> code \<times> 't"
  tn_cmd_list_ready_pop_back :: "'t \<Rightarrow> code \<times> tn_cmd option \<times> 't"
  tn_queue_spsc_setup :: "u64 \<Rightarrow> code \<times> 't"
  tn_queue_spsc_cleanup :: "'t \<Rightarrow> 't"
  tn_queue_spsc_push :: "'t \<Rightarrow> nat \<Rightarrow> code \<times> 't"
  tn_queue_spsc_peek :: "'t \<Rightarrow> code \<times> nat option"
  tn_endpoint_af_get :: "tn_endpoint_t \<Rightarrow> u16"
  tn_endpoint_convert_from :: "u8 list \<Rightarrow> code \<times> tn_endpoint_t"
  tn_endpoint_string_get :: "tn_endpoint_t \<Rightarrow> code"
  AF_INET :: u16
  AF_INET6 :: u16
  released_ptr :: "addr option \<Rightarrow> addr option"
  TN_MEM_ACQUIRE :: "uv_log \<Rightarrow> block \<Rightarrow> u64 \<Rightarrow> addr option"
  uv_ret :: "uv_log \<Rightarrow> uv_call \<Rightarrow> code"
  uv_is_closing :: "uv_log \<Rightarrow> handle \<Rightarrow> bool"
  uv_peer :: "uv_log \<Rightarrow> handle \<Rightarrow> u8 list"
  uv_sock :: "uv_log \<Rightarrow> handle \<Rightarrow> u8 list"
  uv_handle_list :: "uv_log \<Rightarrow> handle list"

text \<open>
  Conventions of the record.  A function that returns through an out-parameter takes the value the
  out-parameter has before the call and returns the one it has afterwards, with \<open>None\<close> for
  \<^verbatim>\<open>NULL\<close>.  \<open>tn_event_list_free_pop ty\<close> stands for the typed variants
  \<^verbatim>\<open>tn_event_list_free_pop_open\<close>, \<^verbatim>\<open>_close\<close> and \<^verbatim>\<open>_read\<close>, \<open>tn_cmd_list_free_pop ty\<close> for
  \<^verbatim>\<open>tn_cmd_list_free_pop_open\<close>, \<^verbatim>\<open>_close\<close> and \<^verbatim>\<open>_send\<close>.  A pointer into a buffer is the list of bytes
  it points at.  \<open>kernel_store b xs\<close> is the buffer \<open>b\<close> after the kernel has stored \<open>xs\<close> at
  \<^verbatim>\<open>tn_buffer_write_ptr(b)\<close>, which is what a read of the event loop does.  \<open>tn_zero\<close> is an object
  whose bytes are all zero (after \<^verbatim>\<open>memset\<close>).  \<open>uv_handle_list\<close> are the handles \<^verbatim>\<open>uv_walk\<close> visits.  \<open>released_ptr p\<close> is the value a pointer variable
  \<open>p\<close> has after \<^verbatim>\<open>TN_MEM_RELEASE(p)\<close> (the macro may or may not clear it).
\<close>

text \<open>
  An array of \<open>n\<close> elements is allocated with \<^verbatim>\<open>n * sizeof(element)\<close> bytes, computed in \<^verbatim>\<open>size_t\<close>.  The
  product may wrap; the array then has fewer than \<open>n\<close> elements.
\<close>

definition array_bytes :: "'t ext \<Rightarrow> block \<Rightarrow> u64 \<Rightarrow> u64" where
  "array_bytes E blk n = n * sizeof E blk"

definition array_len :: "'t ext \<Rightarrow> block \<Rightarrow> u64 \<Rightarrow> nat" where
  "array_len E blk n = unat (array_bytes E blk n) div unat (sizeof E blk)"

lemma array_len_exact:
  assumes "unat n * unat (sizeof E blk) < 2 ^ 64" and "sizeof E blk \<noteq> 0"
  shows "array_len E blk n = unat n"
proof -
  from assms(2) have "unat (sizeof E blk) \<noteq> 0" by (simp add: unat_eq_0)
  with unat_mult_no_overflow [OF assms(1)] show ?thesis
    by (simp add: array_len_def array_bytes_def)
qed

section \<open>Contents of the objects\<close>

record 't view =
  list_elems :: "'t \<Rightarrow> nat list"
  list_cap :: "'t \<Rightarrow> nat"
  buf_bytes :: "'t \<Rightarrow> u8 list"
  buf_room :: "'t \<Rightarrow> nat"
  pool_cap :: "'t \<Rightarrow> nat"
  pool_size :: "'t \<Rightarrow> nat"
  ev_cap :: "'t \<Rightarrow> nat"
  ev_free :: "'t \<Rightarrow> nat"
  ev_ready :: "'t \<Rightarrow> 't tn_event list"
  cmd_cap :: "'t \<Rightarrow> nat"
  cmd_free :: "'t \<Rightarrow> nat"
  cmd_ready :: "'t \<Rightarrow> tn_cmd list"

section \<open>Laws of the tn containers\<close>

text \<open>
  \<^verbatim>\<open>tn_list_ptr\<close>: a list of pointers with a capacity fixed at setup.  A push appends at the back
  and succeeds below the capacity, a pop takes the last element and fails on an empty list, and a
  failing call changes neither the contents nor the out-parameter.
\<close>

definition list_laws :: "'t ext \<Rightarrow> 't view \<Rightarrow> bool" where
  "list_laws E V \<longleftrightarrow>
     (\<forall>n l. tn_list_ptr_setup E n = (TN_SUCCESS, l) \<longrightarrow> list_elems V l = [] \<and> list_cap V l = unat n) \<and>
     (\<forall>l x r l'. tn_list_ptr_push_back E l x = (r, l') \<longrightarrow>
        list_cap V l' = list_cap V l \<and>
        list_elems V l' = (if r = TN_SUCCESS then list_elems V l @ [x] else list_elems V l) \<and>
        (length (list_elems V l) < list_cap V l \<longrightarrow> r = TN_SUCCESS)) \<and>
     (\<forall>l out r out' l'. tn_list_ptr_pop_back E l out = (r, out', l') \<longrightarrow>
        list_cap V l' = list_cap V l \<and>
        (if list_elems V l = []
         then r \<noteq> TN_SUCCESS \<and> out' = out \<and> list_elems V l' = []
         else r = TN_SUCCESS \<and> out' = Some (last (list_elems V l)) \<and>
              list_elems V l' = butlast (list_elems V l))) \<and>
     (\<forall>l. list_elems V (tn_list_ptr_clear E l) = [] \<and> list_cap V (tn_list_ptr_clear E l) = list_cap V l)"

text \<open>
  \<^verbatim>\<open>tn_buffer\<close>: bytes that were written and not yet read, and room for more.  Lengths are reported in
  \<^verbatim>\<open>size_t\<close>.  \<^verbatim>\<open>tn_buffer_add_length\<close> makes bytes that the kernel stored at the write pointer part of
  the contents if they fit; \<^verbatim>\<open>tn_buffer_read_be32\<close> and \<^verbatim>\<open>tn_buffer_read_skip\<close> consume bytes from the
  front and fail, without consuming, when there are too few.
\<close>

definition be32 :: "u8 list \<Rightarrow> u32" where
  "be32 bs = foldl (\<lambda>acc b. push_bit 8 acc OR ucast b) 0 bs"

definition be32_bytes :: "u32 \<Rightarrow> u8 list" where
  "be32_bytes v = [ucast (drop_bit 24 v), ucast (drop_bit 16 v), ucast (drop_bit 8 v), ucast v]"

lemma be32_roundtrip [simp]: "be32 (be32_bytes v) = v"
proof (rule bit_word_eqI)
  fix n assume n: "n < LENGTH(32)"
  then consider "n < 8" | "8 \<le> n" "n < 16" | "16 \<le> n" "n < 24" | "24 \<le> n" "n < 32"
    by (simp, linarith)
  then show "bit (be32 (be32_bytes v)) n = bit v n"
    using n by cases (auto simp: be32_def be32_bytes_def bit_simps)
qed

lemma length_be32_bytes [simp]: "length (be32_bytes v) = 4"
  by (simp add: be32_bytes_def)

definition buffer_laws :: "'t ext \<Rightarrow> 't view \<Rightarrow> bool" where
  "buffer_laws E V \<longleftrightarrow>
     (\<forall>b. tn_buffer_read_length E b = of_nat (length (buf_bytes V b))) \<and>
     (\<forall>b. tn_buffer_remaining E b = of_nat (buf_room V b)) \<and>
     (\<forall>b. \<exists>rest. tn_buffer_read_ptr E b = buf_bytes V b @ rest) \<and>
     (\<forall>b xs n r b'. tn_buffer_add_length E (kernel_store E b xs) n = (r, b') \<longrightarrow> length xs = unat n \<longrightarrow>
        (if unat n \<le> buf_room V b
         then r = TN_SUCCESS \<and> buf_bytes V b' = buf_bytes V b @ xs \<and> buf_room V b' = buf_room V b - unat n
         else r \<noteq> TN_SUCCESS \<and> buf_bytes V b' = buf_bytes V b)) \<and>
     (\<forall>b v0 r v b'. tn_buffer_read_be32 E b v0 = (r, v, b') \<longrightarrow>
        (if 4 \<le> length (buf_bytes V b)
         then r = TN_SUCCESS \<and> v = be32 (take 4 (buf_bytes V b)) \<and> buf_bytes V b' = drop 4 (buf_bytes V b)
         else r \<noteq> TN_SUCCESS \<and> buf_bytes V b' = buf_bytes V b)) \<and>
     (\<forall>b n r b'. tn_buffer_read_skip E b n = (r, b') \<longrightarrow>
        (if unat n \<le> length (buf_bytes V b)
         then r = TN_SUCCESS \<and> buf_bytes V b' = drop (unat n) (buf_bytes V b)
         else r \<noteq> TN_SUCCESS \<and> buf_bytes V b' = buf_bytes V b))"

text \<open>
  \<^verbatim>\<open>tn_buffer_pool\<close>: a number of buffers to hand out, at most as many as at setup.  A pop from a pool that
  has one yields a buffer with no unread bytes; from an empty pool it fails and leaves the
  out-parameter alone.  A push succeeds while one is missing.
\<close>

definition pool_laws :: "'t ext \<Rightarrow> 't view \<Rightarrow> bool" where
  "pool_laws E V \<longleftrightarrow>
     (\<forall>n m p. tn_buffer_pool_setup E n m = (TN_SUCCESS, p) \<longrightarrow>
        pool_cap V p = unat n \<and> pool_size V p = unat n) \<and>
     (\<forall>p out r out' p'. tn_buffer_pool_pop_back E p out = (r, out', p') \<longrightarrow>
        pool_cap V p' = pool_cap V p \<and>
        (if pool_size V p = 0
         then r \<noteq> TN_SUCCESS \<and> out' = out \<and> pool_size V p' = 0
         else r = TN_SUCCESS \<and> Suc (pool_size V p') = pool_size V p \<and>
              (\<exists>b. out' = Some b \<and> buf_bytes V b = []))) \<and>
     (\<forall>p b r p'. tn_buffer_pool_push E p b = (r, p') \<longrightarrow>
        pool_cap V p' = pool_cap V p \<and>
        pool_size V p' = (if r = TN_SUCCESS then Suc (pool_size V p) else pool_size V p) \<and>
        (pool_size V p < pool_cap V p \<longrightarrow> r = TN_SUCCESS))"

text \<open>
  \<^verbatim>\<open>tn_event_list\<close>: a stock of unused events and a queue of events that wait for the main thread.  A
  free pop takes an event of the requested type off the stock, a free push puts one back while the
  stock is not complete, a ready push appends to the queue
  and succeeds below its capacity, and \<^verbatim>\<open>tn_event_list_ready_pop_all\<close> takes the oldest events, at most
  as many as the caller has room for.
\<close>

definition event_laws :: "'t ext \<Rightarrow> 't view \<Rightarrow> bool" where
  "event_laws E V \<longleftrightarrow>
     (\<forall>n l. tn_event_list_setup E n = (TN_SUCCESS, l) \<longrightarrow>
        ev_cap V l = unat n \<and> ev_free V l = unat n \<and> ev_ready V l = []) \<and>
     (\<forall>ty l r out l'. tn_event_list_free_pop E ty l = (r, out, l') \<longrightarrow>
        ev_cap V l' = ev_cap V l \<and> ev_ready V l' = ev_ready V l \<and>
        (if ev_free V l = 0
         then r \<noteq> TN_SUCCESS \<and> ev_free V l' = 0
         else r = TN_SUCCESS \<and> Suc (ev_free V l') = ev_free V l \<and> (\<exists>e. out = Some e \<and> ev_type e = ty))) \<and>
     (\<forall>l e r l'. tn_event_list_free_push E l e = (r, l') \<longrightarrow>
        ev_cap V l' = ev_cap V l \<and> ev_ready V l' = ev_ready V l \<and>
        ev_free V l' = (if r = TN_SUCCESS then Suc (ev_free V l) else ev_free V l) \<and>
        (ev_free V l < ev_cap V l \<longrightarrow> r = TN_SUCCESS)) \<and>
     (\<forall>l e r l'. tn_event_list_ready_push E l e = (r, l') \<longrightarrow>
        ev_cap V l' = ev_cap V l \<and> ev_free V l' = ev_free V l \<and>
        ev_ready V l' = (if r = TN_SUCCESS then ev_ready V l @ [e] else ev_ready V l) \<and>
        (length (ev_ready V l) < ev_cap V l \<longrightarrow> r = TN_SUCCESS)) \<and>
     (\<forall>l n r es l'. tn_event_list_ready_pop_all E l n = (r, es, l') \<longrightarrow>
        ev_cap V l' = ev_cap V l \<and> ev_free V l' = ev_free V l \<and>
        (if r = TN_SUCCESS
         then es = take (unat n) (ev_ready V l) \<and> ev_ready V l' = drop (unat n) (ev_ready V l)
         else es = [] \<and> ev_ready V l' = ev_ready V l) \<and>
        (ev_ready V l \<noteq> [] \<longrightarrow> n \<noteq> 0 \<longrightarrow> r = TN_SUCCESS))"

text \<open>
  \<^verbatim>\<open>tn_cmd_list\<close>: the same for commands, except that the IO thread takes them one at a time.  Nothing
  is assumed about the order in which \<^verbatim>\<open>tn_cmd_list_ready_pop_back\<close> takes them.
\<close>

definition cmd_laws :: "'t ext \<Rightarrow> 't view \<Rightarrow> bool" where
  "cmd_laws E V \<longleftrightarrow>
     (\<forall>n l. tn_cmd_list_setup E n = (TN_SUCCESS, l) \<longrightarrow>
        cmd_cap V l = unat n \<and> cmd_free V l = unat n \<and> cmd_ready V l = []) \<and>
     (\<forall>ty l r out l'. tn_cmd_list_free_pop E ty l = (r, out, l') \<longrightarrow>
        cmd_cap V l' = cmd_cap V l \<and> cmd_ready V l' = cmd_ready V l \<and>
        (if cmd_free V l = 0
         then r \<noteq> TN_SUCCESS \<and> cmd_free V l' = 0
         else r = TN_SUCCESS \<and> Suc (cmd_free V l') = cmd_free V l \<and>
              (\<exists>c. out = Some c \<and> cmd_type c = ty))) \<and>
     (\<forall>l c r l'. tn_cmd_list_free_push E l c = (r, l') \<longrightarrow>
        cmd_cap V l' = cmd_cap V l \<and> cmd_ready V l' = cmd_ready V l \<and>
        cmd_free V l' = (if r = TN_SUCCESS then Suc (cmd_free V l) else cmd_free V l) \<and>
        (cmd_free V l < cmd_cap V l \<longrightarrow> r = TN_SUCCESS)) \<and>
     (\<forall>l c r l'. tn_cmd_list_ready_push E l c = (r, l') \<longrightarrow>
        cmd_cap V l' = cmd_cap V l \<and> cmd_free V l' = cmd_free V l \<and>
        cmd_ready V l' = (if r = TN_SUCCESS then cmd_ready V l @ [c] else cmd_ready V l) \<and>
        (length (cmd_ready V l) < cmd_cap V l \<longrightarrow> r = TN_SUCCESS)) \<and>
     (\<forall>l r out l'. tn_cmd_list_ready_pop_back E l = (r, out, l') \<longrightarrow>
        cmd_cap V l' = cmd_cap V l \<and> cmd_free V l' = cmd_free V l \<and>
        (if cmd_ready V l = []
         then r \<noteq> TN_SUCCESS \<and> cmd_ready V l' = []
         else r = TN_SUCCESS \<and>
              (\<exists>c. out = Some c \<and> mset (cmd_ready V l) = add_mset c (mset (cmd_ready V l')))))"

section \<open>The libuv contract\<close>

text \<open>
  The life of a heap block as the log of calls shows it: allocated, turned into an active handle by
  an init call that succeeds (a loop: until \<^verbatim>\<open>uv_loop_close\<close> succeeds), closing from \<^verbatim>\<open>uv_close\<close> on (with the callback libuv will run), and
  absent after it is released.
\<close>

datatype block_status = Absent | Allocated | Active | Closing "close_cb option"

fun status :: "uv_log \<Rightarrow> addr \<Rightarrow> block_status" where
  "status [] a = Absent"
| "status ((c, r) # lg) a =
     (case c of
        Mem_acquire _ _ p \<Rightarrow> if p = Some a then Allocated else status lg a
      | Mem_release b \<Rightarrow> if b = a then Absent else status lg a
      | Uv_loop_close h \<Rightarrow> if h = a \<and> r = TN_SUCCESS then Allocated else status lg a
      | Uv_loop_init h \<Rightarrow> if h = a \<and> r = TN_SUCCESS then Active else status lg a
      | Uv_timer_init h \<Rightarrow> if h = a \<and> r = TN_SUCCESS then Active else status lg a
      | Uv_prepare_init h \<Rightarrow> if h = a \<and> r = TN_SUCCESS then Active else status lg a
      | Uv_check_init h \<Rightarrow> if h = a \<and> r = TN_SUCCESS then Active else status lg a
      | Uv_signal_init h \<Rightarrow> if h = a \<and> r = TN_SUCCESS then Active else status lg a
      | Uv_tcp_init h \<Rightarrow> if h = a \<and> r = TN_SUCCESS then Active else status lg a
      | Uv_close h cb \<Rightarrow> if h = a then Closing cb else status lg a
      | _ \<Rightarrow> status lg a)"

fun is_closing_status :: "block_status \<Rightarrow> bool" where
  "is_closing_status (Closing _) = True"
| "is_closing_status _ = False"

text \<open>
  \<^verbatim>\<open>uv_is_closing\<close> tells whether \<^verbatim>\<open>uv_close\<close> was called on the handle; the allocator returns only
  blocks that are not in use.
\<close>

definition uv_laws :: "'t ext \<Rightarrow> bool" where
  "uv_laws E \<longleftrightarrow> (\<forall>lg h. uv_is_closing E lg h = is_closing_status (status lg h))"

definition mem_laws :: "'t ext \<Rightarrow> bool" where
  "mem_laws E \<longleftrightarrow> (\<forall>lg b n a. TN_MEM_ACQUIRE E lg b n = Some a \<longrightarrow> status lg a = Absent)"

text \<open>
  What libuv and the allocator demand of their caller: a handle is initialised once, in fresh
  memory; it is used while it is active; it is closed once, while it is active; memory is released
  only if it is plain memory or a handle that was closed.
\<close>

fun call_ok :: "uv_log \<Rightarrow> uv_call \<Rightarrow> bool" where
  "call_ok lg (Uv_loop_init h) = (status lg h = Allocated)"
| "call_ok lg (Uv_timer_init h) = (status lg h = Allocated)"
| "call_ok lg (Uv_prepare_init h) = (status lg h = Allocated)"
| "call_ok lg (Uv_check_init h) = (status lg h = Allocated)"
| "call_ok lg (Uv_signal_init h) = (status lg h = Allocated)"
| "call_ok lg (Uv_tcp_init h) = (status lg h = Allocated)"
| "call_ok lg (Uv_timer_start h a b) = (status lg h = Active)"
| "call_ok lg (Uv_prepare_start h) = (status lg h = Active)"
| "call_ok lg (Uv_check_start h) = (status lg h = Active)"
| "call_ok lg (Uv_signal_start h) = (status lg h = Active)"
| "call_ok lg (Uv_tcp_nodelay h) = (status lg h = Active)"
| "call_ok lg (Uv_tcp_bind h ep) = (status lg h = Active)"
| "call_ok lg (Uv_listen h n) = (status lg h = Active)"
| "call_ok lg (Uv_accept h) = (status lg h = Active)"
| "call_ok lg (Uv_tcp_connect q h ep) = (status lg q = Allocated \<and> status lg h = Active)"
| "call_ok lg (Uv_getpeername h) = (status lg h = Active)"
| "call_ok lg (Uv_getsockname h) = (status lg h = Active)"
| "call_ok lg (Uv_read_start h) = (status lg h = Active)"
| "call_ok lg (Uv_write q h bs) = (status lg h = Active)"
| "call_ok lg (Uv_close h cb) = (status lg h = Active)"
| "call_ok lg (Mem_release a) = (status lg a = Allocated \<or> is_closing_status (status lg a))"
| "call_ok lg c = True"

fun log_ok :: "uv_log \<Rightarrow> bool" where
  "log_ok [] = True"
| "log_ok ((c, r) # lg) = (call_ok lg c \<and> log_ok lg)"

end
