(* ===== verification/Tn_Reference.thy ===== *)
theory Tn_Reference
  imports Tn_Interface
begin

text \<open>
  A concrete instance of the external functions, with bounded lists as containers, an allocator
  that never runs out and calls to libuv that succeed.  It satisfies every law of
  \<^verbatim>\<open>Tn_Interface\<close>, so the hypotheses of the theorems can hold together; the witnesses of the
  development evaluate the program on it.
\<close>

section \<open>Objects\<close>

type_synonym 'r flat_event =
  "u32 \<times> tn_event_type_t \<times> u64 \<times> u64 \<times> tn_endpoint_t \<times> code \<times> u8 list \<times> u32 \<times> 'r option"

datatype robj =
    RZero
  | RList nat "nat list"
  | RBuf nat "u8 list" "u8 list"
  | RPool nat nat u64
  | REvents nat nat "robj flat_event list"
  | RCmds nat nat "tn_cmd list"
  | RQueue "nat list"

fun flat :: "'r tn_event \<Rightarrow> 'r flat_event" where
  "flat e = (ev_id e, ev_type e, ev_cmd_id e, ev_client_id e, ev_host e, ev_error_code e,
             ev_buffer e, ev_len e, ev_priv e)"

fun unflat :: "'r flat_event \<Rightarrow> 'r tn_event" where
  "unflat (i, ty, c, cl, h, er, b, l, p) =
     \<lparr>ev_id = i, ev_type = ty, ev_cmd_id = c, ev_client_id = cl, ev_host = h, ev_error_code = er,
      ev_buffer = b, ev_len = l, ev_priv = p\<rparr>"

lemma unflat_flat [simp]: "unflat (flat e) = e"
  by (cases e) simp

definition ref_endpoint :: tn_endpoint_t where
  "ref_endpoint = \<lparr>ep_af = 0, ep_port = 0, ep_addr = []\<rparr>"

definition ref_event :: "tn_event_type_t \<Rightarrow> robj tn_event" where
  "ref_event ty = \<lparr>ev_id = 0, ev_type = ty, ev_cmd_id = 0, ev_client_id = 0, ev_host = ref_endpoint,
     ev_error_code = TN_SUCCESS, ev_buffer = [], ev_len = 0, ev_priv = None\<rparr>"

definition ref_cmd :: "nat \<Rightarrow> tn_cmd_type_t \<Rightarrow> tn_cmd" where
  "ref_cmd i ty = \<lparr>cmd_id = of_nat i, cmd_type = ty, cmd_client_id = 0, cmd_endpoint = ref_endpoint,
     cmd_buffer = [], cmd_len = 0, cmd_priv = None\<rparr>"

section \<open>Containers\<close>

fun ref_push_back :: "robj \<Rightarrow> nat \<Rightarrow> code \<times> robj" where
  "ref_push_back (RList n xs) x = (if length xs < n then (TN_SUCCESS, RList n (xs @ [x])) else (TN_ERROR, RList n xs))"
| "ref_push_back l x = (TN_ERROR, l)"

fun ref_pop_back :: "robj \<Rightarrow> nat option \<Rightarrow> code \<times> nat option \<times> robj" where
  "ref_pop_back (RList n xs) out =
     (if xs = [] then (TN_ERROR, out, RList n xs) else (TN_SUCCESS, Some (last xs), RList n (butlast xs)))"
| "ref_pop_back l out = (TN_ERROR, out, l)"

fun ref_clear :: "robj \<Rightarrow> robj" where
  "ref_clear (RList n xs) = RList n []"
| "ref_clear l = l"

fun ref_bytes :: "robj \<Rightarrow> u8 list" where
  "ref_bytes (RBuf n xs ys) = xs"
| "ref_bytes b = []"

fun ref_room :: "robj \<Rightarrow> nat" where
  "ref_room (RBuf n xs ys) = n"
| "ref_room b = 0"

fun ref_store :: "robj \<Rightarrow> u8 list \<Rightarrow> robj" where
  "ref_store (RBuf n xs ys) zs = RBuf n xs zs"
| "ref_store b zs = b"

fun ref_add_length :: "robj \<Rightarrow> u64 \<Rightarrow> code \<times> robj" where
  "ref_add_length (RBuf n xs ys) k =
     (if unat k \<le> n then (TN_SUCCESS, RBuf (n - unat k) (xs @ take (unat k) ys) []) else (TN_ERROR, RBuf n xs ys))"
| "ref_add_length b k = (if k = 0 then (TN_SUCCESS, b) else (TN_ERROR, b))"

fun ref_drop :: "nat \<Rightarrow> robj \<Rightarrow> robj" where
  "ref_drop k (RBuf n xs ys) = RBuf n (drop k xs) ys"
| "ref_drop k b = b"

definition ref_read_be32 :: "robj \<Rightarrow> u32 \<Rightarrow> code \<times> u32 \<times> robj" where
  "ref_read_be32 b v = (if 4 \<le> length (ref_bytes b) then (TN_SUCCESS, be32 (take 4 (ref_bytes b)), ref_drop 4 b)
     else (TN_ERROR, v, b))"

definition ref_read_skip :: "robj \<Rightarrow> u64 \<Rightarrow> code \<times> robj" where
  "ref_read_skip b n = (if unat n \<le> length (ref_bytes b) then (TN_SUCCESS, ref_drop (unat n) b) else (TN_ERROR, b))"

definition ref_write_buffer :: "robj \<Rightarrow> robj \<Rightarrow> u64 \<Rightarrow> code \<times> robj" where
  "ref_write_buffer b c k = ref_add_length (ref_store b (ref_bytes c)) (of_nat (length (ref_bytes c)))"

fun ref_pool_pop :: "robj \<Rightarrow> robj option \<Rightarrow> code \<times> robj option \<times> robj" where
  "ref_pool_pop (RPool c (Suc n) sz) out = (TN_SUCCESS, Some (RBuf (unat sz) [] []), RPool c n sz)"
| "ref_pool_pop p out = (TN_ERROR, out, p)"

fun ref_pool_push :: "robj \<Rightarrow> robj \<Rightarrow> code \<times> robj" where
  "ref_pool_push (RPool c n sz) b = (if n < c then (TN_SUCCESS, RPool c (Suc n) sz) else (TN_ERROR, RPool c n sz))"
| "ref_pool_push p b = (TN_ERROR, p)"

fun ref_ev_pop :: "tn_event_type_t \<Rightarrow> robj \<Rightarrow> code \<times> robj tn_event option \<times> robj" where
  "ref_ev_pop ty (REvents c (Suc n) es) = (TN_SUCCESS, Some (ref_event ty), REvents c n es)"
| "ref_ev_pop ty l = (TN_ERROR, None, l)"

fun ref_ev_give :: "robj \<Rightarrow> robj tn_event \<Rightarrow> code \<times> robj" where
  "ref_ev_give (REvents c n es) e = (TN_SUCCESS, REvents c (Suc n) es)"
| "ref_ev_give l e = (TN_ERROR, l)"

fun ref_ev_push :: "robj \<Rightarrow> robj tn_event \<Rightarrow> code \<times> robj" where
  "ref_ev_push (REvents c n es) e =
     (if length es < c then (TN_SUCCESS, REvents c n (es @ [flat e])) else (TN_ERROR, REvents c n es))"
| "ref_ev_push l e = (TN_ERROR, l)"

fun ref_ev_pop_all :: "robj \<Rightarrow> u64 \<Rightarrow> code \<times> robj tn_event list \<times> robj" where
  "ref_ev_pop_all (REvents c n es) k =
     (TN_SUCCESS, map unflat (take (unat k) es), REvents c n (drop (unat k) es))"
| "ref_ev_pop_all l k = (TN_ERROR, [], l)"

fun ref_cmd_pop :: "tn_cmd_type_t \<Rightarrow> robj \<Rightarrow> code \<times> tn_cmd option \<times> robj" where
  "ref_cmd_pop ty (RCmds c (Suc n) cs) = (TN_SUCCESS, Some (ref_cmd n ty), RCmds c n cs)"
| "ref_cmd_pop ty l = (TN_ERROR, None, l)"

fun ref_cmd_give :: "robj \<Rightarrow> tn_cmd \<Rightarrow> code \<times> robj" where
  "ref_cmd_give (RCmds c n cs) x = (TN_SUCCESS, RCmds c (Suc n) cs)"
| "ref_cmd_give l x = (TN_ERROR, l)"

fun ref_cmd_push :: "robj \<Rightarrow> tn_cmd \<Rightarrow> code \<times> robj" where
  "ref_cmd_push (RCmds c n cs) x =
     (if length cs < c then (TN_SUCCESS, RCmds c n (cs @ [x])) else (TN_ERROR, RCmds c n cs))"
| "ref_cmd_push l x = (TN_ERROR, l)"

fun ref_cmd_next :: "robj \<Rightarrow> code \<times> tn_cmd option \<times> robj" where
  "ref_cmd_next (RCmds c n (x # cs)) = (TN_SUCCESS, Some x, RCmds c n cs)"
| "ref_cmd_next l = (TN_ERROR, None, l)"

fun ref_queue_push :: "robj \<Rightarrow> nat \<Rightarrow> code \<times> robj" where
  "ref_queue_push (RQueue xs) x = (TN_SUCCESS, RQueue (xs @ [x]))"
| "ref_queue_push q x = (TN_ERROR, q)"

fun ref_queue_peek :: "robj \<Rightarrow> code \<times> nat option" where
  "ref_queue_peek (RQueue (x # xs)) = (TN_SUCCESS, Some x)"
| "ref_queue_peek q = (TN_ERROR, None)"

section \<open>Allocator\<close>

fun call_block :: "uv_call \<Rightarrow> addr" where
  "call_block (Mem_acquire _ _ p) = (case p of None \<Rightarrow> 0 | Some a \<Rightarrow> a)"
| "call_block (Uv_loop_init h) = h"
| "call_block (Uv_loop_close h) = h"
| "call_block (Uv_timer_init h) = h"
| "call_block (Uv_prepare_init h) = h"
| "call_block (Uv_check_init h) = h"
| "call_block (Uv_signal_init h) = h"
| "call_block (Uv_tcp_init h) = h"
| "call_block (Uv_close h cb) = h"
| "call_block c = 0"

fun ref_fresh :: "uv_log \<Rightarrow> addr" where
  "ref_fresh [] = 1"
| "ref_fresh ((c, r) # lg) = max (Suc (call_block c)) (ref_fresh lg)"

text \<open>The handles of a loop: the blocks that are active or closing.\<close>

definition ref_handles :: "uv_log \<Rightarrow> handle list" where
  "ref_handles lg = filter (\<lambda>a. status lg a \<noteq> Absent \<and> status lg a \<noteq> Allocated) [0..<ref_fresh lg]"

lemma status_fresh: "ref_fresh lg \<le> a \<Longrightarrow> status lg a = Absent"
proof (induction lg)
  case Nil
  show ?case by simp
next
  case (Cons p lg)
  obtain c r where "p = (c, r)" by fastforce
  with Cons show ?case by (cases c) auto
qed

section \<open>The instance\<close>

definition ref_ext :: "robj ext" where
  "ref_ext =
     \<lparr>TN_CMD_INVALID = UINT64_MAX, TN_BUFLEN_CAST = (\<lambda>n. n), sizeof = (\<lambda>_. 128),
      sizeof_tn_event_base = 64, sizeof_tn_cmd_base = 64, tn_zero = RZero,
      tn_list_ptr_setup = (\<lambda>n. (TN_SUCCESS, RList (unat n) [])), tn_list_ptr_cleanup = (\<lambda>_. RZero),
      tn_list_ptr_clear = ref_clear, tn_list_ptr_push_back = ref_push_back,
      tn_list_ptr_pop_back = ref_pop_back, tn_buffer_read_length = (\<lambda>b. of_nat (length (ref_bytes b))),
      tn_buffer_remaining = (\<lambda>b. of_nat (ref_room b)), tn_buffer_read_ptr = ref_bytes,
      tn_buffer_add_length = ref_add_length, tn_buffer_read_be32 = ref_read_be32,
      tn_buffer_read_skip = ref_read_skip, tn_buffer_read_reset = (\<lambda>b. b),
      tn_buffer_write_buffer = ref_write_buffer, kernel_store = ref_store,
      tn_buffer_pool_setup = (\<lambda>n sz. (TN_SUCCESS, RPool (unat n) (unat n) sz)), tn_buffer_pool_cleanup = (\<lambda>_. RZero),
      tn_buffer_pool_pop_back = ref_pool_pop, tn_buffer_pool_push = ref_pool_push,
      tn_event_list_setup = (\<lambda>n. (TN_SUCCESS, REvents (unat n) (unat n) [])),
      tn_event_list_cleanup = (\<lambda>_. RZero), tn_event_list_free_pop = ref_ev_pop,
      tn_event_list_free_push = ref_ev_give, tn_event_list_ready_push = ref_ev_push,
      tn_event_list_ready_pop_all = ref_ev_pop_all,
      tn_cmd_list_setup = (\<lambda>n. (TN_SUCCESS, RCmds (unat n) (unat n) [])), tn_cmd_list_cleanup = (\<lambda>_. RZero),
      tn_cmd_list_free_pop = ref_cmd_pop, tn_cmd_list_free_push = ref_cmd_give,
      tn_cmd_list_ready_push = ref_cmd_push, tn_cmd_list_ready_pop_back = ref_cmd_next,
      tn_queue_spsc_setup = (\<lambda>_. (TN_SUCCESS, RQueue [])), tn_queue_spsc_cleanup = (\<lambda>_. RZero),
      tn_queue_spsc_push = ref_queue_push, tn_queue_spsc_peek = ref_queue_peek,
      tn_endpoint_af_get = ep_af, tn_endpoint_convert_from = (\<lambda>bs. (TN_SUCCESS, ref_endpoint\<lparr>ep_addr := bs\<rparr>)),
      tn_endpoint_string_get = (\<lambda>_. TN_SUCCESS), AF_INET = 2, AF_INET6 = 10,
      released_ptr = (\<lambda>_. None), TN_MEM_ACQUIRE = (\<lambda>lg b n. Some (ref_fresh lg)),
      uv_ret = (\<lambda>lg c. TN_SUCCESS), uv_is_closing = (\<lambda>lg h. is_closing_status (status lg h)),
      uv_peer = (\<lambda>lg h. [1]), uv_sock = (\<lambda>lg h. [2]),
      uv_handle_list = ref_handles\<rparr>"

definition ref_view :: "robj view" where
  "ref_view =
     \<lparr>list_elems = (\<lambda>l. case l of RList n xs \<Rightarrow> xs | _ \<Rightarrow> []),
      list_cap = (\<lambda>l. case l of RList n xs \<Rightarrow> n | _ \<Rightarrow> 0),
      buf_bytes = ref_bytes, buf_room = ref_room,
      pool_cap = (\<lambda>p. case p of RPool c n sz \<Rightarrow> c | _ \<Rightarrow> 0),
      pool_size = (\<lambda>p. case p of RPool c n sz \<Rightarrow> n | _ \<Rightarrow> 0),
      ev_cap = (\<lambda>l. case l of REvents c n es \<Rightarrow> c | _ \<Rightarrow> 0),
      ev_free = (\<lambda>l. case l of REvents c n es \<Rightarrow> n | _ \<Rightarrow> 0),
      ev_ready = (\<lambda>l. case l of REvents c n es \<Rightarrow> map unflat es | _ \<Rightarrow> []),
      cmd_cap = (\<lambda>l. case l of RCmds c n cs \<Rightarrow> c | _ \<Rightarrow> 0),
      cmd_free = (\<lambda>l. case l of RCmds c n cs \<Rightarrow> n | _ \<Rightarrow> 0),
      cmd_ready = (\<lambda>l. case l of RCmds c n cs \<Rightarrow> cs | _ \<Rightarrow> [])\<rparr>"

lemma ref_ext_simps [simp]:
  "TN_CMD_INVALID ref_ext = UINT64_MAX"
  "TN_BUFLEN_CAST ref_ext = (\<lambda>n. n)"
  "sizeof ref_ext = (\<lambda>_. 128)"
  "sizeof_tn_event_base ref_ext = 64"
  "sizeof_tn_cmd_base ref_ext = 64"
  "tn_zero ref_ext = RZero"
  "tn_list_ptr_setup ref_ext = (\<lambda>n. (TN_SUCCESS, RList (unat n) []))"
  "tn_list_ptr_cleanup ref_ext = (\<lambda>_. RZero)"
  "tn_list_ptr_clear ref_ext = ref_clear"
  "tn_list_ptr_push_back ref_ext = ref_push_back"
  "tn_list_ptr_pop_back ref_ext = ref_pop_back"
  "tn_buffer_read_length ref_ext = (\<lambda>b. of_nat (length (ref_bytes b)))"
  "tn_buffer_remaining ref_ext = (\<lambda>b. of_nat (ref_room b))"
  "tn_buffer_read_ptr ref_ext = ref_bytes"
  "tn_buffer_add_length ref_ext = ref_add_length"
  "tn_buffer_read_be32 ref_ext = ref_read_be32"
  "tn_buffer_read_skip ref_ext = ref_read_skip"
  "tn_buffer_read_reset ref_ext = (\<lambda>b. b)"
  "tn_buffer_write_buffer ref_ext = ref_write_buffer"
  "kernel_store ref_ext = ref_store"
  "tn_buffer_pool_setup ref_ext = (\<lambda>n sz. (TN_SUCCESS, RPool (unat n) (unat n) sz))"
  "tn_buffer_pool_cleanup ref_ext = (\<lambda>_. RZero)"
  "tn_buffer_pool_pop_back ref_ext = ref_pool_pop"
  "tn_buffer_pool_push ref_ext = ref_pool_push"
  "tn_event_list_setup ref_ext = (\<lambda>n. (TN_SUCCESS, REvents (unat n) (unat n) []))"
  "tn_event_list_cleanup ref_ext = (\<lambda>_. RZero)"
  "tn_event_list_free_pop ref_ext = ref_ev_pop"
  "tn_event_list_free_push ref_ext = ref_ev_give"
  "tn_event_list_ready_push ref_ext = ref_ev_push"
  "tn_event_list_ready_pop_all ref_ext = ref_ev_pop_all"
  "tn_cmd_list_setup ref_ext = (\<lambda>n. (TN_SUCCESS, RCmds (unat n) (unat n) []))"
  "tn_cmd_list_cleanup ref_ext = (\<lambda>_. RZero)"
  "tn_cmd_list_free_pop ref_ext = ref_cmd_pop"
  "tn_cmd_list_free_push ref_ext = ref_cmd_give"
  "tn_cmd_list_ready_push ref_ext = ref_cmd_push"
  "tn_cmd_list_ready_pop_back ref_ext = ref_cmd_next"
  "tn_queue_spsc_setup ref_ext = (\<lambda>_. (TN_SUCCESS, RQueue []))"
  "tn_queue_spsc_cleanup ref_ext = (\<lambda>_. RZero)"
  "tn_queue_spsc_push ref_ext = ref_queue_push"
  "tn_queue_spsc_peek ref_ext = ref_queue_peek"
  "tn_endpoint_af_get ref_ext = ep_af"
  "tn_endpoint_convert_from ref_ext = (\<lambda>bs. (TN_SUCCESS, ref_endpoint\<lparr>ep_addr := bs\<rparr>))"
  "tn_endpoint_string_get ref_ext = (\<lambda>_. TN_SUCCESS)"
  "AF_INET ref_ext = 2"
  "AF_INET6 ref_ext = 10"
  "released_ptr ref_ext = (\<lambda>_. None)"
  "TN_MEM_ACQUIRE ref_ext = (\<lambda>lg b n. Some (ref_fresh lg))"
  "uv_ret ref_ext = (\<lambda>lg c. TN_SUCCESS)"
  "uv_is_closing ref_ext = (\<lambda>lg h. is_closing_status (status lg h))"
  "uv_peer ref_ext = (\<lambda>lg h. [1])"
  "uv_sock ref_ext = (\<lambda>lg h. [2])"
  "uv_handle_list ref_ext = ref_handles"
  by (simp_all add: ref_ext_def)

lemma ref_view_simps [simp]:
  "list_elems ref_view = (\<lambda>l. case l of RList n xs \<Rightarrow> xs | _ \<Rightarrow> [])"
  "list_cap ref_view = (\<lambda>l. case l of RList n xs \<Rightarrow> n | _ \<Rightarrow> 0)"
  "buf_bytes ref_view = ref_bytes"
  "buf_room ref_view = ref_room"
  "pool_cap ref_view = (\<lambda>p. case p of RPool c n sz \<Rightarrow> c | _ \<Rightarrow> 0)"
  "pool_size ref_view = (\<lambda>p. case p of RPool c n sz \<Rightarrow> n | _ \<Rightarrow> 0)"
  "ev_cap ref_view = (\<lambda>l. case l of REvents c n es \<Rightarrow> c | _ \<Rightarrow> 0)"
  "ev_free ref_view = (\<lambda>l. case l of REvents c n es \<Rightarrow> n | _ \<Rightarrow> 0)"
  "ev_ready ref_view = (\<lambda>l. case l of REvents c n es \<Rightarrow> map unflat es | _ \<Rightarrow> [])"
  "cmd_cap ref_view = (\<lambda>l. case l of RCmds c n cs \<Rightarrow> c | _ \<Rightarrow> 0)"
  "cmd_free ref_view = (\<lambda>l. case l of RCmds c n cs \<Rightarrow> n | _ \<Rightarrow> 0)"
  "cmd_ready ref_view = (\<lambda>l. case l of RCmds c n cs \<Rightarrow> cs | _ \<Rightarrow> [])"
  by (simp_all add: ref_view_def)

lemma ref_list_laws: "list_laws ref_ext ref_view"
  unfolding list_laws_def ref_ext_def ref_view_def ext.simps view.simps
  by (intro conjI allI impI; (elim Pair_inject)?; (case_tac l)?; auto split: if_splits)

lemma ref_pool_laws: "pool_laws ref_ext ref_view"
  unfolding pool_laws_def ref_ext_def ref_view_def ext.simps view.simps
proof (intro conjI allI impI, goal_cases)
  case (3 p out r out' p')
  then show ?case by (cases "(p, out)" rule: ref_pool_pop.cases) auto
next
  case (4 p out r out' p')
  then show ?case by (cases "(p, out)" rule: ref_pool_pop.cases) auto
qed ((case_tac p)?; auto split: if_splits)+

lemma ref_uv_laws: "uv_laws ref_ext"
  by (simp add: uv_laws_def ref_ext_def)

lemma ref_mem_laws: "mem_laws ref_ext"
  by (simp add: mem_laws_def ref_ext_def status_fresh)

lemma ref_bytes_drop: "ref_bytes (ref_drop k b) = drop k (ref_bytes b)"
  by (cases b) auto

lemma ref_add_store:
  "ref_add_length (ref_store b xs) n = (r, b') \<Longrightarrow> length xs = unat n \<Longrightarrow>
     (if unat n \<le> ref_room b
      then r = TN_SUCCESS \<and> ref_bytes b' = ref_bytes b @ xs \<and> ref_room b' = ref_room b - unat n
      else r \<noteq> TN_SUCCESS \<and> ref_bytes b' = ref_bytes b)"
  by (cases b) (auto split: if_splits simp: unat_eq_0 word_neq_0_conv unat_gt_0)

lemma ref_buffer_laws: "buffer_laws ref_ext ref_view"
  unfolding buffer_laws_def ref_ext_def ref_view_def ext.simps view.simps
proof (intro conjI allI impI, goal_cases)
  case (4 b xs n r b')
  then show ?case by (rule ref_add_store)
qed (auto simp: ref_read_be32_def ref_read_skip_def ref_bytes_drop split: if_splits)

lemma ref_event_laws: "event_laws ref_ext ref_view"
  unfolding event_laws_def ref_ext_def ref_view_def ext.simps view.simps
proof (intro conjI allI impI, goal_cases)
  case (4 ty l r out l')
  then show ?case by (cases "(ty, l)" rule: ref_ev_pop.cases) auto
next
  case (5 ty l r out l')
  then show ?case by (cases "(ty, l)" rule: ref_ev_pop.cases) auto
next
  case (6 ty l r out l')
  then show ?case by (cases "(ty, l)" rule: ref_ev_pop.cases) (auto simp: ref_event_def)
qed ((case_tac l)?; auto split: if_splits simp: take_map drop_map)+

lemma ref_cmd_laws: "cmd_laws ref_ext ref_view"
  unfolding cmd_laws_def ref_ext_def ref_view_def ext.simps view.simps
proof (intro conjI allI impI, goal_cases)
  case (4 ty l r out l')
  then show ?case by (cases "(ty, l)" rule: ref_cmd_pop.cases) auto
next
  case (5 ty l r out l')
  then show ?case by (cases "(ty, l)" rule: ref_cmd_pop.cases) auto
next
  case (6 ty l r out l')
  then show ?case by (cases "(ty, l)" rule: ref_cmd_pop.cases) (auto simp: ref_cmd_def)
next
  case (17 l r out l')
  then show ?case by (cases l rule: ref_cmd_next.cases) auto
next
  case (16 l r out l')
  then show ?case by (cases l rule: ref_cmd_next.cases) auto
next
  case (15 l r out l')
  then show ?case by (cases l rule: ref_cmd_next.cases) auto
qed ((case_tac l)?; auto split: if_splits)+

lemmas ref_laws = ref_list_laws ref_buffer_laws ref_pool_laws ref_event_laws ref_cmd_laws
  ref_uv_laws ref_mem_laws

end
