(* ===== verification/Svl_Config.thy ===== *)
theory Svl_Config
  imports Tn_Reference
begin

text \<open>
  The configuration of a service: \<^verbatim>\<open>svl_service_cfg_t\<close> of \<^verbatim>\<open>include/svlynx/service.h\<close> and the two functions
  of \<^verbatim>\<open>src/svlynx/service.c\<close> that fill it.  All fields are \<^verbatim>\<open>size_t\<close>, so every product and sum is
  computed modulo \<open>2 ^ 64\<close>; the theorems say when the result is the intended number.
\<close>

section \<open>Data and operations\<close>

record svl_service_cfg =
  link_concurrency :: u64
  link_buffer_mult :: u64
  link_buffer_outbound_count :: u64
  link_buffer_outbound_size :: u64
  link_buffer_inbound_count :: u64
  link_buffer_inbound_size :: u64
  event_mult :: u64
  event_count :: u64
  cmd_mult :: u64
  cmd_count :: u64
  write_req_mult :: u64
  write_req_count :: u64
  total_heap_size :: u64

definition svl_service_config_default_instance :: svl_service_cfg where
  "svl_service_config_default_instance =
     \<lparr>link_concurrency = 100, link_buffer_mult = 4,
      link_buffer_outbound_count = 0, link_buffer_outbound_size = 65536,
      link_buffer_inbound_count = 0, link_buffer_inbound_size = 65536,
      event_mult = 4, event_count = 0, cmd_mult = 4, cmd_count = 0,
      write_req_mult = 4, write_req_count = 0, total_heap_size = 0\<rparr>"

definition svl_service_config_setup :: "'t ext \<Rightarrow> svl_service_cfg \<Rightarrow> code \<times> svl_service_cfg" where
  "svl_service_config_setup E cfg =
     (if link_concurrency cfg = 0 then (TN_ERROR, cfg)
      else if link_buffer_mult cfg = 0 then (TN_ERROR, cfg)
      else if link_buffer_outbound_size cfg = 0 then (TN_ERROR, cfg)
      else if link_buffer_inbound_size cfg = 0 then (TN_ERROR, cfg)
      else if event_mult cfg = 0 then (TN_ERROR, cfg)
      else if cmd_mult cfg = 0 then (TN_ERROR, cfg)
      else if write_req_mult cfg = 0 then (TN_ERROR, cfg)
      else
        let cfg = cfg\<lparr>link_buffer_inbound_count := link_buffer_mult cfg * link_concurrency cfg\<rparr>;
            cfg = cfg\<lparr>link_buffer_outbound_count := link_buffer_mult cfg * link_concurrency cfg\<rparr>;
            cfg = cfg\<lparr>event_count := event_mult cfg * link_concurrency cfg\<rparr>;
            cfg = cfg\<lparr>cmd_count := cmd_mult cfg * link_concurrency cfg\<rparr>;
            cfg = cfg\<lparr>write_req_count := write_req_mult cfg * link_concurrency cfg\<rparr>;
            heap = 0;
            heap = heap + link_buffer_outbound_size cfg * link_buffer_outbound_count cfg;
            heap = heap + link_buffer_inbound_size cfg * link_buffer_inbound_count cfg;
            heap = heap + event_count cfg * sizeof_tn_event_base E;
            heap = heap + cmd_count cfg * sizeof_tn_cmd_base E;
            heap = heap + write_req_count cfg * sizeof E Blk_write_req;
            heap = heap + drop_bit 1 heap
        in (TN_SUCCESS, cfg\<lparr>total_heap_size := heap\<rparr>))"

definition svl_service_config_setup_default :: "'t ext \<Rightarrow> svl_service_cfg \<Rightarrow> u64 \<Rightarrow> code \<times> svl_service_cfg" where
  "svl_service_config_setup_default E cfg max_ccu =
     (if max_ccu = 0 then (TN_ERROR, cfg)
      else svl_service_config_setup E (svl_service_config_default_instance\<lparr>link_concurrency := max_ccu\<rparr>))"

section \<open>The heap size over the natural numbers\<close>

definition cfg_valid :: "svl_service_cfg \<Rightarrow> bool" where
  "cfg_valid cfg \<longleftrightarrow>
     link_concurrency cfg \<noteq> 0 \<and> link_buffer_mult cfg \<noteq> 0 \<and> link_buffer_outbound_size cfg \<noteq> 0 \<and>
     link_buffer_inbound_size cfg \<noteq> 0 \<and> event_mult cfg \<noteq> 0 \<and> cmd_mult cfg \<noteq> 0 \<and> write_req_mult cfg \<noteq> 0"

text \<open>What the sizes add up to, per link, and with the half as much again the code adds on top.\<close>

definition heap_per_link :: "'t ext \<Rightarrow> svl_service_cfg \<Rightarrow> nat" where
  "heap_per_link E cfg =
     unat (link_buffer_mult cfg) * (unat (link_buffer_outbound_size cfg) + unat (link_buffer_inbound_size cfg)) +
     unat (event_mult cfg) * unat (sizeof_tn_event_base E) +
     unat (cmd_mult cfg) * unat (sizeof_tn_cmd_base E) +
     unat (write_req_mult cfg) * unat (sizeof E Blk_write_req)"

definition heap_base :: "'t ext \<Rightarrow> svl_service_cfg \<Rightarrow> nat" where
  "heap_base E cfg = unat (link_concurrency cfg) * heap_per_link E cfg"

lemma config_setup_invalid: "\<not> cfg_valid cfg \<Longrightarrow> svl_service_config_setup E cfg = (TN_ERROR, cfg)"
  by (auto simp: cfg_valid_def svl_service_config_setup_def)

definition heap_words :: "'t ext \<Rightarrow> svl_service_cfg \<Rightarrow> u64" where
  "heap_words E cfg =
     (let n = link_concurrency cfg in
      link_buffer_outbound_size cfg * (link_buffer_mult cfg * n) +
      link_buffer_inbound_size cfg * (link_buffer_mult cfg * n) +
      event_mult cfg * n * sizeof_tn_event_base E +
      cmd_mult cfg * n * sizeof_tn_cmd_base E +
      write_req_mult cfg * n * sizeof E Blk_write_req)"

lemma config_setup_valid:
  "cfg_valid cfg \<Longrightarrow> svl_service_config_setup E cfg =
     (TN_SUCCESS, cfg\<lparr>link_buffer_inbound_count := link_buffer_mult cfg * link_concurrency cfg,
        link_buffer_outbound_count := link_buffer_mult cfg * link_concurrency cfg,
        event_count := event_mult cfg * link_concurrency cfg,
        cmd_count := cmd_mult cfg * link_concurrency cfg,
        write_req_count := write_req_mult cfg * link_concurrency cfg,
        total_heap_size := heap_words E cfg + drop_bit 1 (heap_words E cfg)\<rparr>)"
  by (simp add: cfg_valid_def svl_service_config_setup_def heap_words_def Let_def)

text \<open>A sum of words is the sum of the numbers modulo \<open>2 ^ 64\<close>; below that bound nothing wraps.\<close>

lemma heap_words_mod: "heap_words E cfg = of_nat (heap_base E cfg)"
  by (simp add: heap_words_def heap_base_def heap_per_link_def Let_def algebra_simps)

lemma heap_words_exact: "heap_base E cfg < 2 ^ 64 \<Longrightarrow> unat (heap_words E cfg) = heap_base E cfg"
  by (simp add: heap_words_mod unat_of_nat)

lemma unat_half: "unat (drop_bit (Suc 0) (w :: u64)) = unat w div 2"
  by (simp add: drop_bit_eq_div unat_div_distrib)

section \<open>Properties\<close>

text \<open>
  The configuration is checked before it is used: \<^verbatim>\<open>svl_service_config_setup\<close> fails, and changes nothing,
  exactly if one of the seven inputs is zero.
\<close>

theorem config_setup_error_iff:
  "fst (svl_service_config_setup E cfg) \<noteq> TN_SUCCESS \<longleftrightarrow>
     \<not> cfg_valid cfg \<and> svl_service_config_setup E cfg = (TN_ERROR, cfg)"
  by (cases "cfg_valid cfg") (auto simp: config_setup_invalid config_setup_valid)

text \<open>
  C40. The computed sizes are the intended ones: if one and a half times the sum of all buffers, events,
  commands and write requests fits into \<^verbatim>\<open>size_t\<close>, then \<open>total_heap_size\<close> is exactly that number,
  and the numbers of inbound and outbound buffers are the multiplier times the number of links,
  without wrap-around.
\<close>

theorem config_setup_heap_size:
  assumes "cfg_valid cfg" and "heap_base E cfg + heap_base E cfg div 2 < 2 ^ 64"
  shows "unat (total_heap_size (snd (svl_service_config_setup E cfg))) = heap_base E cfg + heap_base E cfg div 2 \<and>
     unat (link_buffer_inbound_count (snd (svl_service_config_setup E cfg))) =
       unat (link_buffer_mult cfg) * unat (link_concurrency cfg) \<and>
     unat (link_buffer_outbound_count (snd (svl_service_config_setup E cfg))) =
       unat (link_buffer_mult cfg) * unat (link_concurrency cfg)"
proof -
  have w: "unat (heap_words E cfg) = heap_base E cfg" using assms(2) by (intro heap_words_exact) simp
  have total: "unat (heap_words E cfg + drop_bit 1 (heap_words E cfg)) = heap_base E cfg + heap_base E cfg div 2"
    using assms(2) w by (subst unat_add_no_overflow) (simp_all add: unat_half)
  have "1 \<le> unat (link_buffer_outbound_size cfg) + unat (link_buffer_inbound_size cfg)"
    using assms(1) by (simp add: cfg_valid_def unat_eq_0 Suc_le_eq unat_gt_0)
  then have "unat (link_buffer_mult cfg) * 1 \<le> heap_per_link E cfg"
    unfolding heap_per_link_def by (meson le_trans mult_le_mono2 le_add1)
  then have "unat (link_concurrency cfg) * unat (link_buffer_mult cfg) \<le> heap_base E cfg"
    unfolding heap_base_def by simp
  then have "unat (link_buffer_mult cfg) * unat (link_concurrency cfg) < 2 ^ 64"
    using assms(2) by (simp add: mult.commute)
  from unat_mult_no_overflow [OF this] total show ?thesis
    by (simp add: config_setup_valid [OF assms(1)])
qed

theorem config_setup_heap_size_witness:
  "unat (total_heap_size (snd (svl_service_config_setup ref_ext
     (svl_service_config_default_instance\<lparr>link_concurrency := 100\<rparr>)))) = 78796800"
proof -
  let ?cfg = "svl_service_config_default_instance\<lparr>link_concurrency := 100\<rparr>"
  have v: "cfg_valid ?cfg" by (simp add: cfg_valid_def svl_service_config_default_instance_def)
  have h: "heap_base ref_ext ?cfg = 52531200"
    by (simp add: heap_base_def heap_per_link_def svl_service_config_default_instance_def)
  from config_setup_heap_size [OF v, of ref_ext] h show ?thesis by simp
qed

end
