(* ===== verification/Slot_Alloc.thy ===== *)
theory Slot_Alloc
  imports Svl_Prelude
begin

text \<open>
  The contract of a pool of slots.  Two parts of the program are such pools: the links of a link
  list (taken by \<^verbatim>\<open>svl_link_list_open\<close>, given back by \<^verbatim>\<open>svl_link_list_close\<close>) and the write requests of
  the IO thread (popped from and pushed to \<^verbatim>\<open>priv->send_req_list\<close>).  The locale \<open>slot_alloc\<close> fixes
  the two operations and what they promise; its lemmas are about any sequence of takes and
  returns, and both components interpret it.
\<close>

datatype slot_op = Take | Return nat

text \<open>
  A client of the pool: \<open>held\<close> lists the slots it has taken and not given back.  \<open>Return k\<close> gives
  back the slot at position \<open>k\<close> of that list.  A take that fails leaves everything as it is.
\<close>

fun slot_run ::
  "('s \<Rightarrow> (nat \<times> 's) option) \<Rightarrow> ('s \<Rightarrow> nat \<Rightarrow> 's option) \<Rightarrow> slot_op list \<Rightarrow> 's \<Rightarrow> nat list \<Rightarrow> 's \<times> nat list" where
  "slot_run take_slot give [] s held = (s, held)"
| "slot_run take_slot give (Take # ops) s held =
     (case take_slot s of
        None \<Rightarrow> slot_run take_slot give ops s held
      | Some (i, s') \<Rightarrow> slot_run take_slot give ops s' (i # held))"
| "slot_run take_slot give (Return k # ops) s held =
     (if k < length held
      then (case give s (held ! k) of
              None \<Rightarrow> slot_run take_slot give ops s held
            | Some s' \<Rightarrow> slot_run take_slot give ops s' (remove1 (held ! k) held))
      else slot_run take_slot give ops s held)"

text \<open>Every slot below \<open>slots\<close> is free or held, and none is both or twice.\<close>

definition slots_ok :: "nat list \<Rightarrow> nat list \<Rightarrow> nat \<Rightarrow> bool" where
  "slots_ok free held slots \<longleftrightarrow>
     distinct free \<and> distinct held \<and> set free \<inter> set held = {} \<and> set free \<union> set held = {..<slots}"

lemma slots_ok_take:
  "slots_ok (xs @ [i]) held n \<Longrightarrow> slots_ok xs (i # held) n"
  by (auto simp: slots_ok_def)

lemma slots_ok_return:
  "slots_ok free held n \<Longrightarrow> i \<in> set held \<Longrightarrow> slots_ok (free @ [i]) (remove1 i held) n"
  by (auto simp: slots_ok_def)

lemma slots_ok_length: "slots_ok free held n \<Longrightarrow> length free + length held = n"
proof -
  assume ok: "slots_ok free held n"
  then have "set (free @ held) = {..<n}" and "distinct (free @ held)"
    by (auto simp: slots_ok_def)
  then have "length (free @ held) = card {..<n}" using distinct_card by metis
  then show ?thesis by simp
qed

locale slot_alloc =
  fixes invar :: "'s \<Rightarrow> bool"
    and free :: "'s \<Rightarrow> nat list"
    and slots :: "'s \<Rightarrow> nat"
    and take_slot :: "'s \<Rightarrow> (nat \<times> 's) option"
    and give :: "'s \<Rightarrow> nat \<Rightarrow> 's option"
  assumes free_bound: "invar s \<Longrightarrow> set (free s) \<subseteq> {..<slots s}"
    and free_distinct: "invar s \<Longrightarrow> distinct (free s)"
    and take_empty: "invar s \<Longrightarrow> free s = [] \<Longrightarrow> take_slot s = None"
    and take_last: "invar s \<Longrightarrow> free s \<noteq> [] \<Longrightarrow>
      \<exists>s'. take_slot s = Some (last (free s), s') \<and> free s' = butlast (free s) \<and> slots s' = slots s \<and> invar s'"
    and give_back: "invar s \<Longrightarrow> i < slots s \<Longrightarrow> i \<notin> set (free s) \<Longrightarrow>
      \<exists>s'. give s i = Some s' \<and> free s' = free s @ [i] \<and> slots s' = slots s \<and> invar s'"
begin

lemma take_None_iff: "invar s \<Longrightarrow> take_slot s = None \<longleftrightarrow> free s = []"
  using take_empty take_last by fastforce

lemma take_Some:
  assumes "invar s" and "take_slot s = Some (i, s')"
  shows "free s = free s' @ [i]" and "slots s' = slots s" and "invar s'"
proof -
  from assms have ne: "free s \<noteq> []" using take_empty by force
  from take_last [OF assms(1) ne] assms(2) show "free s = free s' @ [i]" "slots s' = slots s" "invar s'"
    using ne by auto
qed

lemma take_twice_distinct:
  assumes "invar s" and "take_slot s = Some (i, s1)" and "take_slot s1 = Some (j, s2)"
  shows "i \<noteq> j"
proof -
  from take_Some [OF assms(1,2)] have f: "free s = free s1 @ [i]" and "invar s1" by auto
  from take_Some(1) [OF \<open>invar s1\<close> assms(3)] have "free s1 = free s2 @ [j]" .
  with f free_distinct [OF assms(1)] show ?thesis by auto
qed

lemma take_give:
  assumes "invar s" and "take_slot s = Some (i, s1)"
  shows "\<exists>s2. give s1 i = Some s2 \<and> free s2 = free s \<and> invar s2"
proof -
  note t = take_Some [OF assms]
  from free_distinct [OF assms(1)] t(1) have "i \<notin> set (free s1)" by simp
  moreover from free_bound [OF assms(1)] t(1,2) have "i < slots s1" by auto
  ultimately show ?thesis using give_back [OF t(3)] t(1) by auto
qed

lemma run_slots_ok:
  assumes "invar s" and "slots_ok (free s) held (slots s)"
  shows "case slot_run take_slot give ops s held of (s', held') \<Rightarrow>
           invar s' \<and> slots s' = slots s \<and> slots_ok (free s') held' (slots s)"
  using assms
proof (induction ops arbitrary: s held)
  case Nil
  then show ?case by simp
next
  case (Cons op ops)
  show ?case
  proof (cases op)
    case Take
    show ?thesis
    proof (cases "take_slot s")
      case None
      with Cons Take show ?thesis by simp
    next
      case (Some p)
      then obtain i s' where t: "take_slot s = Some (i, s')" by (cases p) auto
      note u = take_Some [OF Cons.prems(1) t]
      from Cons.prems(2) u have "slots_ok (free s') (i # held) (slots s')"
        by (simp add: slots_ok_take)
      from Cons.IH [OF u(3) this] t u(2) Take show ?thesis by simp
    qed
  next
    case (Return k)
    show ?thesis
    proof (cases "k < length held")
      case True
      then have h: "held ! k \<in> set held" by simp
      with Cons.prems(2) have "held ! k < slots s" "held ! k \<notin> set (free s)"
        unfolding slots_ok_def by auto
      from give_back [OF Cons.prems(1) this] obtain s' where s': "give s (held ! k) = Some s'"
        and f: "free s' = free s @ [held ! k]" "slots s' = slots s" "invar s'" by blast
      from slots_ok_return [OF Cons.prems(2) h] f
      have "slots_ok (free s') (remove1 (held ! k) held) (slots s')" by simp
      from Cons.IH [OF f(3) this] True s' f(2) Return show ?thesis by simp
    next
      case False
      with Cons Return show ?thesis by simp
    qed
  qed
qed

end

end
