(* ===== verification/Svl_Link.thy ===== *)
theory Svl_Link
  imports Tn_Reference Slot_Alloc
begin

text \<open>
  The link component: \<^verbatim>\<open>include/svlynx/link.h\<close> and \<^verbatim>\<open>src/svlynx/link.c\<close>.

  A link is one TCP connection.  All links live in the array \<open>client_map\<close> of a \<open>svl_link_list\<close>; a
  pointer to a link is its index, and dereferencing an index outside the array is undefined
  behaviour (\<open>None\<close>).  The links that no connection uses are in \<open>client_list_free\<close>.

  The first part translates the C code.  The second part states the invariant of a link list
  (\<open>link_list_inv\<close>) and what every operation does to it, as the contract \<open>slot_alloc\<close>: a pool of
  slots in which a slot is free or handed out, never both.
\<close>

section \<open>Data\<close>

datatype svl_link_state_t =
    SVL_LINK_NEW
  | SVL_LINK_OPEN
  | SVL_LINK_CLOSING
  | SVL_LINK_CLOSED
  | SVL_LINK_ERROR
  | SVL_LINK_INVALID

datatype svl_link_read_state_t =
    SVL_LINK_READ_NONE
  | SVL_LINK_READ_HEADER
  | SVL_LINK_READ_PAYLOAD
  | SVL_LINK_READ_ERROR
  | SVL_LINK_READ_INVALID

text \<open>
  \<open>link_service\<close> tells whether the pointer \<^verbatim>\<open>link->service\<close> is set: there is one service per list,
  so the pointer is null or refers to that service.
\<close>

record 't svl_link =
  link_priv :: "handle option"
  link_id :: u64
  link_service :: bool
  read_buffer :: "'t option"
  endpoint_local :: tn_endpoint_t
  endpoint_remote :: tn_endpoint_t
  error_code :: code
  link_state :: svl_link_state_t
  read_state :: svl_link_read_state_t
  next_payload_len :: u64
  last_msg_id :: u64
  cmd_open_id :: u64
  cmd_close_id :: u64

text \<open>
  \<open>client_map_ptr\<close> is the pointer \<^verbatim>\<open>list->client_map\<close>, \<open>client_map\<close> the array it points at.
\<close>

record 't svl_link_list =
  list_priv :: "addr option"
  client_map_ptr :: "addr option"
  client_map :: "'t svl_link list"
  clients_max :: u64
  client_list_free :: 't
  client_list_open :: 't

record tn_buffer_span =
  span_ptr :: "u8 list option"
  span_len :: u64

text \<open>The bytes \<^verbatim>\<open>memset(.., 0, ..)\<close> leaves: null pointers, the first enumerators, zero counters.\<close>

definition zero_endpoint :: tn_endpoint_t where
  "zero_endpoint = \<lparr>ep_af = 0, ep_port = 0, ep_addr = replicate 24 0\<rparr>"

definition zero_link :: "'t svl_link" where
  "zero_link =
     \<lparr>link_priv = None, link_id = 0, link_service = False, read_buffer = None,
      endpoint_local = zero_endpoint, endpoint_remote = zero_endpoint, error_code = TN_SUCCESS,
      link_state = SVL_LINK_NEW, read_state = SVL_LINK_READ_NONE, next_payload_len = 0,
      last_msg_id = 0, cmd_open_id = 0, cmd_close_id = 0\<rparr>"

definition zero_link_list :: "'t ext \<Rightarrow> 't svl_link_list" where
  "zero_link_list E =
     \<lparr>list_priv = None, client_map_ptr = None, client_map = [], clients_max = 0, client_list_free = tn_zero E, client_list_open = tn_zero E\<rparr>"

section \<open>Operations on one link\<close>

definition svl_link_state :: "'t svl_link \<Rightarrow> svl_link_state_t" where
  "svl_link_state link = link_state link"

definition svl_link_read_state :: "'t svl_link \<Rightarrow> svl_link_read_state_t" where
  "svl_link_read_state link = read_state link"

definition svl_link_read_header ::
  "'t ext \<Rightarrow> 't svl_link \<Rightarrow> u32 \<Rightarrow> (code \<times> u32 \<times> 't svl_link) option" where
  "svl_link_read_header E link out_len =
     (case read_buffer link of
        None \<Rightarrow> None
      | Some b \<Rightarrow>
          (case tn_buffer_read_be32 E b out_len of (r, v, b') \<Rightarrow>
             let link = link\<lparr>read_buffer := Some b'\<rparr> in
             if r \<noteq> TN_SUCCESS then Some (TN_ERROR, 0, link)
             else Some (TN_SUCCESS, v,
                    link\<lparr>next_payload_len := ucast v, read_state := SVL_LINK_READ_PAYLOAD\<rparr>)))"

definition svl_link_read_payload ::
  "'t ext \<Rightarrow> 't svl_link \<Rightarrow> (code \<times> tn_buffer_span \<times> 't svl_link) option" where
  "svl_link_read_payload E link =
     (case read_buffer link of
        None \<Rightarrow> None
      | Some b \<Rightarrow>
          let span = \<lparr>span_ptr = Some (tn_buffer_read_ptr E b), span_len = next_payload_len link\<rparr> in
          (case tn_buffer_read_skip E b (span_len span) of (r, b') \<Rightarrow>
             let link = link\<lparr>read_buffer := Some b'\<rparr> in
             if r \<noteq> TN_SUCCESS then Some (TN_ERROR, \<lparr>span_ptr = None, span_len = 0\<rparr>, link)
             else Some (TN_SUCCESS, span, link\<lparr>read_state := SVL_LINK_READ_HEADER\<rparr>)))"

text \<open>The pool is \<^verbatim>\<open>link->service->pool_read\<close>; the call dereferences \<^verbatim>\<open>link->service\<close>.\<close>

definition svl_link_buffer_swap ::
  "'t ext \<Rightarrow> 't \<Rightarrow> 't svl_link \<Rightarrow> (code \<times> 't \<times> 't svl_link) option" where
  "svl_link_buffer_swap E pool_read link =
     (case read_buffer link of
        None \<Rightarrow> None
      | Some prev_buffer \<Rightarrow>
          if \<not> link_service link then None
          else (case tn_buffer_pool_pop_back E pool_read (read_buffer link) of (r, out, pool) \<Rightarrow>
             let link = link\<lparr>read_buffer := out\<rparr> in
             if r \<noteq> TN_SUCCESS then Some (TN_ERROR, pool, link)
             else if tn_buffer_read_length E prev_buffer \<noteq> 0 then
               (case read_buffer link of
                  None \<Rightarrow> None
                | Some b \<Rightarrow>
                    (case tn_buffer_write_buffer E b prev_buffer 0 of (r, b') \<Rightarrow>
                       let link = link\<lparr>read_buffer := Some b'\<rparr> in
                       if r \<noteq> TN_SUCCESS then Some (TN_ERROR, pool, link)
                       else Some (TN_SUCCESS, pool, link)))
             else Some (TN_SUCCESS, pool, link)))"

section \<open>Operations on the link list\<close>

definition set_link :: "nat \<Rightarrow> 't svl_link \<Rightarrow> 't svl_link_list \<Rightarrow> 't svl_link_list" where
  "set_link i link list = list\<lparr>client_map := (client_map list)[i := link]\<rparr>"

text \<open>
  The loop \<^verbatim>\<open>for (i = 0; i < clients_max; i++)\<close> of setup and reset: \<open>k\<close> iterations are left and the
  next one is for index \<open>i\<close>.  Writing to \<^verbatim>\<open>client_map[i]\<close> beyond the allocated array is undefined.
\<close>

fun link_list_fill ::
  "'t ext \<Rightarrow> nat \<Rightarrow> nat \<Rightarrow> 't svl_link_list \<Rightarrow> (code \<times> 't svl_link_list) option" where
  "link_list_fill E 0 i list = Some (TN_SUCCESS, list)"
| "link_list_fill E (Suc k) i list =
     (if length (client_map list) \<le> i then None
      else
        let link = (client_map list ! i)\<lparr>link_id := of_nat i\<rparr>; list = set_link i link list in
        (case tn_list_ptr_push_back E (client_list_free list) i of (r, l) \<Rightarrow>
           let list = list\<lparr>client_list_free := l\<rparr> in
           if r \<noteq> TN_SUCCESS then Some (r, list)
           else link_list_fill E k (Suc i) list))"

definition link_list_release :: "'t ext \<Rightarrow> 't svl_link_list \<Rightarrow> uv_log \<Rightarrow> 't svl_link_list \<times> uv_log" where
  "link_list_release E list lg =
     (list\<lparr>client_list_free := tn_list_ptr_cleanup E (client_list_free list),
           client_map_ptr := released_ptr E (client_map_ptr list), client_map := []\<rparr>,
      mem_release (client_map_ptr list) lg)"

definition svl_link_list_setup ::
  "'t ext \<Rightarrow> u64 \<Rightarrow> uv_log \<Rightarrow> (code \<times> 't svl_link_list \<times> uv_log) option" where
  "svl_link_list_setup E n lg =
     (let mem = TN_MEM_ACQUIRE E lg Blk_link (array_bytes E Blk_link n);
          lg = (Mem_acquire Blk_link (array_bytes E Blk_link n) mem, TN_SUCCESS) # lg;
          cleanup = (\<lambda>list. Some (TN_ERROR, link_list_release E list lg));
          list = (zero_link_list E)\<lparr>client_map_ptr := mem\<rparr>
      in if mem = None then cleanup list
         else
           let list = list\<lparr>client_map := replicate (array_len E Blk_link n) zero_link\<rparr> in
           (case tn_list_ptr_setup E n of (r, l) \<Rightarrow>
              let list = list\<lparr>client_list_free := l\<rparr> in
              if r \<noteq> TN_SUCCESS then cleanup list
              else
                (case link_list_fill E (unat n) 0 list of
                   None \<Rightarrow> None
                 | Some (r, list) \<Rightarrow>
                     if r \<noteq> TN_SUCCESS then cleanup list
                     else Some (TN_SUCCESS, list\<lparr>clients_max := n\<rparr>, lg))))"

definition svl_link_list_cleanup ::
  "'t ext \<Rightarrow> 't svl_link_list \<Rightarrow> uv_log \<Rightarrow> code \<times> 't svl_link_list \<times> uv_log" where
  "svl_link_list_cleanup E list lg = (TN_ERROR, link_list_release E list lg)"

definition svl_link_list_open ::
  "'t ext \<Rightarrow> 't svl_link_list \<Rightarrow> nat option \<Rightarrow> (code \<times> nat option \<times> 't svl_link_list) option" where
  "svl_link_list_open E list out_link =
     (case tn_list_ptr_pop_back E (client_list_free list) out_link of (r, out_link, l) \<Rightarrow>
        let list = list\<lparr>client_list_free := l\<rparr> in
        if r \<noteq> TN_SUCCESS then Some (TN_ERROR, out_link, list)
        else
          (case out_link of
             None \<Rightarrow> None
           | Some i \<Rightarrow>
               if length (client_map list) \<le> i then None
               else Some (TN_SUCCESS, Some i,
                 set_link i ((client_map list ! i)
                   \<lparr>cmd_open_id := TN_CMD_INVALID E, cmd_close_id := TN_CMD_INVALID E\<rparr>) list)))"

definition svl_link_list_close :: "'t ext \<Rightarrow> 't svl_link_list \<Rightarrow> nat \<Rightarrow> code \<times> 't svl_link_list" where
  "svl_link_list_close E list link =
     (case tn_list_ptr_push_back E (client_list_free list) link of (r, l) \<Rightarrow>
        let list = list\<lparr>client_list_free := l\<rparr> in
        if r \<noteq> TN_SUCCESS then (TN_ERROR, list) else (TN_SUCCESS, list))"

definition svl_link_list_reset :: "'t ext \<Rightarrow> 't svl_link_list \<Rightarrow> (code \<times> 't svl_link_list) option" where
  "svl_link_list_reset E list =
     (let n = array_len E Blk_link (clients_max list) in
      if length (client_map list) < n then None
      else
        let list = list\<lparr>client_map := replicate n zero_link @ drop n (client_map list),
                        client_list_free := tn_list_ptr_clear E (client_list_free list),
                        client_list_open := tn_list_ptr_clear E (client_list_open list)\<rparr>
        in (case link_list_fill E (unat (clients_max list)) 0 list of
              None \<Rightarrow> None
            | Some (r, list) \<Rightarrow>
                if r \<noteq> TN_SUCCESS then Some (TN_ERROR, list) else Some (TN_SUCCESS, list)))"

definition svl_link_list_get :: "'t svl_link_list \<Rightarrow> u64 \<Rightarrow> code \<times> nat option" where
  "svl_link_list_get list client_id =
     (if clients_max list \<le> client_id then (TN_ERROR, None) else (TN_SUCCESS, Some (unat client_id)))"

declare svl_link_state_def [svl_defs] svl_link_read_state_def [svl_defs]
  zero_endpoint_def [svl_defs] zero_link_def [svl_defs] zero_link_list_def [svl_defs]
  set_link_def [svl_defs]

section \<open>Laws of the pointer list, one by one\<close>

lemma list_setup_law:
  "list_laws E V \<Longrightarrow> tn_list_ptr_setup E n = (TN_SUCCESS, l) \<Longrightarrow>
     list_elems V l = [] \<and> list_cap V l = unat n"
  unfolding list_laws_def by blast

lemma list_push_law:
  assumes "list_laws E V" and "tn_list_ptr_push_back E l x = (r, l')"
  shows "list_cap V l' = list_cap V l"
    and "list_elems V l' = (if r = TN_SUCCESS then list_elems V l @ [x] else list_elems V l)"
    and "length (list_elems V l) < list_cap V l \<Longrightarrow> r = TN_SUCCESS"
  using assms unfolding list_laws_def by blast+

lemma list_pop_empty_law:
  assumes "list_laws E V" and "tn_list_ptr_pop_back E l out = (r, out', l')" and "list_elems V l = []"
  shows "r \<noteq> TN_SUCCESS" and "out' = out" and "list_elems V l' = []" and "list_cap V l' = list_cap V l"
  using assms unfolding list_laws_def by (metis (full_types))+

lemma list_pop_law:
  assumes "list_laws E V" and "tn_list_ptr_pop_back E l out = (r, out', l')" and "list_elems V l \<noteq> []"
  shows "r = TN_SUCCESS" and "out' = Some (last (list_elems V l))"
    and "list_elems V l' = butlast (list_elems V l)" and "list_cap V l' = list_cap V l"
  using assms unfolding list_laws_def by (metis (full_types))+

lemma list_clear_law:
  "list_laws E V \<Longrightarrow> list_elems V (tn_list_ptr_clear E l) = []"
  "list_laws E V \<Longrightarrow> list_cap V (tn_list_ptr_clear E l) = list_cap V l"
  unfolding list_laws_def by blast+

section \<open>The invariant of a link list\<close>

text \<open>
  The array has one element per client, the size computation of setup did not wrap, the free list
  has room for every client and holds distinct valid indices, and the link at index \<open>i\<close> carries
  the identifier \<open>i\<close>.
\<close>

definition link_list_inv :: "'t ext \<Rightarrow> 't view \<Rightarrow> 't svl_link_list \<Rightarrow> bool" where
  "link_list_inv E V list \<longleftrightarrow>
     list_laws E V \<and>
     array_len E Blk_link (clients_max list) = unat (clients_max list) \<and>
     length (client_map list) = unat (clients_max list) \<and>
     list_cap V (client_list_free list) = unat (clients_max list) \<and>
     distinct (list_elems V (client_list_free list)) \<and>
     set (list_elems V (client_list_free list)) \<subseteq> {..<unat (clients_max list)} \<and>
     (\<forall>i < unat (clients_max list). link_id (client_map list ! i) = of_nat i)"

abbreviation link_free :: "'t view \<Rightarrow> 't svl_link_list \<Rightarrow> nat list" where
  "link_free V list \<equiv> list_elems V (client_list_free list)"

lemma length_distinct_bounded: "distinct xs \<Longrightarrow> set xs \<subseteq> {..<n} \<Longrightarrow> length xs \<le> (n :: nat)"
  by (metis card_lessThan card_mono distinct_card finite_lessThan)

lemma link_free_room:
  assumes inv: "link_list_inv E V list" and i: "i < unat (clients_max list)" "i \<notin> set (link_free V list)"
  shows "length (link_free V list) < list_cap V (client_list_free list)"
proof -
  from inv i have "distinct (link_free V list @ [i])" "set (link_free V list @ [i]) \<subseteq> {..<unat (clients_max list)}"
    unfolding link_list_inv_def by auto
  from length_distinct_bounded [OF this] inv show ?thesis
    unfolding link_list_inv_def by simp
qed

section \<open>Setup and reset\<close>

lemma link_list_fill_result:
  assumes "list_laws E V" and "i + k \<le> length (client_map list)"
    and "length (link_free V list) + k \<le> list_cap V (client_list_free list)"
  shows "\<exists>l m. link_list_fill E k i list = Some (TN_SUCCESS, list\<lparr>client_map := m, client_list_free := l\<rparr>) \<and>
     list_elems V l = link_free V list @ [i..<i + k] \<and> list_cap V l = list_cap V (client_list_free list) \<and>
     length m = length (client_map list) \<and>
     (\<forall>j < length m. m ! j = (if i \<le> j \<and> j < i + k then (client_map list ! j)\<lparr>link_id := of_nat j\<rparr>
                              else client_map list ! j))"
  using assms(2,3)
proof (induction k arbitrary: i list)
  case 0
  show ?case by (rule exI [of _ "client_list_free list"], rule exI [of _ "client_map list"]) auto
next
  case (Suc k)
  let ?link = "(client_map list ! i)\<lparr>link_id := of_nat i\<rparr>"
  obtain r l where p: "tn_list_ptr_push_back E (client_list_free list) i = (r, l)" by fastforce
  note push = list_push_law [OF assms(1) p]
  from push(3) Suc.prems(2) have r: "r = TN_SUCCESS" by simp
  let ?list = "list\<lparr>client_map := (client_map list)[i := ?link], client_list_free := l\<rparr>"
  from Suc.prems push r have pre: "Suc i + k \<le> length (client_map ?list)"
    "length (link_free V ?list) + k \<le> list_cap V (client_list_free ?list)" by simp_all
  from Suc.IH [OF pre] obtain l' m where
    m: "link_list_fill E k (Suc i) ?list = Some (TN_SUCCESS, ?list\<lparr>client_map := m, client_list_free := l'\<rparr>)"
    and l': "list_elems V l' = link_free V ?list @ [Suc i..<Suc i + k]"
      "list_cap V l' = list_cap V (client_list_free ?list)"
    and len: "length m = length (client_map ?list)"
    and nth: "\<forall>j < length m. m ! j = (if Suc i \<le> j \<and> j < Suc i + k
                 then (client_map ?list ! j)\<lparr>link_id := of_nat j\<rparr> else client_map ?list ! j)"
    by blast
  from Suc.prems have i: "i < length (client_map list)" by simp
  have "link_list_fill E (Suc k) i list = Some (TN_SUCCESS, list\<lparr>client_map := m, client_list_free := l'\<rparr>)"
    using i p r m by (simp add: Let_def set_link_def)
  moreover have "list_elems V l' = link_free V list @ [i..<i + Suc k]"
    using l'(1) push(2) r by (simp add: upt_conv_Cons)
  moreover have "\<forall>j < length m. m ! j = (if i \<le> j \<and> j < i + Suc k
                 then (client_map list ! j)\<lparr>link_id := of_nat j\<rparr> else client_map list ! j)"
    using nth len i by (auto simp: nth_list_update)
  ultimately show ?case using l'(2) push(1) len
    by (intro exI [of _ l'] exI [of _ m]) simp
qed

text \<open>The array a fresh or reset list has: zeroed links, each with its own index as identifier.\<close>

definition fresh_links :: "nat \<Rightarrow> 't svl_link list" where
  "fresh_links n = map (\<lambda>i. zero_link\<lparr>link_id := of_nat i\<rparr>) [0..<n]"

lemma length_fresh_links [simp]: "length (fresh_links n) = n"
  by (simp add: fresh_links_def)

lemma nth_fresh_links [simp]: "i < n \<Longrightarrow> fresh_links n ! i = zero_link\<lparr>link_id := of_nat i\<rparr>"
  by (simp add: fresh_links_def)

lemma link_list_fill_fresh:
  assumes "list_laws E V" and "link_free V list = []" and "n \<le> list_cap V (client_list_free list)"
    and "client_map list = replicate n zero_link"
  shows "\<exists>l. link_list_fill E n 0 list =
       Some (TN_SUCCESS, list\<lparr>client_map := fresh_links n, client_list_free := l\<rparr>) \<and>
     list_elems V l = [0..<n] \<and> list_cap V l = list_cap V (client_list_free list)"
proof -
  from assms have "0 + n \<le> length (client_map list)"
    "length (link_free V list) + n \<le> list_cap V (client_list_free list)" by simp_all
  from link_list_fill_result [OF assms(1) this] obtain l m where
    fill: "link_list_fill E n 0 list = Some (TN_SUCCESS, list\<lparr>client_map := m, client_list_free := l\<rparr>)"
    and l: "list_elems V l = link_free V list @ [0..<0 + n]" "list_cap V l = list_cap V (client_list_free list)"
    and m: "length m = length (client_map list)"
    "\<forall>j < length m. m ! j = (if 0 \<le> j \<and> j < 0 + n then (client_map list ! j)\<lparr>link_id := of_nat j\<rparr>
                              else client_map list ! j)"
    by blast
  have "m = fresh_links n" using m assms(4) by (auto simp: list_eq_iff_nth_eq)
  with fill l assms(2) show ?thesis by auto
qed

lemma fresh_list_inv:
  assumes "list_laws E V" and "array_len E Blk_link n = unat n" and "list_elems V l = [0..<unat n]"
    and "list_cap V l = unat n"
  shows "link_list_inv E V (list\<lparr>client_map := fresh_links (unat n), client_list_free := l, clients_max := n\<rparr>)"
  using assms by (auto simp: link_list_inv_def)

section \<open>The slot contract of a link list\<close>

definition take_link :: "'t ext \<Rightarrow> 't svl_link_list \<Rightarrow> (nat \<times> 't svl_link_list) option" where
  "take_link E list =
     (case svl_link_list_open E list None of Some (TN_SUCCESS, Some i, list') \<Rightarrow> Some (i, list') | _ \<Rightarrow> None)"

definition give_link :: "'t ext \<Rightarrow> 't svl_link_list \<Rightarrow> nat \<Rightarrow> 't svl_link_list option" where
  "give_link E list i =
     (case svl_link_list_close E list i of (r, list') \<Rightarrow> if r = TN_SUCCESS then Some list' else None)"

lemma open_empty:
  assumes inv: "link_list_inv E V list" and "link_free V list = []"
  shows "\<exists>l. svl_link_list_open E list out = Some (TN_ERROR, out, list\<lparr>client_list_free := l\<rparr>) \<and>
    list_elems V l = [] \<and> list_cap V l = list_cap V (client_list_free list)"
proof -
  obtain r out' l where p: "tn_list_ptr_pop_back E (client_list_free list) out = (r, out', l)"
    by (cases "tn_list_ptr_pop_back E (client_list_free list) out")
  from inv have "list_laws E V" by (simp add: link_list_inv_def)
  from list_pop_empty_law [OF this p assms(2)] p show ?thesis
    by (intro exI [of _ l]) (simp add: svl_link_list_open_def)
qed

lemma open_nonempty:
  assumes inv: "link_list_inv E V list" and ne: "link_free V list \<noteq> []"
  defines "i \<equiv> last (link_free V list)"
  shows "\<exists>l. svl_link_list_open E list out = Some (TN_SUCCESS, Some i,
      list\<lparr>client_map := (client_map list)[i := (client_map list ! i)
         \<lparr>cmd_open_id := TN_CMD_INVALID E, cmd_close_id := TN_CMD_INVALID E\<rparr>], client_list_free := l\<rparr>) \<and>
    list_elems V l = butlast (link_free V list) \<and> list_cap V l = list_cap V (client_list_free list)"
proof -
  obtain r out' l where p: "tn_list_ptr_pop_back E (client_list_free list) out = (r, out', l)"
    by (cases "tn_list_ptr_pop_back E (client_list_free list) out")
  from inv have laws: "list_laws E V" by (simp add: link_list_inv_def)
  from inv ne have "i < length (client_map list)"
    unfolding link_list_inv_def i_def using last_in_set by fastforce
  with list_pop_law [OF laws p ne] p show ?thesis
    by (intro exI [of _ l]) (simp add: svl_link_list_open_def set_link_def i_def)
qed

lemma close_result:
  assumes inv: "link_list_inv E V list" and i: "i < unat (clients_max list)" "i \<notin> set (link_free V list)"
  shows "\<exists>l. svl_link_list_close E list i = (TN_SUCCESS, list\<lparr>client_list_free := l\<rparr>) \<and>
    list_elems V l = link_free V list @ [i] \<and> list_cap V l = list_cap V (client_list_free list)"
proof -
  obtain r l where p: "tn_list_ptr_push_back E (client_list_free list) i = (r, l)" by fastforce
  from inv have "list_laws E V" by (simp add: link_list_inv_def)
  from list_push_law [OF this p] link_free_room [OF assms] p show ?thesis
    by (intro exI [of _ l]) (simp add: svl_link_list_close_def)
qed

lemma link_list_inv_upd:
  assumes "link_list_inv E V list" and "length m = length (client_map list)"
    and "\<And>i. i < length m \<Longrightarrow> link_id (m ! i) = link_id (client_map list ! i)"
    and "list_cap V l = list_cap V (client_list_free list)" and "distinct (list_elems V l)"
    and "set (list_elems V l) \<subseteq> {..<unat (clients_max list)}"
  shows "link_list_inv E V (list\<lparr>client_map := m, client_list_free := l\<rparr>)"
  using assms by (simp add: link_list_inv_def)

interpretation link_slots: slot_alloc
  "link_list_inv E V" "link_free V" "\<lambda>list. unat (clients_max list)" "take_link E" "give_link E"
  for E :: "'t ext" and V :: "'t view"
proof (unfold_locales, goal_cases)
  case (1 list)
  then show ?case by (simp add: link_list_inv_def)
next
  case (2 list)
  then show ?case by (simp add: link_list_inv_def)
next
  case (3 list)
  then obtain l where "svl_link_list_open E list None = Some (TN_ERROR, None, list\<lparr>client_list_free := l\<rparr>)"
    using open_empty by blast
  then show ?case by (simp add: take_link_def)
next
  case (4 list)
  let ?i = "last (link_free V list)"
  from open_nonempty [OF 4, of None] obtain l where
    o: "svl_link_list_open E list None = Some (TN_SUCCESS, Some ?i,
      list\<lparr>client_map := (client_map list)[?i := (client_map list ! ?i)
         \<lparr>cmd_open_id := TN_CMD_INVALID E, cmd_close_id := TN_CMD_INVALID E\<rparr>], client_list_free := l\<rparr>)"
    and l: "list_elems V l = butlast (link_free V list)" "list_cap V l = list_cap V (client_list_free list)"
    by blast
  from 4 have "distinct (link_free V list)" "set (link_free V list) \<subseteq> {..<unat (clients_max list)}"
    by (simp_all add: link_list_inv_def)
  then have "distinct (list_elems V l)" "set (list_elems V l) \<subseteq> {..<unat (clients_max list)}"
    using l(1) by (auto simp: distinct_butlast dest: in_set_butlastD)
  with 4(1) l(2) have
    "link_list_inv E V (list\<lparr>client_map := (client_map list)[?i := (client_map list ! ?i)
         \<lparr>cmd_open_id := TN_CMD_INVALID E, cmd_close_id := TN_CMD_INVALID E\<rparr>], client_list_free := l\<rparr>)"
    by (intro link_list_inv_upd) (auto simp: nth_list_update_cases)
  with o l show ?case by (simp add: take_link_def)
next
  case (5 list i)
  from close_result [OF 5] obtain l where
    c: "svl_link_list_close E list i = (TN_SUCCESS, list\<lparr>client_list_free := l\<rparr>)"
    and l: "list_elems V l = link_free V list @ [i]" "list_cap V l = list_cap V (client_list_free list)"
    by blast
  from 5 l have "link_list_inv E V (list\<lparr>client_list_free := l\<rparr>)"
    by (simp add: link_list_inv_def)
  with c l show ?case by (simp add: give_link_def)
qed

lemma link_list_fill_overrun:
  assumes "list_laws E V" and "i \<le> length (client_map list)" and "length (client_map list) < i + k"
    and "length (link_free V list) + k \<le> list_cap V (client_list_free list)"
  shows "link_list_fill E k i list = None"
  using assms(2-)
proof (induction k arbitrary: i list)
  case 0
  then show ?case
    by simp
next
  case (Suc k)
  obtain r l where p: "tn_list_ptr_push_back E (client_list_free list) i = (r, l)" by fastforce
  note push = list_push_law [OF assms(1) p]
  from push(3) Suc.prems(3) have r: "r = TN_SUCCESS" by simp
  with Suc push p show ?case by (simp add: Let_def set_link_def)
qed

section \<open>Reading frames\<close>

lemma buffer_read_be32_law:
  assumes "buffer_laws E V" and "tn_buffer_read_be32 E b v0 = (r, v, b')"
  shows "if 4 \<le> length (buf_bytes V b)
         then r = TN_SUCCESS \<and> v = be32 (take 4 (buf_bytes V b)) \<and> buf_bytes V b' = drop 4 (buf_bytes V b)
         else r \<noteq> TN_SUCCESS \<and> buf_bytes V b' = buf_bytes V b"
  using assms unfolding buffer_laws_def by blast

lemma buffer_read_skip_law:
  assumes "buffer_laws E V" and "tn_buffer_read_skip E b n = (r, b')"
  shows "if unat n \<le> length (buf_bytes V b)
         then r = TN_SUCCESS \<and> buf_bytes V b' = drop (unat n) (buf_bytes V b)
         else r \<noteq> TN_SUCCESS \<and> buf_bytes V b' = buf_bytes V b"
  using assms unfolding buffer_laws_def by blast

lemma buffer_read_ptr_law:
  "buffer_laws E V \<Longrightarrow> \<exists>rest. tn_buffer_read_ptr E b = buf_bytes V b @ rest"
  unfolding buffer_laws_def by blast

text \<open>A message as it travels: its length in four bytes, most significant first, then its bytes.\<close>

definition frame :: "u8 list \<Rightarrow> u8 list" where
  "frame payload = be32_bytes (of_nat (length payload)) @ payload"

lemma read_header_cases:
  assumes "buffer_laws E V" and "read_buffer link = Some b"
  shows "\<exists>b'. svl_link_read_header E link v0 =
     (if 4 \<le> length (buf_bytes V b)
      then Some (TN_SUCCESS, be32 (take 4 (buf_bytes V b)),
             link\<lparr>read_buffer := Some b', next_payload_len := ucast (be32 (take 4 (buf_bytes V b))),
                  read_state := SVL_LINK_READ_PAYLOAD\<rparr>)
      else Some (TN_ERROR, 0, link\<lparr>read_buffer := Some b'\<rparr>)) \<and>
     buf_bytes V b' = (if 4 \<le> length (buf_bytes V b) then drop 4 (buf_bytes V b) else buf_bytes V b)"
proof -
  obtain r v b' where p: "tn_buffer_read_be32 E b v0 = (r, v, b')" by (cases "tn_buffer_read_be32 E b v0")
  from buffer_read_be32_law [OF assms(1) p] p assms(2) show ?thesis
    by (intro exI [of _ b']) (auto simp: svl_link_read_header_def split: if_splits)
qed

lemma read_payload_cases:
  assumes "buffer_laws E V" and "read_buffer link = Some b"
  shows "\<exists>b'. svl_link_read_payload E link =
     (if unat (next_payload_len link) \<le> length (buf_bytes V b)
      then Some (TN_SUCCESS, \<lparr>span_ptr = Some (tn_buffer_read_ptr E b), span_len = next_payload_len link\<rparr>,
             link\<lparr>read_buffer := Some b', read_state := SVL_LINK_READ_HEADER\<rparr>)
      else Some (TN_ERROR, \<lparr>span_ptr = None, span_len = 0\<rparr>, link\<lparr>read_buffer := Some b'\<rparr>)) \<and>
     buf_bytes V b' = (if unat (next_payload_len link) \<le> length (buf_bytes V b)
       then drop (unat (next_payload_len link)) (buf_bytes V b) else buf_bytes V b)"
proof -
  obtain r b' where p: "tn_buffer_read_skip E b (next_payload_len link) = (r, b')" by fastforce
  from buffer_read_skip_law [OF assms(1) p] p assms(2) show ?thesis
    by (intro exI [of _ b']) (auto simp: svl_link_read_payload_def split: if_splits)
qed

section \<open>Properties\<close>

text \<open>A list of three links, all free, over the reference containers.\<close>

definition ref_links :: "robj svl_link_list" where
  "ref_links = \<lparr>list_priv = None, client_map_ptr = Some 1, client_map = fresh_links 3, clients_max = 3,
     client_list_free = RList 3 [0, 1, 2], client_list_open = RZero\<rparr>"

lemma ref_links_inv: "link_list_inv ref_ext ref_view ref_links"
  using ref_list_laws
  by (auto simp: link_list_inv_def ref_links_def array_len_def array_bytes_def)

lemma ref_links_slots: "slots_ok (link_free ref_view ref_links) [] (unat (clients_max ref_links))"
  by (auto simp: slots_ok_def ref_links_def)

text \<open>
  C34. Links are never lost and never handed out twice: whatever sequence of
  \<^verbatim>\<open>svl_link_list_open\<close> and \<^verbatim>\<open>svl_link_list_close\<close> a client performs, starting with every link
  either free or held by the client, afterwards every link is again exactly one of the two, and
  the list invariant still holds.
\<close>

theorem link_open_close_conserves:
  assumes "link_list_inv E V list" and "slots_ok (link_free V list) held (unat (clients_max list))"
  shows "case slot_run (take_link E) (give_link E) ops list held of (list', held') \<Rightarrow>
     link_list_inv E V list' \<and> unat (clients_max list') = unat (clients_max list) \<and>
     slots_ok (link_free V list') held' (unat (clients_max list))"
  using assms by (rule link_slots.run_slots_ok)

theorem link_open_close_conserves_witness:
  "link_list_inv ref_ext ref_view ref_links \<and>
   (case slot_run (take_link ref_ext) (give_link ref_ext) [Take, Take, Return 1, Take] ref_links [] of
      (list', held') \<Rightarrow> slots_ok (link_free ref_view list') held' 3)"
  using link_open_close_conserves [OF ref_links_inv ref_links_slots, of "[Take, Take, Return 1, Take]"] ref_links_inv
  by (auto simp: ref_links_def split: prod.splits)

lemma link_list_setup_result:
  assumes "list_laws E V" and "unat n * unat (sizeof E Blk_link) < 2 ^ 64" and "sizeof E Blk_link \<noteq> 0"
    and "TN_MEM_ACQUIRE E lg Blk_link (array_bytes E Blk_link n) = Some a" and "fst (tn_list_ptr_setup E n) = TN_SUCCESS"
  shows "\<exists>list. svl_link_list_setup E n lg =
       Some (TN_SUCCESS, list, (Mem_acquire Blk_link (array_bytes E Blk_link n) (Some a), TN_SUCCESS) # lg) \<and>
     link_list_inv E V list \<and> clients_max list = n \<and> client_map list = fresh_links (unat n) \<and>
     link_free V list = [0..<unat n]"
proof -
  note len = array_len_exact [OF assms(2,3)]
  obtain l where l: "tn_list_ptr_setup E n = (TN_SUCCESS, l)" using assms(5) by (cases "tn_list_ptr_setup E n") auto
  let ?list = "(zero_link_list E)\<lparr>client_map_ptr := Some a, client_map := replicate (unat n) zero_link, client_list_free := l\<rparr>"
  from list_setup_law [OF assms(1) l] have "link_free V ?list = []" "unat n \<le> list_cap V (client_list_free ?list)"
    by simp_all
  from link_list_fill_fresh [OF assms(1) this] obtain l' where
    fill: "link_list_fill E (unat n) 0 ?list = Some (TN_SUCCESS, ?list\<lparr>client_map := fresh_links (unat n), client_list_free := l'\<rparr>)"
    and l': "list_elems V l' = [0..<unat n]" "list_cap V l' = unat n"
    using list_setup_law [OF assms(1) l] by auto
  let ?new = "?list\<lparr>client_map := fresh_links (unat n), client_list_free := l', clients_max := n\<rparr>"
  have "svl_link_list_setup E n lg =
      Some (TN_SUCCESS, ?new, (Mem_acquire Blk_link (array_bytes E Blk_link n) (Some a), TN_SUCCESS) # lg)"
    using assms(4) l fill by (simp add: svl_link_list_setup_def Let_def len)
  moreover have "link_list_inv E V ?new" by (rule fresh_list_inv [OF assms(1) len l'])
  ultimately show ?thesis using l'(1) by (intro exI [of _ ?new]) simp
qed

text \<open>
  C35. \<^verbatim>\<open>svl_link_list_setup\<close> on a client count whose array size fits into \<^verbatim>\<open>size_t\<close>: if the allocation and
  the set-up of the free list succeed, it returns success with a list that satisfies the
  invariant, in which every link is zeroed, carries its index as identifier and is free.
\<close>

theorem link_list_setup_ok:
  assumes "list_laws E V" and "unat n * unat (sizeof E Blk_link) < 2 ^ 64" and "sizeof E Blk_link \<noteq> 0"
    and "TN_MEM_ACQUIRE E lg Blk_link (array_bytes E Blk_link n) = Some a" and "fst (tn_list_ptr_setup E n) = TN_SUCCESS"
  shows "\<exists>list. svl_link_list_setup E n lg =
       Some (TN_SUCCESS, list, (Mem_acquire Blk_link (array_bytes E Blk_link n) (Some a), TN_SUCCESS) # lg) \<and>
     link_list_inv E V list \<and> clients_max list = n \<and> client_map list = fresh_links (unat n) \<and>
     link_free V list = [0..<unat n]"
  using assms by (rule link_list_setup_result)

theorem link_list_setup_ok_witness:
  "\<exists>list. svl_link_list_setup ref_ext 1000 [] =
       Some (TN_SUCCESS, list, [(Mem_acquire Blk_link 128000 (Some 1), TN_SUCCESS)]) \<and>
     link_list_inv ref_ext ref_view list \<and> link_free ref_view list = [0..<1000]"
  using link_list_setup_ok [OF ref_list_laws, of 1000 "[]" 1]
  by (auto simp: array_bytes_def)

text \<open>
  C39. The size computation of \<^verbatim>\<open>svl_link_list_setup\<close> decides whether it is safe: with allocation and list
  set-up succeeding, the function has defined behaviour exactly if the array it allocated has room
  for all \<open>n\<close> links; when \<^verbatim>\<open>clients_max * sizeof(svl_link_t)\<close> wraps around, the loop writes past it.
\<close>

theorem link_list_setup_defined_iff:
  assumes "list_laws E V"
    and "TN_MEM_ACQUIRE E lg Blk_link (array_bytes E Blk_link n) = Some a" and "fst (tn_list_ptr_setup E n) = TN_SUCCESS"
  shows "svl_link_list_setup E n lg = None \<longleftrightarrow> array_len E Blk_link n < unat n"
proof -
  obtain l where l: "tn_list_ptr_setup E n = (TN_SUCCESS, l)" using assms(3) by (cases "tn_list_ptr_setup E n") auto
  let ?list = "(zero_link_list E)\<lparr>client_map_ptr := Some a,
    client_map := replicate (array_len E Blk_link n) zero_link, client_list_free := l\<rparr>"
  from list_setup_law [OF assms(1) l]
  have room: "length (link_free V ?list) + unat n \<le> list_cap V (client_list_free ?list)" by simp
  have "svl_link_list_setup E n lg = None \<longleftrightarrow> link_list_fill E (unat n) 0 ?list = None"
    using assms(2) l by (simp add: svl_link_list_setup_def Let_def split: option.splits)
  also have "\<dots> \<longleftrightarrow> array_len E Blk_link n < unat n"
    using link_list_fill_result [OF assms(1) _ room, of 0] link_list_fill_overrun [OF assms(1) _ _ room, of 0]
    by (cases "unat n \<le> array_len E Blk_link n") auto
  finally show ?thesis .
qed

theorem link_list_setup_defined_iff_witness:
  "svl_link_list_setup ref_ext 3 [] \<noteq> None \<and> svl_link_list_setup ref_ext 0x0200000000000001 [] = None"
proof
  show "svl_link_list_setup ref_ext 3 [] \<noteq> None"
    using link_list_setup_defined_iff [OF ref_list_laws, of "[]" 3 1]
    by (auto simp: array_len_def array_bytes_def)
  show "svl_link_list_setup ref_ext 0x0200000000000001 [] = None"
    using link_list_setup_defined_iff [OF ref_list_laws, of "[]" "0x0200000000000001" 1]
    by (simp add: array_len_def array_bytes_def)
qed

text \<open>
  A failing \<^verbatim>\<open>svl_link_list_setup\<close> returns \<^verbatim>\<open>TN_ERROR\<close> and keeps no memory: the only calls it made to the
  allocator are one that returned null, or one that returned a block and its release.
\<close>

theorem link_list_setup_error_releases:
  assumes "svl_link_list_setup E n lg = Some (r, list, lg')" and "r \<noteq> TN_SUCCESS"
  shows "r = TN_ERROR \<and> client_map list = [] \<and>
    (lg' = (Mem_acquire Blk_link (array_bytes E Blk_link n) None, TN_SUCCESS) # lg \<or>
     (\<exists>a. lg' = (Mem_release a, TN_SUCCESS) # (Mem_acquire Blk_link (array_bytes E Blk_link n) (Some a), TN_SUCCESS) # lg))"
proof -
  have keep: "link_list_fill E k i l0 = Some (q, l1) \<Longrightarrow> client_map_ptr l1 = client_map_ptr l0" for k i l0 q l1
    by (induction E k i l0 rule: link_list_fill.induct)
       (auto simp: Let_def set_link_def split: if_splits prod.splits)
  from assms show ?thesis
    by (auto simp: svl_link_list_setup_def Let_def link_list_release_def split: if_splits prod.splits option.splits
        dest!: keep)
qed

theorem link_list_setup_error_releases_witness:
  "\<exists>list. svl_link_list_setup (ref_ext\<lparr>tn_list_ptr_setup := \<lambda>_. (TN_ERROR, RZero)\<rparr>) 3 [] =
     Some (TN_ERROR, list, [(Mem_release 1, TN_SUCCESS), (Mem_acquire Blk_link 384 (Some 1), TN_SUCCESS)])"
proof -
  let ?E = "ref_ext\<lparr>tn_list_ptr_setup := \<lambda>_. (TN_ERROR, RZero)\<rparr>"
  obtain r list lg where s: "svl_link_list_setup ?E 3 [] = Some (r, list, lg)" and "r \<noteq> TN_SUCCESS"
    and lg: "lg = [(Mem_release 1, TN_SUCCESS), (Mem_acquire Blk_link 384 (Some 1), TN_SUCCESS)]"
    by (simp add: svl_link_list_setup_def Let_def link_list_release_def zero_link_list_def
        array_bytes_def)
  from link_list_setup_error_releases [OF s] \<open>r \<noteq> TN_SUCCESS\<close> have "r = TN_ERROR" by simp
  with s lg show ?thesis by simp
qed

text \<open>
  Looking a link up by the identifier it carries: \<^verbatim>\<open>svl_link_list_get\<close> finds exactly the identifiers below
  \<open>clients_max\<close>, the index it returns is inside the array, and the link there carries the identifier
  that was asked for.
\<close>

theorem link_list_get_by_id:
  assumes "link_list_inv E V list"
  shows "case svl_link_list_get list cid of
      (r, None) \<Rightarrow> r = TN_ERROR \<and> clients_max list \<le> cid
    | (r, Some i) \<Rightarrow> r = TN_SUCCESS \<and> i < length (client_map list) \<and> link_id (client_map list ! i) = cid"
  using assms
  by (auto simp: svl_link_list_get_def link_list_inv_def word_less_nat_alt not_le)

theorem link_list_get_by_id_witness:
  "svl_link_list_get ref_links 2 = (TN_SUCCESS, Some 2) \<and> link_id (client_map ref_links ! 2) = 2 \<and>
   svl_link_list_get ref_links 3 = (TN_ERROR, None)"
  using link_list_get_by_id [OF ref_links_inv, of 2]
  by (simp add: svl_link_list_get_def ref_links_def)

text \<open>
  \<^verbatim>\<open>svl_link_list_reset\<close> brings a list back to the state after setup: it succeeds, every link is zeroed and
  free again, whichever links were in use, and the invariant holds.
\<close>

theorem link_list_reset_fresh:
  assumes "link_list_inv E V list"
  shows "\<exists>list'. svl_link_list_reset E list = Some (TN_SUCCESS, list') \<and> link_list_inv E V list' \<and>
     client_map list' = fresh_links (unat (clients_max list)) \<and> clients_max list' = clients_max list \<and>
     link_free V list' = [0..<unat (clients_max list)]"
proof -
  let ?n = "unat (clients_max list)"
  let ?list = "list\<lparr>client_map := replicate ?n zero_link,
     client_list_free := tn_list_ptr_clear E (client_list_free list),
     client_list_open := tn_list_ptr_clear E (client_list_open list)\<rparr>"
  from assms have laws: "list_laws E V" and len: "array_len E Blk_link (clients_max list) = ?n"
    "length (client_map list) = ?n" and cap: "list_cap V (client_list_free list) = ?n"
    by (simp_all add: link_list_inv_def)
  from link_list_fill_fresh [OF laws, of ?list ?n] obtain l where
    fill: "link_list_fill E ?n 0 ?list = Some (TN_SUCCESS, ?list\<lparr>client_map := fresh_links ?n, client_list_free := l\<rparr>)"
    and l: "list_elems V l = [0..<?n]" "list_cap V l = ?n"
    using list_clear_law [OF laws] cap by auto
  let ?new = "?list\<lparr>client_map := fresh_links ?n, client_list_free := l\<rparr>"
  have "svl_link_list_reset E list = Some (TN_SUCCESS, ?new)"
    using fill len by (simp add: svl_link_list_reset_def Let_def)
  moreover from fresh_list_inv [OF laws len(1) l, of ?list] have "link_list_inv E V ?new"
    by (simp add: link_list_inv_def)
  ultimately show ?thesis using l(1) by (intro exI [of _ ?new]) simp
qed

theorem link_list_reset_fresh_witness:
  "\<exists>list'. svl_link_list_reset ref_ext ref_links = Some (TN_SUCCESS, list') \<and> link_free ref_view list' = [0, 1, 2]"
  using link_list_reset_fresh [OF ref_links_inv] by (auto simp: ref_links_def upt_rec)

text \<open>
  C36. Frames round trip: when the buffer of a link holds a framed message and then anything else, reading the
  header and then the payload succeeds, yields the length and exactly the bytes of the message,
  leaves the rest in the buffer and waits for the next header.
\<close>

theorem link_frame_roundtrip:
  assumes "buffer_laws E V" and "read_buffer link = Some b"
    and "buf_bytes V b = frame payload @ rest" and "length payload < 2 ^ 32"
  shows "\<exists>link1 link2 span b2.
     svl_link_read_header E link v0 = Some (TN_SUCCESS, of_nat (length payload), link1) \<and>
     read_state link1 = SVL_LINK_READ_PAYLOAD \<and>
     svl_link_read_payload E link1 = Some (TN_SUCCESS, span, link2) \<and>
     map_option (take (unat (span_len span))) (span_ptr span) = Some payload \<and>
     read_buffer link2 = Some b2 \<and> buf_bytes V b2 = rest \<and> read_state link2 = SVL_LINK_READ_HEADER"
proof -
  have hd: "take 4 (buf_bytes V b) = be32_bytes (of_nat (length payload))" "drop 4 (buf_bytes V b) = payload @ rest"
    using assms(3) by (simp_all add: frame_def)
  from read_header_cases [OF assms(1,2), of v0] hd obtain b1 where
    h: "svl_link_read_header E link v0 = Some (TN_SUCCESS, of_nat (length payload),
          link\<lparr>read_buffer := Some b1, next_payload_len := ucast (of_nat (length payload) :: u32),
               read_state := SVL_LINK_READ_PAYLOAD\<rparr>)"
    and b1: "buf_bytes V b1 = payload @ rest"
    using assms(3) by (auto simp: frame_def)
  let ?link1 = "link\<lparr>read_buffer := Some b1, next_payload_len := ucast (of_nat (length payload) :: u32),
               read_state := SVL_LINK_READ_PAYLOAD\<rparr>"
  have len: "unat (ucast (of_nat (length payload) :: u32) :: u64) = length payload"
    using assms(4) by (simp add: unsigned_ucast_eq unat_of_nat take_bit_eq_mod)
  from read_payload_cases [OF assms(1), of ?link1 b1] b1 obtain b2 where
    p: "svl_link_read_payload E ?link1 = Some (TN_SUCCESS,
          \<lparr>span_ptr = Some (tn_buffer_read_ptr E b1), span_len = next_payload_len ?link1\<rparr>,
          ?link1\<lparr>read_buffer := Some b2, read_state := SVL_LINK_READ_HEADER\<rparr>)"
    and b2: "buf_bytes V b2 = rest"
    by (auto simp: len)
  obtain more where "tn_buffer_read_ptr E b1 = buf_bytes V b1 @ more"
    using buffer_read_ptr_law [OF assms(1)] by blast
  with h p b2 b1 show ?thesis by (auto simp: len)
qed

theorem link_frame_roundtrip_witness:
  "\<exists>link1 link2 span b2.
     svl_link_read_header ref_ext (zero_link\<lparr>read_buffer := Some (RBuf 10 (frame [7, 8, 9] @ [1]) [])\<rparr>) 0 =
       Some (TN_SUCCESS, 3, link1) \<and>
     svl_link_read_payload ref_ext link1 = Some (TN_SUCCESS, span, link2) \<and>
     map_option (take (unat (span_len span))) (span_ptr span) = Some [7, 8, 9] \<and>
     read_buffer link2 = Some b2 \<and> ref_bytes b2 = [1]"
  using link_frame_roundtrip [OF ref_buffer_laws, of "zero_link\<lparr>read_buffer := Some (RBuf 10 (frame [7, 8, 9] @ [1]) [])\<rparr>"
      "RBuf 10 (frame [7, 8, 9] @ [1]) []" "[7, 8, 9]" "[1]" 0]
  by auto

end
