(* ===== verification/Tn_Laws.thy ===== *)
theory Tn_Laws
  imports Tn_Interface
begin

text \<open>
  The laws of the buffer pool, the event list and the command list of \<^verbatim>\<open>Tn_Interface\<close>, one rule per
  operation, in the form the component proofs use: from the result of a call to what it did to
  the contents.
\<close>

section \<open>Buffer pool\<close>

lemma pool_pop_law:
  assumes "pool_laws E V" and "tn_buffer_pool_pop_back E p out = (r, out', p')"
  shows "pool_cap V p' = pool_cap V p"
    and "r = TN_SUCCESS \<longleftrightarrow> pool_size V p \<noteq> 0"
    and "r = TN_SUCCESS \<Longrightarrow> pool_size V p = Suc (pool_size V p')"
    and "r \<noteq> TN_SUCCESS \<Longrightarrow> pool_size V p' = pool_size V p \<and> out' = out"
    and "r = TN_SUCCESS \<Longrightarrow> \<exists>b. out' = Some b \<and> buf_bytes V b = []"
  using assms unfolding pool_laws_def by (metis (full_types))+

lemma pool_push_law:
  assumes "pool_laws E V" and "pool_size V p < pool_cap V p"
  shows "pool_cap V (snd (tn_buffer_pool_push E p b)) = pool_cap V p"
    and "pool_size V (snd (tn_buffer_pool_push E p b)) = Suc (pool_size V p)"
  using assms unfolding pool_laws_def by (metis (full_types) prod.collapse)+

section \<open>Event list\<close>

lemma event_pop_law:
  assumes "event_laws E V" and "tn_event_list_free_pop E ty l = (r, out, l')"
  shows "ev_cap V l' = ev_cap V l" and "ev_ready V l' = ev_ready V l"
    and "r = TN_SUCCESS \<longleftrightarrow> ev_free V l \<noteq> 0"
    and "r = TN_SUCCESS \<Longrightarrow> ev_free V l = Suc (ev_free V l')"
    and "r \<noteq> TN_SUCCESS \<Longrightarrow> ev_free V l' = ev_free V l"
    and "r = TN_SUCCESS \<Longrightarrow> \<exists>e. out = Some e \<and> ev_type e = ty"
  using assms unfolding event_laws_def by (metis (full_types))+

lemma event_free_push_law:
  assumes "event_laws E V" and "ev_free V l < ev_cap V l"
  shows "ev_cap V (snd (tn_event_list_free_push E l e)) = ev_cap V l"
    and "ev_ready V (snd (tn_event_list_free_push E l e)) = ev_ready V l"
    and "ev_free V (snd (tn_event_list_free_push E l e)) = Suc (ev_free V l)"
  using assms unfolding event_laws_def by (metis (full_types) prod.collapse)+

lemma event_ready_push_law:
  assumes "event_laws E V" and "tn_event_list_ready_push E l e = (r, l')" and "length (ev_ready V l) < ev_cap V l"
  shows "r = TN_SUCCESS" and "ev_cap V l' = ev_cap V l" and "ev_free V l' = ev_free V l"
    and "ev_ready V l' = ev_ready V l @ [e]"
  using assms unfolding event_laws_def by (metis (full_types))+

lemma event_pop_all_law:
  assumes "event_laws E V" and "tn_event_list_ready_pop_all E l n = (r, es, l')"
  shows "ev_cap V l' = ev_cap V l" and "ev_free V l' = ev_free V l"
    and "es = (if r = TN_SUCCESS then take (unat n) (ev_ready V l) else [])"
    and "ev_ready V l' = (if r = TN_SUCCESS then drop (unat n) (ev_ready V l) else ev_ready V l)"
    and "ev_ready V l \<noteq> [] \<Longrightarrow> n \<noteq> 0 \<Longrightarrow> r = TN_SUCCESS"
proof -
  from assms have law: "ev_cap V l' = ev_cap V l \<and> ev_free V l' = ev_free V l \<and>
        (if r = TN_SUCCESS
         then es = take (unat n) (ev_ready V l) \<and> ev_ready V l' = drop (unat n) (ev_ready V l)
         else es = [] \<and> ev_ready V l' = ev_ready V l) \<and>
        (ev_ready V l \<noteq> [] \<longrightarrow> n \<noteq> 0 \<longrightarrow> r = TN_SUCCESS)"
    unfolding event_laws_def by blast
  then show "ev_cap V l' = ev_cap V l" and "ev_free V l' = ev_free V l"
    and "es = (if r = TN_SUCCESS then take (unat n) (ev_ready V l) else [])"
    and "ev_ready V l' = (if r = TN_SUCCESS then drop (unat n) (ev_ready V l) else ev_ready V l)"
    and "ev_ready V l \<noteq> [] \<Longrightarrow> n \<noteq> 0 \<Longrightarrow> r = TN_SUCCESS"
    by (auto split: if_splits)
qed

section \<open>Command list\<close>

lemma cmd_pop_law:
  assumes "cmd_laws E V" and "tn_cmd_list_free_pop E ty l = (r, out, l')"
  shows "cmd_cap V l' = cmd_cap V l" and "cmd_ready V l' = cmd_ready V l"
    and "r = TN_SUCCESS \<longleftrightarrow> cmd_free V l \<noteq> 0"
    and "r = TN_SUCCESS \<Longrightarrow> cmd_free V l = Suc (cmd_free V l')"
    and "r \<noteq> TN_SUCCESS \<Longrightarrow> cmd_free V l' = cmd_free V l"
    and "r = TN_SUCCESS \<Longrightarrow> \<exists>c. out = Some c \<and> cmd_type c = ty"
  using assms unfolding cmd_laws_def by (metis (full_types))+

lemma cmd_free_push_law:
  assumes "cmd_laws E V" and "cmd_free V l < cmd_cap V l"
  shows "cmd_cap V (snd (tn_cmd_list_free_push E l c)) = cmd_cap V l"
    and "cmd_ready V (snd (tn_cmd_list_free_push E l c)) = cmd_ready V l"
    and "cmd_free V (snd (tn_cmd_list_free_push E l c)) = Suc (cmd_free V l)"
  using assms unfolding cmd_laws_def by (metis (full_types) prod.collapse)+

lemma cmd_free_push_ready:
  "cmd_laws E V \<Longrightarrow> cmd_ready V (snd (tn_cmd_list_free_push E l c)) = cmd_ready V l"
  unfolding cmd_laws_def by (metis (full_types) prod.collapse)

lemma cmd_ready_push_law:
  assumes "cmd_laws E V" and "tn_cmd_list_ready_push E l c = (r, l')"
  shows "cmd_cap V l' = cmd_cap V l" and "cmd_free V l' = cmd_free V l"
    and "cmd_ready V l' = (if r = TN_SUCCESS then cmd_ready V l @ [c] else cmd_ready V l)"
    and "length (cmd_ready V l) < cmd_cap V l \<Longrightarrow> r = TN_SUCCESS"
  using assms unfolding cmd_laws_def by (metis (full_types))+

lemma cmd_ready_pop_law:
  assumes "cmd_laws E V" and "tn_cmd_list_ready_pop_back E l = (r, out, l')"
  shows "cmd_cap V l' = cmd_cap V l" and "cmd_free V l' = cmd_free V l"
    and "r = TN_SUCCESS \<longleftrightarrow> cmd_ready V l \<noteq> []"
    and "r \<noteq> TN_SUCCESS \<Longrightarrow> cmd_ready V l' = []"
    and "r = TN_SUCCESS \<Longrightarrow> \<exists>c. out = Some c \<and> mset (cmd_ready V l) = add_mset c (mset (cmd_ready V l'))"
proof -
  from assms have "cmd_cap V l' = cmd_cap V l \<and> cmd_free V l' = cmd_free V l \<and>
        (if cmd_ready V l = []
         then r \<noteq> TN_SUCCESS \<and> cmd_ready V l' = []
         else r = TN_SUCCESS \<and>
              (\<exists>c. out = Some c \<and> mset (cmd_ready V l) = add_mset c (mset (cmd_ready V l'))))"
    unfolding cmd_laws_def by blast
  then show "cmd_cap V l' = cmd_cap V l" and "cmd_free V l' = cmd_free V l"
    and "r = TN_SUCCESS \<longleftrightarrow> cmd_ready V l \<noteq> []"
    and "r \<noteq> TN_SUCCESS \<Longrightarrow> cmd_ready V l' = []"
    and "r = TN_SUCCESS \<Longrightarrow> \<exists>c. out = Some c \<and> mset (cmd_ready V l) = add_mset c (mset (cmd_ready V l'))"
    by (auto split: if_splits)
qed

end
