(* ===== verification/Svl_World.thy ===== *)
theory Svl_World
  imports Svl_Link Tn_Laws
begin

text \<open>
  The state of a running service: the structures of \<^verbatim>\<open>include/svlynx/service.h\<close> and
  \<^verbatim>\<open>src/svlynx/service_internal.h\<close>, the memory they point at, and the log of the calls made to libuv,
  the allocator and the thread functions.

  \<open>svl_service\<close> is the structure \<^verbatim>\<open>svl_service_t\<close>.  \<open>world\<close> extends it by what its pointers lead to: the
  structure behind \<^verbatim>\<open>service->priv\<close>, the \<^verbatim>\<open>data\<close> fields of the libuv handles and connect requests
  (they point at links), the four global statistics counters, and the log.
\<close>

section \<open>Data\<close>

datatype svl_service_state_t =
    SVL_SERVICE_NEW
  | SVL_SERVICE_STARTING
  | SVL_SERVICE_STARTED
  | SVL_SERVICE_STOPPING
  | SVL_SERVICE_STOPPED
  | SVL_SERVICE_ERROR
  | SVL_SERVICE_INVALID

definition SVL_SERVICE_MAX_RECV :: u64 where
  "SVL_SERVICE_MAX_RECV = 65535"

record svl_service_write_req =
  wr_base :: "u8 list"
  wr_len :: u64
  wr_link :: "nat option"
  wr_id :: u64
  wr_cmd_id :: u64

record 't svl_service =
  service_priv :: "addr option"
  host_listen :: tn_endpoint_t
  link_list :: "'t svl_link_list"
  pool_read :: 't
  pool_write :: 't
  cmds :: 't
  events :: 't
  event_updates_ptr :: "addr option"
  event_updates :: "'t tn_event option list"
  event_updates_count :: u64
  client_count_max :: u64
  buffer_count :: u64
  write_reqs_ptr :: "addr option"
  write_reqs :: "svl_service_write_req list"
  write_reqs_free :: 't
  write_reqs_ready :: 't
  service_state :: svl_service_state_t

record 't svl_service_priv =
  uv_loop :: "handle option"
  tcp_handle :: "handle option"
  uv_accept_timer :: "handle option"
  uv_prep :: "handle option"
  uv_check :: "handle option"
  uv_signal :: "handle option"
  send_req_ptr :: "addr option"
  send_req :: "svl_service_write_req list"
  send_req_list :: 't

record svl_stats =
  send_msgs :: u64
  send_bytes :: u64
  recv_msgs :: u64
  recv_bytes :: u64

record 't world = "'t svl_service" +
  priv_data :: "'t svl_service_priv"
  handle_data :: "handle \<Rightarrow> nat option"
  req_data :: "addr \<Rightarrow> nat option"
  stats :: svl_stats
  log :: uv_log

text \<open>
  Two of the fields are functions of type \<open>addr \<Rightarrow> nat option\<close>: \<open>handle_data w h\<close> is the link that
  \<^verbatim>\<open>handle->data\<close> points at, \<open>req_data w q\<close> the one that \<^verbatim>\<open>connect_req->data\<close> points at.
\<close>

definition zero_priv :: "'t ext \<Rightarrow> 't svl_service_priv" where
  "zero_priv E = \<lparr>uv_loop = None, tcp_handle = None, uv_accept_timer = None, uv_prep = None,
     uv_check = None, uv_signal = None, send_req_ptr = None, send_req = [], send_req_list = tn_zero E\<rparr>"

definition zero_service :: "'t ext \<Rightarrow> 't world \<Rightarrow> 't world" where
  "zero_service E w =
     w\<lparr>service_priv := None, host_listen := zero_endpoint, link_list := zero_link_list E,
       pool_read := tn_zero E, pool_write := tn_zero E, cmds := tn_zero E, events := tn_zero E,
       event_updates_ptr := None, event_updates := [], event_updates_count := 0,
       client_count_max := 0, buffer_count := 0, write_reqs_ptr := None, write_reqs := [],
       write_reqs_free := tn_zero E, write_reqs_ready := tn_zero E, service_state := SVL_SERVICE_NEW\<rparr>"

section \<open>Calls\<close>

text \<open>
  A call that returns a status appends itself to the log, with that status; so does an allocation.
  \<open>acquire\<close> is \<^verbatim>\<open>TN_GUARD_NULL_CLEANUP(p = TN_MEM_ACQUIRE(..))\<close>: \<open>store\<close> assigns the pointer.
\<close>

definition uv_do :: "'t ext \<Rightarrow> uv_call \<Rightarrow> ('t, 'x) world_scheme stmt" where
  "uv_do E c w = (let r = uv_ret E (log w) c in Some (r, w\<lparr>log := (c, r) # log w\<rparr>))"

definition acquire ::
  "'t ext \<Rightarrow> block \<Rightarrow> u64 \<Rightarrow> (addr option \<Rightarrow> ('t, 'x) world_scheme \<Rightarrow> ('t, 'x) world_scheme) \<Rightarrow>
     ('t, 'x) world_scheme stmt" where
  "acquire E blk n store w =
     (let p = TN_MEM_ACQUIRE E (log w) blk n;
          w = store p (w\<lparr>log := (Mem_acquire blk n p, TN_SUCCESS) # log w\<rparr>)
      in Some (if p = None then UV_ENOMEM else TN_SUCCESS, w))"

text \<open>\<^verbatim>\<open>TN_GUARD_CLEANUP(tn_.._setup(&object, ..))\<close>: the object is assigned whether or not the call succeeds.\<close>

definition setup_obj :: "code \<times> 't \<Rightarrow> ('t \<Rightarrow> 's \<Rightarrow> 's) \<Rightarrow> 's stmt" where
  "setup_obj res store s = (case res of (r, x) \<Rightarrow> Some (r, store x s))"

definition uv_close :: "handle \<Rightarrow> close_cb option \<Rightarrow> ('t, 'x) world_scheme \<Rightarrow> ('t, 'x) world_scheme" where
  "uv_close h cb w = w\<lparr>log := (Uv_close h cb, TN_SUCCESS) # log w\<rparr>"

definition release_mem :: "addr option \<Rightarrow> ('t, 'x) world_scheme \<Rightarrow> ('t, 'x) world_scheme" where
  "release_mem p w = w\<lparr>log := mem_release p (log w)\<rparr>"

section \<open>Links of the service\<close>

text \<open>The link behind a link pointer, and an assignment to fields of that link.\<close>

definition deref_link :: "('t, 'x) world_scheme \<Rightarrow> nat \<Rightarrow> 't svl_link option" where
  "deref_link w i =
     (if i < length (client_map (link_list w)) then Some (client_map (link_list w) ! i) else None)"

definition upd_link ::
  "nat \<Rightarrow> ('t svl_link \<Rightarrow> 't svl_link) \<Rightarrow> ('t, 'x) world_scheme \<Rightarrow> ('t, 'x) world_scheme" where
  "upd_link i f w =
     w\<lparr>link_list := (link_list w)\<lparr>client_map := (client_map (link_list w))[i := f (client_map (link_list w) ! i)]\<rparr>\<rparr>"

lemma deref_link_Some:
  "deref_link w i = Some x \<longleftrightarrow> i < length (client_map (link_list w)) \<and> x = client_map (link_list w) ! i"
  by (auto simp: deref_link_def)

lemma deref_upd_link:
  "deref_link (upd_link i f w) j = (if i = j then map_option f (deref_link w j) else deref_link w j)"
  by (auto simp: deref_link_def upd_link_def)

lemma upd_link_frame [svl_frame]:
  "log (upd_link i f w) = log w"
  "handle_data (upd_link i f w) = handle_data w"
  "req_data (upd_link i f w) = req_data w"
  "events (upd_link i f w) = events w"
  "cmds (upd_link i f w) = cmds w"
  "pool_read (upd_link i f w) = pool_read w"
  "priv_data (upd_link i f w) = priv_data w"
  "stats (upd_link i f w) = stats w"
  "service_state (upd_link i f w) = service_state w"
  "client_list_free (link_list (upd_link i f w)) = client_list_free (link_list w)"
  "clients_max (link_list (upd_link i f w)) = clients_max (link_list w)"
  "length (client_map (link_list (upd_link i f w))) = length (client_map (link_list w))"
  by (simp_all add: upd_link_def)

declare uv_do_def [svl_defs] acquire_def [svl_defs] setup_obj_def [svl_defs] uv_close_def [svl_defs]
  release_mem_def [svl_defs] deref_link_def [svl_defs] upd_link_def [svl_defs] assign_def [svl_defs]
  SVL_SERVICE_MAX_RECV_def [svl_defs] zero_priv_def [svl_defs] zero_service_def [svl_defs]

end
