(* ===== verification/Svl_Service.thy ===== *)
theory Svl_Service
  imports Svl_World
begin

text \<open>
  The service as the main thread uses it: \<^verbatim>\<open>src/svlynx/service.c\<close>, except for the body of the IO thread
  (theory \<^verbatim>\<open>Svl_IO_Thread\<close>) and the configuration (\<^verbatim>\<open>Svl_Config\<close>).

  Setup and cleanup, the state changes of start and stop, taking and returning events, and queueing
  commands for the IO thread.
\<close>

section \<open>State\<close>

definition svl_service_set_state :: "svl_service_state_t \<Rightarrow> ('t, 'x) world_scheme \<Rightarrow> ('t, 'x) world_scheme" where
  "svl_service_set_state st w = w\<lparr>service_state := st\<rparr>"

definition svl_service_state :: "('t, 'x) world_scheme \<Rightarrow> svl_service_state_t" where
  "svl_service_state w = service_state w"

section \<open>Setup and cleanup\<close>

text \<open>
  The loop over the write requests at the end of setup: \<open>k\<close> iterations are left, the next one is for
  index \<open>i\<close>.
\<close>

fun setup_write_reqs :: "'t ext \<Rightarrow> nat \<Rightarrow> nat \<Rightarrow> 't world stmt" where
  "setup_write_reqs E 0 i w = Some (TN_SUCCESS, w)"
| "setup_write_reqs E (Suc k) i w =
     (if length (write_reqs w) \<le> i then None
      else
        let w = w\<lparr>write_reqs := (write_reqs w)[i := (write_reqs w ! i)\<lparr>wr_id := of_nat i\<rparr>]\<rparr> in
        (case tn_queue_spsc_push E (write_reqs_free w) i of (r, q) \<Rightarrow>
           let w = w\<lparr>write_reqs_free := q\<rparr> in
           if r \<noteq> TN_SUCCESS then Some (r, w)
           else if length (event_updates w) \<le> i then None
           else setup_write_reqs E k (Suc i) (w\<lparr>event_updates := (event_updates w)[i := None]\<rparr>)))"

definition link_list_setup_stmt :: "'t ext \<Rightarrow> 't world stmt" where
  "link_list_setup_stmt E w =
     (case svl_link_list_setup E (client_count_max w) (log w) of
        None \<Rightarrow> None
      | Some (r, l, lg) \<Rightarrow> Some (r, w\<lparr>link_list := l, log := lg\<rparr>))"

text \<open>
  \<open>junk\<close> is what the memory of the write requests holds when the allocator returns it.  The event
  pointers are also uninitialised until the loop stores null pointers.
\<close>

definition setup_stmts :: "'t ext \<Rightarrow> svl_service_write_req \<Rightarrow> 't world \<Rightarrow> 't world stmt list" where
  "setup_stmts E junk w0 =
     (let n = client_count_max w0 * 4 in
      [link_list_setup_stmt E,
       assign (\<lambda>w. w\<lparr>buffer_count := n\<rparr>),
       setup_obj (tn_buffer_pool_setup E n SVL_SERVICE_MAX_RECV) (\<lambda>x w. w\<lparr>pool_read := x\<rparr>),
       setup_obj (tn_buffer_pool_setup E n SVL_SERVICE_MAX_RECV) (\<lambda>x w. w\<lparr>pool_write := x\<rparr>),
       setup_obj (tn_cmd_list_setup E n) (\<lambda>x w. w\<lparr>cmds := x\<rparr>),
       setup_obj (tn_event_list_setup E n) (\<lambda>x w. w\<lparr>events := x\<rparr>),
       acquire E Blk_event_ptr (array_bytes E Blk_event_ptr n)
         (\<lambda>p w. w\<lparr>event_updates_ptr := p, event_updates := replicate (array_len E Blk_event_ptr n) None\<rparr>),
       acquire E Blk_write_req (array_bytes E Blk_write_req n)
         (\<lambda>p w. w\<lparr>write_reqs_ptr := p, write_reqs := replicate (array_len E Blk_write_req n) junk\<rparr>),
       setup_obj (tn_queue_spsc_setup E n) (\<lambda>x w. w\<lparr>write_reqs_free := x\<rparr>),
       setup_obj (tn_queue_spsc_setup E n) (\<lambda>x w. w\<lparr>write_reqs_ready := x\<rparr>),
       setup_write_reqs E (unat n) 0])"

definition service_release :: "'t ext \<Rightarrow> 't world \<Rightarrow> 't world" where
  "service_release E w =
     (let w = (release_mem (event_updates_ptr w) w)\<lparr>event_updates_ptr := released_ptr E (event_updates_ptr w)\<rparr>;
          w = (release_mem (write_reqs_ptr w) w)\<lparr>write_reqs_ptr := released_ptr E (write_reqs_ptr w)\<rparr>;
          w = (release_mem (service_priv w) w)\<lparr>service_priv := released_ptr E (service_priv w)\<rparr>
      in w)"

definition svl_service_setup ::
  "'t ext \<Rightarrow> svl_service_write_req \<Rightarrow> u64 \<Rightarrow> 't world \<Rightarrow> (code \<times> 't world) option" where
  "svl_service_setup E junk max_clients w =
     (if max_clients = 0 then None
      else
        let w = (zero_service E w)\<lparr>client_count_max := max_clients\<rparr>;
            w = svl_service_set_state SVL_SERVICE_NEW w
        in (case acquire E Blk_priv (sizeof E Blk_priv) (\<lambda>p w. w\<lparr>service_priv := p\<rparr>) w of
              None \<Rightarrow> None
            | Some (r, w) \<Rightarrow>
                if r \<noteq> TN_SUCCESS then Some (TN_ERROR, w)
                else
                  let w = w\<lparr>priv_data := zero_priv E\<rparr> in
                  (case guards (setup_stmts E junk w) w of
                     None \<Rightarrow> None
                   | Some (r, w) \<Rightarrow>
                       if r = TN_SUCCESS then Some (TN_SUCCESS, w)
                       else Some (TN_ERROR, service_release E w))))"

definition svl_service_cleanup :: "'t ext \<Rightarrow> 't world \<Rightarrow> 't world" where
  "svl_service_cleanup E w =
     (if service_priv w = None then w
      else
        let (_, l, lg) = svl_link_list_cleanup E (link_list w) (log w);
            w = w\<lparr>link_list := l, log := lg,
                  pool_read := tn_buffer_pool_cleanup E (pool_read w),
                  pool_write := tn_buffer_pool_cleanup E (pool_write w),
                  cmds := tn_cmd_list_cleanup E (cmds w),
                  events := tn_event_list_cleanup E (events w),
                  write_reqs_free := tn_queue_spsc_cleanup E (write_reqs_free w),
                  write_reqs_ready := tn_queue_spsc_cleanup E (write_reqs_ready w)\<rparr>
        in service_release E w)"

section \<open>Listen, start, stop\<close>

definition svl_service_listen :: "tn_endpoint_t \<Rightarrow> 't world \<Rightarrow> code \<times> 't world" where
  "svl_service_listen endpoint w =
     (let state = svl_service_state w in
      if state \<noteq> SVL_SERVICE_NEW \<and> state \<noteq> SVL_SERVICE_STOPPED \<and> state \<noteq> SVL_SERVICE_ERROR
      then (TN_ERROR, w)
      else (TN_SUCCESS, w\<lparr>host_listen := endpoint\<rparr>))"

text \<open>
  Starting launches the IO thread; \<^verbatim>\<open>tn_thread_launch\<close> returns at once, so the body of the thread is not
  part of this function.
\<close>

definition svl_service_start :: "'t ext \<Rightarrow> 't world \<Rightarrow> code \<times> 't world" where
  "svl_service_start E w =
     (let go = (let w = svl_service_set_state SVL_SERVICE_STARTING w;
                    r = uv_ret E (log w) Thread_launch;
                    w = w\<lparr>log := (Thread_launch, r) # log w\<rparr>
                in if r \<noteq> TN_SUCCESS then (TN_ERROR, w) else (TN_SUCCESS, w))
      in case svl_service_state w of
           SVL_SERVICE_STARTING \<Rightarrow> (TN_SUCCESS, w)
         | SVL_SERVICE_STARTED \<Rightarrow> (TN_SUCCESS, w)
         | SVL_SERVICE_NEW \<Rightarrow> go
         | SVL_SERVICE_STOPPED \<Rightarrow> go
         | SVL_SERVICE_STOPPING \<Rightarrow> (TN_ERROR, w)
         | SVL_SERVICE_ERROR \<Rightarrow> (TN_ERROR, w)
         | SVL_SERVICE_INVALID \<Rightarrow> (TN_ERROR, w))"

text \<open>
  Stopping stores the state and joins the IO thread; \<open>io\<close> is what the IO thread still does to the
  world until it ends, while the main thread is blocked in the join.
\<close>

definition svl_service_stop :: "'t ext \<Rightarrow> ('t world \<Rightarrow> 't world) \<Rightarrow> 't world \<Rightarrow> code \<times> 't world" where
  "svl_service_stop E io w =
     (let go = (let w = svl_service_set_state SVL_SERVICE_STOPPING w;
                    w = io w;
                    r = uv_ret E (log w) Thread_join;
                    w = w\<lparr>log := (Thread_join, r) # log w\<rparr>
                in if r \<noteq> TN_SUCCESS then (TN_ERROR, svl_service_set_state SVL_SERVICE_ERROR w)
                   else (TN_SUCCESS, svl_service_set_state SVL_SERVICE_STOPPED w))
      in case svl_service_state w of
           SVL_SERVICE_NEW \<Rightarrow> (TN_SUCCESS, w)
         | SVL_SERVICE_STOPPING \<Rightarrow> (TN_SUCCESS, w)
         | SVL_SERVICE_STOPPED \<Rightarrow> (TN_SUCCESS, w)
         | SVL_SERVICE_STARTING \<Rightarrow> go
         | SVL_SERVICE_STARTED \<Rightarrow> go
         | SVL_SERVICE_ERROR \<Rightarrow> (TN_ERROR, w)
         | SVL_SERVICE_INVALID \<Rightarrow> (TN_ERROR, w))"

definition svl_service_stop_signal :: "('t, 'x) world_scheme \<Rightarrow> code \<times> ('t, 'x) world_scheme" where
  "svl_service_stop_signal w =
     (let state = svl_service_state w in
      if state = SVL_SERVICE_STOPPING \<or> state = SVL_SERVICE_STOPPED \<or> state = SVL_SERVICE_ERROR
      then (TN_ERROR, w)
      else (TN_SUCCESS, svl_service_set_state SVL_SERVICE_STOPPING w))"

section \<open>Events\<close>

text \<open>
  The out-parameters of acquire are the array of event pointers (null on failure) and a count; the
  array is \<open>event_updates\<close> of the resulting world, so only its null-ness is returned.  The list
  stores the events into that array, which must have room for them.
\<close>

definition svl_service_events_acquire :: "'t ext \<Rightarrow> 't world \<Rightarrow> (code \<times> bool \<times> u64 \<times> 't world) option" where
  "svl_service_events_acquire E w =
     (let w = w\<lparr>event_updates_count := 0\<rparr> in
      (case tn_event_list_ready_pop_all E (events w) (buffer_count w) of (r, es, l) \<Rightarrow>
         if length (event_updates w) < length es then None
         else
           let w = w\<lparr>events := l, event_updates := map Some es @ drop (length es) (event_updates w)\<rparr> in
           if r \<noteq> TN_SUCCESS then Some (TN_ERROR, False, 0, w)
           else Some (TN_SUCCESS, True, of_nat (length es), w\<lparr>event_updates_count := of_nat (length es)\<rparr>)))"

definition release_event :: "'t ext \<Rightarrow> 't tn_event \<Rightarrow> 't world \<Rightarrow> 't world option" where
  "release_event E e w =
     (case (if ev_type e = TN_EVENT_CLIENT_READ
            then (case ev_priv e of
                    None \<Rightarrow> None
                  | Some b \<Rightarrow> Some (w\<lparr>pool_read := snd (tn_buffer_pool_push E (pool_read w) b)\<rparr>))
            else Some w) of
        None \<Rightarrow> None
      | Some w \<Rightarrow> Some (w\<lparr>events := snd (tn_event_list_free_push E (events w) e)\<rparr>))"

text \<open>The loop of release: \<open>k\<close> iterations are left, the next one is for index \<open>i\<close>.\<close>

fun release_events :: "'t ext \<Rightarrow> nat \<Rightarrow> nat \<Rightarrow> 't world \<Rightarrow> 't world option" where
  "release_events E 0 i w = Some w"
| "release_events E (Suc k) i w =
     (if length (event_updates w) \<le> i then None
      else case event_updates w ! i of
             None \<Rightarrow> None
           | Some e \<Rightarrow>
               (case release_event E e w of None \<Rightarrow> None | Some w \<Rightarrow> release_events E k (Suc i) w))"

definition svl_service_events_release :: "'t ext \<Rightarrow> 't world \<Rightarrow> (code \<times> 't world) option" where
  "svl_service_events_release E w =
     (case release_events E (unat (event_updates_count w)) 0 w of
        None \<Rightarrow> None
      | Some w \<Rightarrow> Some (TN_SUCCESS, w))"

section \<open>Commands\<close>

text \<open>
  The common part of the three command functions: take a command of the given type off the stock,
  fill it in and queue it.  The result is the status, the value of the out-parameter \<^verbatim>\<open>cmd_id\<close> and
  the new world.
\<close>

definition queue_cmd ::
  "'t ext \<Rightarrow> tn_cmd_type_t \<Rightarrow> (tn_cmd \<Rightarrow> tn_cmd) \<Rightarrow> 't world \<Rightarrow> (code \<times> u64 \<times> 't world) option" where
  "queue_cmd E ty fill w =
     (case tn_cmd_list_free_pop E ty (cmds w) of (r, out, l) \<Rightarrow>
        let w = w\<lparr>cmds := l\<rparr> in
        if r \<noteq> TN_SUCCESS then Some (TN_ERROR, UINT64_MAX, w)
        else
          (case out of
             None \<Rightarrow> None
           | Some c \<Rightarrow>
               let c = fill c in
               (case tn_cmd_list_ready_push E (cmds w) c of (r, l) \<Rightarrow>
                  let w = w\<lparr>cmds := l\<rparr> in
                  if r \<noteq> TN_SUCCESS then Some (TN_ERROR, cmd_id c, w) else Some (TN_SUCCESS, cmd_id c, w))))"

definition svl_service_cmd_open :: "'t ext \<Rightarrow> tn_endpoint_t \<Rightarrow> 't world \<Rightarrow> (code \<times> u64 \<times> 't world) option" where
  "svl_service_cmd_open E endpoint w =
     (if svl_service_state w \<noteq> SVL_SERVICE_STARTED then Some (TN_ERROR, UINT64_MAX, w)
      else queue_cmd E TN_CMD_CLIENT_OPEN (\<lambda>c. c\<lparr>cmd_endpoint := endpoint\<rparr>) w)"

definition svl_service_cmd_close :: "'t ext \<Rightarrow> u64 \<Rightarrow> 't world \<Rightarrow> (code \<times> u64 \<times> 't world) option" where
  "svl_service_cmd_close E client_id w =
     (if svl_service_state w \<noteq> SVL_SERVICE_STARTED then Some (TN_ERROR, UINT64_MAX, w)
      else queue_cmd E TN_CMD_CLIENT_CLOSE (\<lambda>c. c\<lparr>cmd_client_id := client_id\<rparr>) w)"

definition svl_service_cmd_send ::
  "'t ext \<Rightarrow> u64 \<Rightarrow> u8 list \<Rightarrow> u64 \<Rightarrow> 't world \<Rightarrow> (code \<times> u64 \<times> 't world) option" where
  "svl_service_cmd_send E client_id msg msglen w =
     (if msglen = 0 then None
      else if svl_service_state w \<noteq> SVL_SERVICE_STARTED then Some (TN_ERROR, UINT64_MAX, w)
      else
        (case tn_queue_spsc_peek E (write_reqs_free w) of (r, req) \<Rightarrow>
           if r \<noteq> TN_SUCCESS then Some (TN_ERROR, UINT64_MAX, w)
           else queue_cmd E TN_CMD_CLIENT_SEND
             (\<lambda>c. c\<lparr>cmd_client_id := client_id, cmd_buffer := msg, cmd_len := msglen, cmd_priv := req\<rparr>) w))"

section \<open>Statistics\<close>

definition svl_service_stats_clear :: "'t world \<Rightarrow> code \<times> 't world" where
  "svl_service_stats_clear w = (TN_SUCCESS, w)"

text \<open>The structure that the caller passes in is left as it is.\<close>

record svl_service_stats_t =
  stats_recv_count :: u64
  stats_recv_bytes :: u64
  stats_send_count :: u64
  stats_send_bytes :: u64
  stats_tstamp_last :: u64

definition svl_service_stats_get :: "'t world \<Rightarrow> svl_service_stats_t \<Rightarrow> code \<times> svl_service_stats_t" where
  "svl_service_stats_get w st = (TN_SUCCESS, st)"

declare svl_service_set_state_def [svl_defs] svl_service_state_def [svl_defs]

end
