(* ===== verification/Svl_Internal.thy ===== *)
theory Svl_Internal
  imports Svl_Service
begin

text \<open>
  The callbacks of the IO thread: \<^verbatim>\<open>src/svlynx/service_internal.c\<close>.

  libuv calls them one at a time.  Each is a function from the world to the world it leaves, or
  \<open>None\<close> where the C code has no defined behaviour.  The callbacks that set a connection up are
  sequences of guarded statements over a stack frame (\<open>frame\<close>, the world extended by the local
  variables) followed by the code at their \<^verbatim>\<open>cleanup\<close> label.
\<close>

section \<open>Signals and closing\<close>

definition on_sigint_cb :: "bool \<Rightarrow> 't world \<Rightarrow> 't world" where
  "on_sigint_cb is_sigint w = (if \<not> is_sigint then w else snd (svl_service_stop_signal w))"

definition on_close_handle_cb :: "handle \<Rightarrow> 't world \<Rightarrow> 't world" where
  "on_close_handle_cb h w = release_mem (Some h) w"

definition on_close_link_cb :: "'t ext \<Rightarrow> handle \<Rightarrow> 't world \<Rightarrow> 't world option" where
  "on_close_link_cb E h w =
     (case handle_data w h of
        None \<Rightarrow> None
      | Some i \<Rightarrow>
          (case deref_link w i of
             None \<Rightarrow> None
           | Some link \<Rightarrow>
               if \<not> link_service link then None
               else
                 let w = upd_link i (\<lambda>l. l\<lparr>link_state := SVL_LINK_CLOSED\<rparr>) w;
                     w = (case read_buffer link of
                            None \<Rightarrow> w
                          | Some b \<Rightarrow>
                              upd_link i (\<lambda>l. l\<lparr>read_buffer := None\<rparr>)
                                (w\<lparr>pool_read := snd (tn_buffer_pool_push E (pool_read w) b)\<rparr>))
                 in (case tn_event_list_free_pop E TN_EVENT_CLIENT_CLOSE (events w) of (r, out, l) \<Rightarrow>
                       let w = w\<lparr>events := l\<rparr> in
                       if r \<noteq> TN_SUCCESS then Some (release_mem (Some h) w)
                       else
                         (case out of
                            None \<Rightarrow> None
                          | Some e \<Rightarrow>
                              let e = e\<lparr>ev_client_id := link_id link, ev_error_code := TN_SUCCESS,
                                        ev_cmd_id := cmd_close_id link\<rparr>;
                                  w = w\<lparr>events := snd (tn_event_list_ready_push E (events w) e)\<rparr>;
                                  w = w\<lparr>link_list := snd (svl_link_list_close E (link_list w) i)\<rparr>
                              in Some (release_mem (Some h) w)))))"

section \<open>Sending and receiving\<close>

definition on_send_cb :: "'t ext \<Rightarrow> nat \<Rightarrow> code \<Rightarrow> 't world \<Rightarrow> 't world option" where
  "on_send_cb E q st w =
     (if length (send_req (priv_data w)) \<le> q then None
      else
        let req = send_req (priv_data w) ! q in
        (case wr_link req of
           None \<Rightarrow> None
         | Some i \<Rightarrow>
             (case deref_link w i of
                None \<Rightarrow> None
              | Some link \<Rightarrow>
                  if \<not> link_service link \<or> service_priv w = None then None
                  else
                    let w = (if st \<noteq> TN_SUCCESS then w
                             else w\<lparr>stats := (stats w)\<lparr>send_msgs := send_msgs (stats w) + 1,
                                                       send_bytes := send_bytes (stats w) + wr_len req\<rparr>\<rparr>)
                    in Some (w\<lparr>priv_data := (priv_data w)
                              \<lparr>send_req_list := snd (tn_list_ptr_push_back E (send_req_list (priv_data w)) q)\<rparr>\<rparr>))))"

text \<open>The buffer libuv is given: its length, or \<open>None\<close> for a null base and length zero.\<close>

definition on_recv_alloc_cb :: "'t ext \<Rightarrow> handle \<Rightarrow> 't world \<Rightarrow> (u64 option \<times> 't world) option" where
  "on_recv_alloc_cb E h w =
     (case handle_data w h of
        None \<Rightarrow> None
      | Some i \<Rightarrow>
          (case deref_link w i of
             None \<Rightarrow> None
           | Some link \<Rightarrow>
               (case read_buffer link of
                  Some b \<Rightarrow> Some (Some (TN_BUFLEN_CAST E (tn_buffer_remaining E b)), w)
                | None \<Rightarrow>
                    if \<not> link_service link then None
                    else
                      (case tn_buffer_pool_pop_back E (pool_read w) None of (r, out, p) \<Rightarrow>
                         let w = upd_link i (\<lambda>l. l\<lparr>read_buffer := out\<rparr>) (w\<lparr>pool_read := p\<rparr>) in
                         if r \<noteq> TN_SUCCESS then Some (None, w)
                         else
                           (case out of
                              None \<Rightarrow> None
                            | Some b \<Rightarrow> Some (Some (TN_BUFLEN_CAST E (tn_buffer_remaining E b)), w))))))"

definition recv_cleanup :: "'t ext \<Rightarrow> handle \<Rightarrow> nat \<Rightarrow> code \<Rightarrow> bool \<Rightarrow> 't world \<Rightarrow> 't world" where
  "recv_cleanup E h i ret close_link w =
     (let w = upd_link i (\<lambda>l. l\<lparr>error_code := ret\<rparr>) w in
      if close_link \<and> \<not> uv_is_closing E (log w) h
      then uv_close h (Some On_close_link_cb) (upd_link i (\<lambda>l. l\<lparr>link_state := SVL_LINK_CLOSING\<rparr>) w)
      else w)"

text \<open>
  \<open>nread\<close> is the number of bytes the kernel stored, or a negative status; \<open>buf\<close> is null or the bytes
  it stored at the write pointer of the link's buffer.
\<close>

definition on_recv_cb :: "'t ext \<Rightarrow> handle \<Rightarrow> int \<Rightarrow> u8 list option \<Rightarrow> 't world \<Rightarrow> 't world option" where
  "on_recv_cb E h nread buf w =
     (case handle_data w h of
        None \<Rightarrow> None
      | Some i \<Rightarrow>
          (case deref_link w i of
             None \<Rightarrow> None
           | Some link \<Rightarrow>
               if nread < 0 then Some (recv_cleanup E h i (Errno nread) True w)
               else
                 (case (if nread = 0 then None else buf) of
                    None \<Rightarrow> Some (recv_cleanup E h i TN_RECV_ERROR False w)
                  | Some bytes \<Rightarrow>
                      let w = w\<lparr>stats := (stats w)\<lparr>recv_msgs := recv_msgs (stats w) + 1,
                                                  recv_bytes := recv_bytes (stats w) + of_int nread\<rparr>\<rparr> in
                      (case read_buffer link of
                         None \<Rightarrow> None
                       | Some b \<Rightarrow>
                           (case tn_buffer_add_length E (kernel_store E b bytes) (of_int nread) of (r, b) \<Rightarrow>
                              let w = upd_link i (\<lambda>l. l\<lparr>read_buffer := Some b\<rparr>) w in
                              if r \<noteq> TN_SUCCESS then Some (recv_cleanup E h i TN_RECV_EBUF False w)
                              else if \<not> link_service link then None
                              else
                                (case tn_event_list_free_pop E TN_EVENT_CLIENT_READ (events w) of (r, out, l) \<Rightarrow>
                                   let w = w\<lparr>events := l\<rparr> in
                                   if r \<noteq> TN_SUCCESS then Some (recv_cleanup E h i TN_RECV_EVTPOP False w)
                                   else
                                     (case out of
                                        None \<Rightarrow> None
                                      | Some e \<Rightarrow>
                                          let e = e\<lparr>ev_client_id := link_id link, ev_priv := Some b,
                                                    ev_buffer := tn_buffer_read_ptr E b,
                                                    ev_len := ucast (TN_BUFLEN_CAST E (tn_buffer_read_length E b))\<rparr> in
                                          (case tn_event_list_ready_push E (events w) e of (r, l) \<Rightarrow>
                                             let w = w\<lparr>events := l\<rparr> in
                                             if r \<noteq> TN_SUCCESS
                                             then Some (recv_cleanup E h i TN_RECV_EVTPUSH False w)
                                             else Some (upd_link i (\<lambda>l. l\<lparr>read_buffer := None\<rparr>) w)))))))))"

section \<open>Stack frames of the connection callbacks\<close>

record 't frame = "'t world" +
  client_handle :: "handle option"
  handle_is_init :: bool
  connect_req :: "addr option"
  link_ptr :: "nat option"
  sock_addr :: "u8 list"
  open_evt :: "'t tn_event option"

definition enter :: "handle option \<Rightarrow> addr option \<Rightarrow> nat option \<Rightarrow> 't world \<Rightarrow> 't frame" where
  "enter h q i w = world.extend w (frame.fields h False q i [] None)"

definition leave :: "'t frame \<Rightarrow> 't world" where
  "leave f = world.truncate f"

definition with_handle :: "(handle \<Rightarrow> 't frame stmt) \<Rightarrow> 't frame stmt" where
  "with_handle p f = (case client_handle f of None \<Rightarrow> None | Some h \<Rightarrow> p h f)"

definition with_link :: "(nat \<Rightarrow> 't frame stmt) \<Rightarrow> 't frame stmt" where
  "with_link p f =
     (case link_ptr f of
        None \<Rightarrow> None
      | Some i \<Rightarrow> if deref_link f i = None then None else p i f)"

definition open_link :: "'t ext \<Rightarrow> 't frame stmt" where
  "open_link E f =
     (case svl_link_list_open E (link_list f) (link_ptr f) of
        None \<Rightarrow> None
      | Some (r, out, l) \<Rightarrow> Some (r, f\<lparr>link_ptr := out, link_list := l\<rparr>))"

text \<open>\<^verbatim>\<open>tn_endpoint_convert_from(&link->endpoint_remote, &addr)\<close>\<close>

definition convert_remote :: "'t ext \<Rightarrow> 't frame stmt" where
  "convert_remote E =
     with_link (\<lambda>i f. case tn_endpoint_convert_from E (sock_addr f) of (r, ep) \<Rightarrow>
       Some (r, upd_link i (\<lambda>l. l\<lparr>endpoint_remote := ep\<rparr>) f))"

definition getpeername :: "'t ext \<Rightarrow> 't frame stmt" where
  "getpeername E = with_handle (\<lambda>h f. uv_do E (Uv_getpeername h) (f\<lparr>sock_addr := uv_peer E (log f) h\<rparr>))"

definition getsockname :: "'t ext \<Rightarrow> 't frame stmt" where
  "getsockname E = with_handle (\<lambda>h f. uv_do E (Uv_getsockname h) (f\<lparr>sock_addr := uv_sock E (log f) h\<rparr>))"

definition pop_open_evt :: "'t ext \<Rightarrow> 't frame stmt" where
  "pop_open_evt E f =
     (case tn_event_list_free_pop E TN_EVENT_CLIENT_OPEN (events f) of (r, out, l) \<Rightarrow>
        Some (r, f\<lparr>events := l, open_evt := out\<rparr>))"

text \<open>The assignments to the open event; an inbound connection leaves the command id as it is.\<close>

definition fill_open_evt :: "bool \<Rightarrow> 't frame stmt" where
  "fill_open_evt outbound =
     with_link (\<lambda>i f.
       case open_evt f of
         None \<Rightarrow> None
       | Some e \<Rightarrow>
           let link = client_map (link_list f) ! i;
               e = e\<lparr>ev_type := TN_EVENT_CLIENT_OPEN, ev_client_id := link_id link, ev_host := endpoint_remote link\<rparr>;
               e = (if outbound then e\<lparr>ev_cmd_id := cmd_open_id link\<rparr> else e)
           in Some (TN_SUCCESS, f\<lparr>open_evt := Some e\<rparr>))"

definition push_open_evt :: "'t ext \<Rightarrow> 't frame stmt" where
  "push_open_evt E f =
     (case open_evt f of
        None \<Rightarrow> None
      | Some e \<Rightarrow>
          (case tn_event_list_ready_push E (events f) e of (r, l) \<Rightarrow> Some (r, f\<lparr>events := l\<rparr>)))"

definition set_handle_data :: "'t frame stmt" where
  "set_handle_data = with_handle (\<lambda>h f. Some (TN_SUCCESS, f\<lparr>handle_data := (handle_data f)(h := link_ptr f)\<rparr>))"

section \<open>Inbound connections\<close>

definition init_inbound_link :: "'t frame stmt" where
  "init_inbound_link =
     with_link (\<lambda>i f. Some (TN_SUCCESS, upd_link i
       (\<lambda>l. l\<lparr>link_priv := client_handle f, link_service := True, read_state := SVL_LINK_READ_HEADER,
             link_state := SVL_LINK_OPEN, error_code := TN_SUCCESS, read_buffer := None,
             last_msg_id := 0\<rparr>) f))"

definition inbound_stmts :: "'t ext \<Rightarrow> 't frame stmt list" where
  "inbound_stmts E =
     [acquire E Blk_tcp (sizeof E Blk_tcp) (\<lambda>p f. f\<lparr>client_handle := p\<rparr>),
      with_handle (\<lambda>h. uv_do E (Uv_tcp_init h)),
      assign (\<lambda>f. f\<lparr>handle_is_init := True\<rparr>),
      with_handle (\<lambda>h. uv_do E (Uv_accept h)),
      open_link E,
      set_handle_data,
      init_inbound_link,
      getpeername E, convert_remote E,
      getsockname E, convert_remote E,
      pop_open_evt E, fill_open_evt False, push_open_evt E,
      with_handle (\<lambda>h. uv_do E (Uv_read_start h))]"

definition inbound_cleanup :: "'t frame \<Rightarrow> 't frame" where
  "inbound_cleanup f =
     (case client_handle f of
        None \<Rightarrow> f
      | Some h \<Rightarrow>
          (case link_ptr f of
             Some i \<Rightarrow>
               uv_close h (Some On_close_link_cb) (upd_link i (\<lambda>l. l\<lparr>link_state := SVL_LINK_CLOSING\<rparr>) f)
           | None \<Rightarrow> if handle_is_init f then uv_close h (Some On_close_handle_cb) f else f))"

definition on_inbound_connection_cb :: "'t ext \<Rightarrow> code \<Rightarrow> 't world \<Rightarrow> 't world option" where
  "on_inbound_connection_cb E st w =
     (if st \<noteq> TN_SUCCESS then Some w
      else if service_priv w = None then None
      else
        (case guards (inbound_stmts E) (enter None None None w) of
           None \<Rightarrow> None
         | Some (r, f) \<Rightarrow> Some (leave (if r = TN_SUCCESS then f else inbound_cleanup f))))"

section \<open>Outbound connections\<close>

definition outbound_stmts :: "'t ext \<Rightarrow> 't frame stmt list" where
  "outbound_stmts E =
     [getpeername E, convert_remote E,
      getsockname E, convert_remote E,
      pop_open_evt E, fill_open_evt True, push_open_evt E,
      with_link (\<lambda>i f. Some (TN_SUCCESS, upd_link i (\<lambda>l. l\<lparr>link_state := SVL_LINK_OPEN\<rparr>) f)),
      with_handle (\<lambda>h. uv_do E (Uv_read_start h))]"

text \<open>
  \<open>q\<close> is the connect request and \<open>qh\<close> its \<^verbatim>\<open>handle\<close> field.  With a failure status the code jumps to
  \<^verbatim>\<open>cleanup\<close> before it has assigned \<^verbatim>\<open>link\<close> and \<^verbatim>\<open>client_handle\<close>, which the code there uses.
\<close>

definition on_outbound_connection_cb :: "'t ext \<Rightarrow> addr \<Rightarrow> handle \<Rightarrow> code \<Rightarrow> 't world \<Rightarrow> 't world option" where
  "on_outbound_connection_cb E q qh st w =
     (case req_data w q of
        None \<Rightarrow> None
      | Some i \<Rightarrow>
          if st \<noteq> TN_SUCCESS then None
          else
            (case deref_link w i of
               None \<Rightarrow> None
             | Some link \<Rightarrow>
                 if link_priv link \<noteq> Some qh \<or> \<not> link_service link \<or> service_priv w = None then None
                 else
                   (case guards (outbound_stmts E) (enter (Some qh) (Some q) (Some i) w) of
                      None \<Rightarrow> None
                    | Some (r, f) \<Rightarrow>
                        if r = TN_SUCCESS then Some (release_mem (Some q) (leave f))
                        else Some (uv_close qh (Some On_close_link_cb)
                               (upd_link i (\<lambda>l. l\<lparr>link_state := SVL_LINK_CLOSING\<rparr>)
                                 (release_mem (Some q) (leave f)))))))"

section \<open>Timer, prepare and walk callbacks\<close>

definition safe_close_uv_handle :: "'t ext \<Rightarrow> handle option \<Rightarrow> 't world \<Rightarrow> 't world" where
  "safe_close_uv_handle E p w =
     (case p of None \<Rightarrow> w | Some h \<Rightarrow> if uv_is_closing E (log w) h then w else uv_close h None w)"

definition on_timer_cb :: "'t ext \<Rightarrow> 't world \<Rightarrow> 't world" where
  "on_timer_cb E w =
     (if svl_service_state w \<noteq> SVL_SERVICE_STARTED
      then
        let p = priv_data w;
            w = safe_close_uv_handle E (tcp_handle p) w;
            w = safe_close_uv_handle E (uv_accept_timer p) w;
            w = safe_close_uv_handle E (uv_prep p) w;
            w = safe_close_uv_handle E (uv_check p) w;
            w = safe_close_uv_handle E (uv_signal p) w
        in w
      else w)"

definition on_prep_cb :: "'t world \<Rightarrow> 't world" where
  "on_prep_cb w = w"

definition on_walk_cb :: "'t ext \<Rightarrow> handle \<Rightarrow> 't world \<Rightarrow> 't world" where
  "on_walk_cb E h w = (if uv_is_closing E (log w) h then w else uv_close h None w)"

section \<open>Commands\<close>

definition init_outbound_link :: "tn_cmd \<Rightarrow> 't frame stmt" where
  "init_outbound_link c =
     with_link (\<lambda>i f. Some (TN_SUCCESS, upd_link i
       (\<lambda>l. l\<lparr>link_priv := client_handle f, link_service := True, read_state := SVL_LINK_READ_HEADER,
             link_state := SVL_LINK_NEW, error_code := TN_SUCCESS, read_buffer := None,
             cmd_open_id := cmd_id c\<rparr>) f))"

definition set_req_data :: "'t frame stmt" where
  "set_req_data f =
     (case connect_req f of
        None \<Rightarrow> None
      | Some q \<Rightarrow> Some (TN_SUCCESS, f\<lparr>req_data := (req_data f)(q := link_ptr f)\<rparr>))"

definition tcp_connect :: "'t ext \<Rightarrow> tn_cmd \<Rightarrow> 't frame stmt" where
  "tcp_connect E c f =
     (case connect_req f of
        None \<Rightarrow> None
      | Some q \<Rightarrow> with_handle (\<lambda>h. uv_do E (Uv_tcp_connect q h (cmd_endpoint c))) f)"

definition cmd_open_stmts :: "'t ext \<Rightarrow> tn_cmd \<Rightarrow> 't frame stmt list" where
  "cmd_open_stmts E c =
     [acquire E Blk_tcp (sizeof E Blk_tcp) (\<lambda>p f. f\<lparr>client_handle := p\<rparr>),
      with_handle (\<lambda>h. uv_do E (Uv_tcp_init h)),
      assign (\<lambda>f. f\<lparr>handle_is_init := True\<rparr>),
      acquire E Blk_connect (sizeof E Blk_connect) (\<lambda>p f. f\<lparr>connect_req := p\<rparr>),
      open_link E,
      init_outbound_link c,
      set_req_data,
      set_handle_data,
      tcp_connect E c]"

definition cmd_open_cleanup :: "'t ext \<Rightarrow> 't frame \<Rightarrow> 't frame" where
  "cmd_open_cleanup E f =
     (let f = release_mem (connect_req f) f;
          f = (case link_ptr f of
                 None \<Rightarrow> f
               | Some i \<Rightarrow> f\<lparr>link_list := snd (svl_link_list_close E (link_list f) i)\<rparr>)
      in (case client_handle f of
            None \<Rightarrow> f
          | Some h \<Rightarrow> uv_close h (Some On_close_handle_cb) f))"

definition handle_cmd_open :: "'t ext \<Rightarrow> tn_cmd \<Rightarrow> 't world \<Rightarrow> 't world option" where
  "handle_cmd_open E c w =
     (case guards (cmd_open_stmts E c) (enter None None None w) of
        None \<Rightarrow> None
      | Some (r, f) \<Rightarrow> Some (leave (if r = TN_SUCCESS then f else cmd_open_cleanup E f)))"

text \<open>
  The test \<^verbatim>\<open>!link->priv || link->state != SVL_LINK_OPEN || uv_is_closing(link->priv)\<close>, evaluated from the
  left.
\<close>

definition link_unusable :: "'t ext \<Rightarrow> 't svl_link \<Rightarrow> 't world \<Rightarrow> bool" where
  "link_unusable E link w =
     (case link_priv link of
        None \<Rightarrow> True
      | Some h \<Rightarrow> link_state link \<noteq> SVL_LINK_OPEN \<or> uv_is_closing E (log w) h)"

definition handle_cmd_close :: "'t ext \<Rightarrow> tn_cmd \<Rightarrow> 't world \<Rightarrow> 't world option" where
  "handle_cmd_close E c w =
     (case svl_link_list_get (link_list w) (cmd_client_id c) of (r, out) \<Rightarrow>
        if r \<noteq> TN_SUCCESS then Some w
        else
          (case out of
             None \<Rightarrow> None
           | Some i \<Rightarrow>
               (case deref_link w i of
                  None \<Rightarrow> None
                | Some link \<Rightarrow>
                    if link_unusable E link w then Some w
                    else Some (uv_close (the (link_priv link)) (Some On_close_link_cb)
                           (upd_link i (\<lambda>l. l\<lparr>cmd_close_id := cmd_id c, link_state := SVL_LINK_CLOSING\<rparr>) w)))))"

definition handle_cmd_send :: "'t ext \<Rightarrow> tn_cmd \<Rightarrow> 't world \<Rightarrow> 't world option" where
  "handle_cmd_send E c w =
     (case svl_link_list_get (link_list w) (cmd_client_id c) of (r, out) \<Rightarrow>
        if r \<noteq> TN_SUCCESS then Some w
        else
          (case out of
             None \<Rightarrow> None
           | Some i \<Rightarrow>
               (case deref_link w i of
                  None \<Rightarrow> None
                | Some link \<Rightarrow>
                    if link_unusable E link w then Some w
                    else
                      (case tn_list_ptr_pop_back E (send_req_list (priv_data w)) None of (r, req, l) \<Rightarrow>
                         let w = w\<lparr>priv_data := (priv_data w)\<lparr>send_req_list := l\<rparr>\<rparr> in
                         if r \<noteq> TN_SUCCESS then Some w
                         else
                           (case req of
                              None \<Rightarrow> None
                            | Some q \<Rightarrow>
                                if length (send_req (priv_data w)) \<le> q then None
                                else
                                  let sr = (send_req (priv_data w) ! q)
                                         \<lparr>wr_cmd_id := cmd_id c, wr_link := Some i,
                                          wr_base := cmd_buffer c, wr_len := TN_BUFLEN_CAST E (cmd_len c)\<rparr>;
                                      w = w\<lparr>priv_data := (priv_data w)\<lparr>send_req := (send_req (priv_data w))[q := sr]\<rparr>\<rparr>;
                                      call = Uv_write q (the (link_priv link)) (take (unat (wr_len sr)) (wr_base sr));
                                      r = uv_ret E (log w) call;
                                      w = w\<lparr>log := (call, r) # log w\<rparr>
                                  in if r \<noteq> TN_SUCCESS
                                     then Some (w\<lparr>priv_data := (priv_data w)\<lparr>send_req_list :=
                                            snd (tn_list_ptr_push_back E (send_req_list (priv_data w)) q)\<rparr>\<rparr>)
                                     else Some w)))))"

definition handle_cmd :: "'t ext \<Rightarrow> tn_cmd \<Rightarrow> 't world \<Rightarrow> 't world option" where
  "handle_cmd E c w =
     (case cmd_type c of
        TN_CMD_CLIENT_OPEN \<Rightarrow> handle_cmd_open E c w
      | TN_CMD_CLIENT_CLOSE \<Rightarrow> handle_cmd_close E c w
      | TN_CMD_CLIENT_SEND \<Rightarrow> handle_cmd_send E c w
      | TN_CMD_NONE \<Rightarrow> Some w)"

text \<open>
  The loop takes commands until none is ready.  It has no bound of its own, so it is a partial
  function: \<open>None\<close> also stands for a loop that does not end.
\<close>

partial_function (option) on_check_cb :: "'t ext \<Rightarrow> 't world \<Rightarrow> 't world option" where
  "on_check_cb E w =
     (case tn_cmd_list_ready_pop_back E (cmds w) of (r, out, l) \<Rightarrow>
        let w = w\<lparr>cmds := l\<rparr> in
        if r \<noteq> TN_SUCCESS then Some w
        else
          (case out of
             None \<Rightarrow> None
           | Some c \<Rightarrow>
               (case handle_cmd E c w of
                  None \<Rightarrow> None
                | Some w \<Rightarrow> on_check_cb E (w\<lparr>cmds := snd (tn_cmd_list_free_push E (cmds w) c)\<rparr>))))"

end
