(* ===== verification/Svl_Invariant.thy ===== *)
theory Svl_Invariant
  imports Svl_Internal
begin

text \<open>
  The invariant of a running service, and the lemmas by which the callbacks keep it.

  Four resources circulate between the main thread, the IO thread and libuv: links, events, receive
  buffers and write requests.  The invariant accounts for each of them: every unit is in exactly
  one place.  For links it also ties the state of the link to the state of its libuv handle, as the
  log of calls shows it: an open link has an active handle whose \<^verbatim>\<open>data\<close> field points back at the
  link, a closing link has a handle for which \<^verbatim>\<open>uv_close\<close> was called with \<^verbatim>\<open>on_close_link_cb\<close>, and libuv
  has no callback outstanding for a link that is free.
\<close>

section \<open>What libuv still has to report\<close>

text \<open>Handles that are being read from, and connect requests that are under way.\<close>

fun reading :: "uv_log \<Rightarrow> handle \<Rightarrow> bool" where
  "reading [] h = False"
| "reading ((c, r) # lg) h =
     (case c of
        Uv_read_start g \<Rightarrow> (g = h \<and> r = TN_SUCCESS) \<or> reading lg h
      | Uv_close g _ \<Rightarrow> g \<noteq> h \<and> reading lg h
      | Mem_release g \<Rightarrow> g \<noteq> h \<and> reading lg h
      | _ \<Rightarrow> reading lg h)"

fun pending :: "uv_log \<Rightarrow> addr \<Rightarrow> handle option" where
  "pending [] q = None"
| "pending ((c, r) # lg) q =
     (case c of
        Uv_tcp_connect p h _ \<Rightarrow> if p = q \<and> r = TN_SUCCESS then Some h else pending lg q
      | Mem_release p \<Rightarrow> if p = q then None else pending lg q
      | _ \<Rightarrow> pending lg q)"

lemma status_Cons_fun:
  "status ((Mem_acquire b n None, r) # lg) = status lg"
  "status ((Mem_acquire b n (Some a), r) # lg) = (status lg)(a := Allocated)"
  "status ((Mem_release a, r) # lg) = (status lg)(a := Absent)"
  "status ((Uv_tcp_init h, TN_SUCCESS) # lg) = (status lg)(h := Active)"
  "status ((Uv_close h cb, r) # lg) = (status lg)(h := Closing cb)"
  "status ((Uv_accept h, r) # lg) = status lg"
  "status ((Uv_getpeername h, r) # lg) = status lg"
  "status ((Uv_getsockname h, r) # lg) = status lg"
  "status ((Uv_read_start h, r) # lg) = status lg"
  "status ((Uv_write k h bs, r) # lg) = status lg"
  "status ((Uv_tcp_connect q h ep, r) # lg) = status lg"
  by (auto simp: fun_eq_iff)

lemma reading_Cons_fun:
  "reading ((Mem_acquire b n p, r) # lg) = reading lg"
  "reading ((Mem_release a, r) # lg) = (reading lg)(a := False)"
  "reading ((Uv_tcp_init h, r) # lg) = reading lg"
  "reading ((Uv_close h cb, r) # lg) = (reading lg)(h := False)"
  "reading ((Uv_accept h, r) # lg) = reading lg"
  "reading ((Uv_getpeername h, r) # lg) = reading lg"
  "reading ((Uv_getsockname h, r) # lg) = reading lg"
  "reading ((Uv_read_start h, r) # lg) = (if r = TN_SUCCESS then (reading lg)(h := True) else reading lg)"
  "reading ((Uv_write k h bs, r) # lg) = reading lg"
  "reading ((Uv_tcp_connect q h ep, r) # lg) = reading lg"
  by (auto simp: fun_eq_iff)

lemma pending_Cons_fun:
  "pending ((Mem_acquire b n p, r) # lg) = pending lg"
  "pending ((Mem_release a, r) # lg) = (pending lg)(a := None)"
  "pending ((Uv_tcp_init h, r) # lg) = pending lg"
  "pending ((Uv_close h cb, r) # lg) = pending lg"
  "pending ((Uv_accept h, r) # lg) = pending lg"
  "pending ((Uv_getpeername h, r) # lg) = pending lg"
  "pending ((Uv_getsockname h, r) # lg) = pending lg"
  "pending ((Uv_read_start h, r) # lg) = pending lg"
  "pending ((Uv_write k h bs, r) # lg) = pending lg"
  "pending ((Uv_tcp_connect q h ep, r) # lg) = (if r = TN_SUCCESS then (pending lg)(q := Some h) else pending lg)"
  by (auto simp: fun_eq_iff)

lemmas log_fun = status_Cons_fun reading_Cons_fun pending_Cons_fun

section \<open>Links and their handles\<close>

text \<open>
  The predicates take the parts of the world they are about: the free list, the array of links, the
  \<^verbatim>\<open>data\<close> fields of handles and connect requests, the handles of the loop itself (listener, timer,
  prepare, check, signal) and the three functions read off the log.
\<close>

definition held :: "nat list \<Rightarrow> 't svl_link list \<Rightarrow> svl_link_state_t \<Rightarrow> nat \<Rightarrow> bool" where
  "held free m st i \<longleftrightarrow> i < length m \<and> i \<notin> set free \<and> link_state (m ! i) = st"

definition live :: "'t svl_link list \<Rightarrow> (handle \<Rightarrow> nat option) \<Rightarrow> handle set \<Rightarrow> nat \<Rightarrow> handle \<Rightarrow> bool" where
  "live m hp lh i h \<longleftrightarrow> link_priv (m ! i) = Some h \<and> hp h = Some i \<and> link_service (m ! i) \<and> h \<notin> lh"

text \<open>The status that the handle of a link in use has; a closed link has no handle any more.\<close>

fun handle_status :: "svl_link_state_t \<Rightarrow> block_status option" where
  "handle_status SVL_LINK_NEW = Some Active"
| "handle_status SVL_LINK_OPEN = Some Active"
| "handle_status SVL_LINK_CLOSING = Some (Closing (Some On_close_link_cb))"
| "handle_status _ = None"

definition link_ok ::
  "nat list \<Rightarrow> 't svl_link list \<Rightarrow> (handle \<Rightarrow> nat option) \<Rightarrow> handle set \<Rightarrow> (addr \<Rightarrow> block_status) \<Rightarrow> nat \<Rightarrow> bool" where
  "link_ok free m hp lh st i \<longleftrightarrow>
     (if i \<in> set free
      then link_state (m ! i) \<in> {SVL_LINK_NEW, SVL_LINK_CLOSED} \<and> read_buffer (m ! i) = None
      else case handle_status (link_state (m ! i)) of
             Some s \<Rightarrow> \<exists>h. live m hp lh i h \<and> st h = s
           | None \<Rightarrow> link_state (m ! i) = SVL_LINK_CLOSED \<and> read_buffer (m ! i) = None)"

definition links_ok ::
  "nat list \<Rightarrow> 't svl_link list \<Rightarrow> (handle \<Rightarrow> nat option) \<Rightarrow> (addr \<Rightarrow> nat option) \<Rightarrow> handle set \<Rightarrow>
     (addr \<Rightarrow> block_status) \<Rightarrow> (handle \<Rightarrow> bool) \<Rightarrow> (addr \<Rightarrow> handle option) \<Rightarrow> bool" where
  "links_ok free m hp rd lh st rg pd \<longleftrightarrow>
     (\<forall>i < length m. link_ok free m hp lh st i) \<and>
     (\<forall>h. st h = Closing (Some On_close_link_cb) \<longrightarrow> (\<exists>i. held free m SVL_LINK_CLOSING i \<and> live m hp lh i h)) \<and>
     (\<forall>h. rg h \<longrightarrow> (\<exists>i. held free m SVL_LINK_OPEN i \<and> live m hp lh i h)) \<and>
     (\<forall>q h. pd q = Some h \<longrightarrow>
        st q = Allocated \<and> (\<exists>i. held free m SVL_LINK_NEW i \<and> live m hp lh i h \<and> rd q = Some i)) \<and>
     (\<forall>q p h. pd q = Some h \<longrightarrow> pd p = Some h \<longrightarrow> q = p) \<and>
     (\<forall>h \<in> lh. st h = Active \<or> st h = Closing None)"

text \<open>A block that no link, no loop handle and no callback refers to.\<close>

definition unused ::
  "nat list \<Rightarrow> 't svl_link list \<Rightarrow> handle set \<Rightarrow> (handle \<Rightarrow> bool) \<Rightarrow> (addr \<Rightarrow> handle option) \<Rightarrow> addr \<Rightarrow> bool" where
  "unused free m lh rg pd h \<longleftrightarrow>
     h \<notin> lh \<and> \<not> rg h \<and> pd h = None \<and> (\<forall>q. pd q \<noteq> Some h) \<and>
     (\<forall>i < length m. i \<notin> set free \<longrightarrow> link_state (m ! i) \<noteq> SVL_LINK_CLOSED \<longrightarrow> link_priv (m ! i) \<noteq> Some h)"

lemma links_ok_link: "links_ok free m hp rd lh st rg pd \<Longrightarrow> i < length m \<Longrightarrow> link_ok free m hp lh st i"
  by (simp add: links_ok_def)

lemma links_ok_closing:
  assumes "links_ok free m hp rd lh st rg pd" and "st h = Closing (Some On_close_link_cb)"
  obtains i where "held free m SVL_LINK_CLOSING i" and "live m hp lh i h"
  using assms unfolding links_ok_def by blast

lemma links_ok_reading:
  assumes "links_ok free m hp rd lh st rg pd" and "rg h"
  obtains i where "held free m SVL_LINK_OPEN i" and "live m hp lh i h"
  using assms unfolding links_ok_def by blast

lemma links_ok_pending:
  assumes "links_ok free m hp rd lh st rg pd" and "pd q = Some h"
  obtains i where "held free m SVL_LINK_NEW i" and "live m hp lh i h" and "rd q = Some i" and "st q = Allocated"
  using assms unfolding links_ok_def by blast

lemma links_ok_pending_inj:
  "links_ok free m hp rd lh st rg pd \<Longrightarrow> pd q = Some h \<Longrightarrow> pd p = Some h \<Longrightarrow> q = p"
  unfolding links_ok_def by blast

lemma links_ok_loop:
  "links_ok free m hp rd lh st rg pd \<Longrightarrow> h \<in> lh \<Longrightarrow> st h = Active \<or> st h = Closing None"
  unfolding links_ok_def by blast

text \<open>The status of the handle of a link that is held.\<close>

lemma handle_status_None: "handle_status s = None \<longleftrightarrow> s \<in> {SVL_LINK_CLOSED, SVL_LINK_ERROR, SVL_LINK_INVALID}"
  by (cases s) auto

lemma held_status:
  assumes "links_ok free m hp rd lh st rg pd" and "held free m s i"
  shows "handle_status s = Some b \<Longrightarrow> \<exists>h. live m hp lh i h \<and> st h = b"
  using links_ok_link [OF assms(1), of i] assms(2) by (auto simp: held_def link_ok_def)

lemma held_live_status:
  assumes "links_ok free m hp rd lh st rg pd" and "held free m s i" and "live m hp lh i h" and "handle_status s = Some b"
  shows "st h = b"
  using held_status [OF assms(1,2,4)] assms(3) by (auto simp: live_def)

lemma live_fun: "live m hp lh i h \<Longrightarrow> live m hp lh j h \<Longrightarrow> i = j"
  by (auto simp: live_def)

lemma live_handle_fun: "live m hp lh i h \<Longrightarrow> live m hp lh i g \<Longrightarrow> h = g"
  by (auto simp: live_def)

lemma unused_if_not_handle:
  assumes ok: "links_ok free m hp rd lh st rg pd" and "st h = Absent"
  shows "unused free m lh rg pd h"
  unfolding unused_def
proof (intro conjI allI impI)
  show "h \<notin> lh" using links_ok_loop [OF ok] assms(2) by force
  show "\<not> rg h"
    using links_ok_reading [OF ok, of h] held_live_status [OF ok, of SVL_LINK_OPEN _ h] assms(2) by fastforce
  show "pd h = None"
    using ok assms(2) unfolding links_ok_def by (metis block_status.distinct(1) not_None_eq)
  show "pd q \<noteq> Some h" for q
    using links_ok_pending [OF ok, of q h] held_live_status [OF ok, of SVL_LINK_NEW _ h] assms(2) by fastforce
  show "link_priv (m ! i) \<noteq> Some h" if "i < length m" "i \<notin> set free" "link_state (m ! i) \<noteq> SVL_LINK_CLOSED" for i
  proof -
    have s: "handle_status (link_state (m ! i)) = Some b \<Longrightarrow> b \<noteq> Absent" for b
      by (cases "link_state (m ! i)") auto
    then show ?thesis
      using links_ok_link [OF ok that(1)] that(2,3) assms(2)
      by (auto simp: link_ok_def live_def split: option.splits)
  qed
qed

section \<open>Steps on the link invariant\<close>

text \<open>
  The status of blocks may change as long as that of no link in use does, and callbacks may be
  dropped.
\<close>

lemma links_ok_status:
  assumes ok: "links_ok free m hp rd lh st rg pd"
    and same: "\<And>i h. i < length m \<Longrightarrow> i \<notin> set free \<Longrightarrow> link_state (m ! i) \<noteq> SVL_LINK_CLOSED \<Longrightarrow>
      link_priv (m ! i) = Some h \<Longrightarrow> st' h = st h"
    and "\<And>h. st' h = Closing (Some On_close_link_cb) \<Longrightarrow> st h = Closing (Some On_close_link_cb)"
    and "\<And>h. rg' h \<Longrightarrow> rg h"
    and "\<And>q h. pd' q = Some h \<Longrightarrow> pd q = Some h \<and> st' q = Allocated"
    and "\<And>h. h \<in> lh \<Longrightarrow> st' h = Active \<or> st' h = Closing None"
  shows "links_ok free m hp rd lh st' rg' pd'"
proof -
  have "link_ok free m hp lh st' i" if i: "i < length m" for i
  proof (cases "handle_status (link_state (m ! i))")
    case None
    with links_ok_link [OF ok i] show ?thesis by (auto simp: link_ok_def split: if_splits)
  next
    case (Some b)
    then have "link_state (m ! i) \<noteq> SVL_LINK_CLOSED" by auto
    with links_ok_link [OF ok i] Some same [OF i] show ?thesis
      by (auto simp: link_ok_def live_def)
  qed
  moreover have "\<exists>i. held free m SVL_LINK_CLOSING i \<and> live m hp lh i h" if "st' h = Closing (Some On_close_link_cb)" for h
    using assms(3) [OF that] links_ok_closing [OF ok] by blast
  moreover have "\<exists>i. held free m SVL_LINK_OPEN i \<and> live m hp lh i h" if "rg' h" for h
    using assms(4) [OF that] links_ok_reading [OF ok] by blast
  moreover have "st' q = Allocated \<and> (\<exists>i. held free m SVL_LINK_NEW i \<and> live m hp lh i h \<and> rd q = Some i)"
    if "pd' q = Some h" for q h
    using assms(5) [OF that] links_ok_pending [OF ok, of q h] by blast
  moreover have "q = p" if "pd' q = Some h" "pd' p = Some h" for q p h
    using assms(5) [OF that(1)] assms(5) [OF that(2)] links_ok_pending_inj [OF ok] by blast
  ultimately show ?thesis using assms(6) unfolding links_ok_def by blast
qed

lemma unusedD:
  assumes "unused free m lh rg pd h"
  shows "h \<notin> lh" and "\<not> rg h" and "pd h = None" and "pd q \<noteq> Some h"
    and "i < length m \<Longrightarrow> i \<notin> set free \<Longrightarrow> link_state (m ! i) \<noteq> SVL_LINK_CLOSED \<Longrightarrow> link_priv (m ! i) \<noteq> Some h"
  using assms by (auto simp: unused_def)

lemma links_ok_unused_status:
  assumes ok: "links_ok free m hp rd lh st rg pd" and un: "unused free m lh rg pd h"
    and "s \<noteq> Closing (Some On_close_link_cb)"
  shows "links_ok free m hp rd lh (st(h := s)) rg pd"
  using ok
proof (rule links_ok_status)
  show "pd q = Some g \<and> (st(h := s)) q = Allocated" if "pd q = Some g" for q g
    using that unusedD(3) [OF un] links_ok_pending [OF ok that] by fastforce
  show "(st(h := s)) g = Active \<or> (st(h := s)) g = Closing None" if "g \<in> lh" for g
    using that unusedD(1) [OF un] links_ok_loop [OF ok that] by auto
qed (use unusedD(5) [OF un] assms(3) in \<open>auto split: if_splits\<close>)

lemma links_ok_acquire:
  assumes "links_ok free m hp rd lh st rg pd" and "st a = Absent"
  shows "links_ok free m hp rd lh (st(a := Allocated)) rg pd"
  using assms(1) unused_if_not_handle [OF assms] by (rule links_ok_unused_status) simp

lemma links_ok_release_plain:
  assumes ok: "links_ok free m hp rd lh st rg pd" and q: "st q = Allocated"
  shows "links_ok free m hp rd lh (st(q := Absent)) (rg(q := False)) (pd(q := None))"
  using ok
proof (rule links_ok_status)
  show "(st(q := Absent)) h = st h"
    if "i < length m" "i \<notin> set free" "link_state (m ! i) \<noteq> SVL_LINK_CLOSED" "link_priv (m ! i) = Some h" for i h
  proof -
    have "handle_status (link_state (m ! i)) = Some b \<Longrightarrow> b \<noteq> Allocated" for b
      by (cases "link_state (m ! i)") auto
    with links_ok_link [OF ok that(1)] that(2-) q have "h \<noteq> q"
      by (auto simp: link_ok_def live_def split: option.splits)
    then show ?thesis by simp
  qed
  show "(st(q := Absent)) h = Active \<or> (st(q := Absent)) h = Closing None" if "h \<in> lh" for h
    using that q links_ok_loop [OF ok that] by auto
qed (use links_ok_pending [OF ok] in \<open>auto split: if_splits\<close>)

lemma links_ok_loop_close:
  assumes ok: "links_ok free m hp rd lh st rg pd" and h: "h \<in> lh" "st h = Active"
  shows "links_ok free m hp rd lh (st(h := Closing None)) (rg(h := False)) pd"
  using ok
proof (rule links_ok_status)
  show "(st(h := Closing None)) g = st g"
    if "i < length m" "i \<notin> set free" "link_state (m ! i) \<noteq> SVL_LINK_CLOSED" "link_priv (m ! i) = Some g" for i g
    using links_ok_link [OF ok that(1)] that h(1)
    by (auto simp: link_ok_def live_def split: option.splits)
  show "pd q = Some g \<and> (st(h := Closing None)) q = Allocated" if "pd q = Some g" for q g
    using links_ok_pending [OF ok that] that h(2) by fastforce
qed (use links_ok_loop [OF ok] in \<open>auto split: if_splits\<close>)

text \<open>
  One link changes.  The other links keep their handles; every callback libuv has outstanding
  belongs to another link, as before, or to this one, in its new state.
\<close>

lemma links_ok_change:
  assumes ok: "links_ok free m hp rd lh st rg pd" and i: "i < length m"
    and free: "\<And>j. j \<noteq> i \<Longrightarrow> j \<in> set free' \<longleftrightarrow> j \<in> set free"
    and others: "\<And>j h. j \<noteq> i \<Longrightarrow> j < length m \<Longrightarrow> j \<notin> set free \<Longrightarrow> live m hp lh j h \<Longrightarrow>
      handle_status (link_state (m ! j)) = Some (st h) \<Longrightarrow> st' h = st h \<and> hp' h = hp h"
    and this_one: "link_ok free' (m[i := l]) hp' lh st' i"
    and closing: "\<And>h. st' h = Closing (Some On_close_link_cb) \<Longrightarrow>
      st h = Closing (Some On_close_link_cb) \<and> hp h \<noteq> Some i \<or>
      held free' (m[i := l]) SVL_LINK_CLOSING i \<and> live (m[i := l]) hp' lh i h"
    and reading: "\<And>h. rg' h \<Longrightarrow> rg h \<and> hp h \<noteq> Some i \<or>
      held free' (m[i := l]) SVL_LINK_OPEN i \<and> live (m[i := l]) hp' lh i h"
    and pending: "\<And>q h. pd' q = Some h \<Longrightarrow> st' q = Allocated \<and>
      (pd q = Some h \<and> rd q \<noteq> Some i \<and> rd' q = rd q \<or>
       held free' (m[i := l]) SVL_LINK_NEW i \<and> live (m[i := l]) hp' lh i h \<and> rd' q = Some i)"
    and inj: "\<And>q p h. pd' q = Some h \<Longrightarrow> pd' p = Some h \<Longrightarrow> q = p"
    and loop: "\<And>h. h \<in> lh \<Longrightarrow> st' h = Active \<or> st' h = Closing None"
  shows "links_ok free' (m[i := l]) hp' rd' lh st' rg' pd'"
proof -
  have keep: "held free' (m[i := l]) s j \<and> live (m[i := l]) hp' lh j h"
    if "held free m s j" "live m hp lh j h" "j \<noteq> i" "handle_status s = Some (st h)" for s j h
    using that free [OF that(3)] others [OF that(3) _ _ that(2)] by (auto simp: held_def live_def)
  have other: "\<exists>j. held free' (m[i := l]) s j \<and> live (m[i := l]) hp' lh j h \<and> (P j)"
    if "held free m s j" "live m hp lh j h" "hp h \<noteq> Some i" "handle_status s \<noteq> None" "P j" for s j h P
    using keep [OF that(1,2)] that held_live_status [OF ok that(1,2)] by (auto simp: live_def)
  have "link_ok free' (m[i := l]) hp' lh st' j" if j: "j < length m" for j
  proof (cases "j = i")
    case False
    with links_ok_link [OF ok j] show ?thesis
      using free [OF False] others [OF False j]
      by (cases "handle_status (link_state (m ! j))") (auto simp: link_ok_def live_def)
  qed (use this_one in simp)
  moreover have "\<exists>j. held free' (m[i := l]) SVL_LINK_CLOSING j \<and> live (m[i := l]) hp' lh j h"
    if "st' h = Closing (Some On_close_link_cb)" for h
    using closing [OF that] other [of SVL_LINK_CLOSING _ h "\<lambda>_. True"] links_ok_closing [OF ok, of h] by auto
  moreover have "\<exists>j. held free' (m[i := l]) SVL_LINK_OPEN j \<and> live (m[i := l]) hp' lh j h" if "rg' h" for h
    using reading [OF that] other [of SVL_LINK_OPEN _ h "\<lambda>_. True"] links_ok_reading [OF ok, of h] by auto
  moreover have "st' q = Allocated \<and>
      (\<exists>j. held free' (m[i := l]) SVL_LINK_NEW j \<and> live (m[i := l]) hp' lh j h \<and> rd' q = Some j)"
    if "pd' q = Some h" for q h
  proof -
    from pending [OF that] have a: "st' q = Allocated" by blast
    from pending [OF that] consider "pd q = Some h" "rd q \<noteq> Some i" "rd' q = rd q"
      | "held free' (m[i := l]) SVL_LINK_NEW i \<and> live (m[i := l]) hp' lh i h \<and> rd' q = Some i" by blast
    then show ?thesis
    proof cases
      case 1
      from links_ok_pending [OF ok 1(1)] obtain j where j: "held free m SVL_LINK_NEW j" "live m hp lh j h" "rd q = Some j"
        by blast
      with 1(2) have "hp h \<noteq> Some i" by (auto simp: live_def)
      from other [OF j(1,2) this, of "\<lambda>j. rd' q = Some j"] 1(3) j(3) a show ?thesis by auto
    qed (use a in blast)
  qed
  ultimately show ?thesis using loop inj i unfolding links_ok_def by auto
qed

section \<open>The life of a link\<close>

text \<open>Whatever callback is outstanding belongs to a link that is not free.\<close>

lemma links_ok_owner:
  assumes ok: "links_ok free m hp rd lh st rg pd" and "i \<in> set free"
  shows "st h = Closing (Some On_close_link_cb) \<Longrightarrow> hp h \<noteq> Some i"
    and "rg h \<Longrightarrow> hp h \<noteq> Some i"
    and "pd q = Some h \<Longrightarrow> rd q \<noteq> Some i"
proof -
  have ne: "held free m s j \<Longrightarrow> j \<noteq> i" for s j using assms(2) by (auto simp: held_def)
  show "hp h \<noteq> Some i" if "st h = Closing (Some On_close_link_cb)"
    by (rule links_ok_closing [OF ok that]) (use ne in \<open>auto simp: live_def\<close>)
  show "hp h \<noteq> Some i" if "rg h"
    by (rule links_ok_reading [OF ok that]) (use ne in \<open>auto simp: live_def\<close>)
  show "rd q \<noteq> Some i" if "pd q = Some h"
    by (rule links_ok_pending [OF ok that]) (use ne in auto)
qed

lemma links_ok_attach:
  assumes ok: "links_ok (free @ [i]) m hp rd lh st rg pd" and d: "distinct (free @ [i])" and i: "i < length m"
    and h: "st h = Active" "unused (free @ [i]) m lh rg pd h"
    and l: "link_state l = SVL_LINK_NEW \<or> link_state l = SVL_LINK_OPEN" "link_priv l = Some h" "link_service l"
    and rd': "\<And>q g. pd q = Some g \<Longrightarrow> rd' q = rd q"
  shows "links_ok free (m[i := l]) (hp(h := Some i)) rd' lh st rg pd"
  using ok i
proof (rule links_ok_change)
  have f: "i \<in> set (free @ [i])" by simp
  show "st g = st g \<and> (hp(h := Some i)) g = hp g"
    if "j \<noteq> i" "j < length m" "j \<notin> set (free @ [i])" "live m hp lh j g"
      "handle_status (link_state (m ! j)) = Some (st g)" for j g
    using unusedD(5) [OF h(2) that(2,3)] that by (cases "link_state (m ! j)") (auto simp: live_def)
  show "link_ok free (m[i := l]) (hp(h := Some i)) lh st i"
    using d i h l unusedD(1) [OF h(2)] by (auto simp: link_ok_def live_def)
  show "st g = Closing (Some On_close_link_cb) \<and> hp g \<noteq> Some i \<or>
      held free (m[i := l]) SVL_LINK_CLOSING i \<and> live (m[i := l]) (hp(h := Some i)) lh i g"
    if "st g = Closing (Some On_close_link_cb)" for g
    using links_ok_owner(1) [OF ok f that] that by simp
  show "rg g \<and> hp g \<noteq> Some i \<or> held free (m[i := l]) SVL_LINK_OPEN i \<and> live (m[i := l]) (hp(h := Some i)) lh i g"
    if "rg g" for g
    using links_ok_owner(2) [OF ok f that] that by simp
  show "st q = Allocated \<and> (pd q = Some g \<and> rd q \<noteq> Some i \<and> rd' q = rd q \<or>
      held free (m[i := l]) SVL_LINK_NEW i \<and> live (m[i := l]) (hp(h := Some i)) lh i g \<and> rd' q = Some i)"
    if "pd q = Some g" for q g
    using links_ok_owner(3) [OF ok f that] links_ok_pending [OF ok that] rd' [OF that] that by auto
qed (use links_ok_pending_inj [OF ok] links_ok_loop [OF ok] in auto)

text \<open>The fields that the invariant does not mention may change; so may the buffer of a link in use.\<close>

lemma links_ok_fields:
  assumes ok: "links_ok free m hp rd lh st rg pd" and i: "held free m s i" "handle_status s \<noteq> None"
    and l: "link_state l = s" "link_priv l = link_priv (m ! i)" "link_service l = link_service (m ! i)"
  shows "links_ok free (m[i := l]) hp rd lh st rg pd"
proof -
  have [simp]: "i < length m" using i by (simp add: held_def)
  have held: "held free (m[i := l]) t j = held free m t j" for t j
    using i l by (cases "j = i") (auto simp: held_def)
  have live: "live (m[i := l]) hp lh j h = live m hp lh j h" for j h
    using l by (cases "j = i") (auto simp: live_def)
  have "link_ok free (m[i := l]) hp lh st j" if "j < length m" for j
    using links_ok_link [OF ok that] i l
    by (cases "j = i"; cases "handle_status (link_state (m ! j))") (auto simp: link_ok_def live held_def)
  then show ?thesis using ok unfolding links_ok_def by (simp add: held live)
qed

lemma links_ok_close:
  assumes ok: "links_ok free m hp rd lh st rg pd" and i: "held free m s i" "live m hp lh i h"
    and s: "s = SVL_LINK_NEW \<or> s = SVL_LINK_OPEN"
    and pd': "\<And>q g. pd' q = Some g \<Longrightarrow> g \<noteq> h \<and> pd q = Some g"
    and l: "link_state l = SVL_LINK_CLOSING" "link_priv l = Some h" "link_service l"
  shows "links_ok free (m[i := l]) hp rd lh (st(h := Closing (Some On_close_link_cb))) (rg(h := False)) pd'"
proof -
  from i have il: "i < length m" by (simp add: held_def)
  have act: "st h = Active" using held_live_status [OF ok i] s by auto
  let ?st = "st(h := Closing (Some On_close_link_cb))"
  show ?thesis
    using ok il
  proof (rule links_ok_change)
    show "?st g = st g \<and> hp g = hp g"
      if "j \<noteq> i" "j < length m" "j \<notin> set free" "live m hp lh j g"
        "handle_status (link_state (m ! j)) = Some (st g)" for j g
      using live_fun [OF i(2), of j] that by (cases "g = h") auto
    show this_one: "link_ok free (m[i := l]) hp lh ?st i"
      using i l by (auto simp: link_ok_def live_def held_def)
    show "st g = Closing (Some On_close_link_cb) \<and> hp g \<noteq> Some i \<or>
        held free (m[i := l]) SVL_LINK_CLOSING i \<and> live (m[i := l]) hp lh i g"
      if "?st g = Closing (Some On_close_link_cb)" for g
    proof (cases "g = h")
      case True
      then show ?thesis using i l by (auto simp: live_def held_def)
    next
      case False
      with that have st: "st g = Closing (Some On_close_link_cb)" by simp
      then obtain j where "held free m SVL_LINK_CLOSING j" "live m hp lh j g" using links_ok_closing [OF ok] by blast
      with i(1) s st show ?thesis by (auto simp: held_def live_def)
    qed
    show "rg g \<and> hp g \<noteq> Some i \<or> held free (m[i := l]) SVL_LINK_OPEN i \<and> live (m[i := l]) hp lh i g"
      if "(rg(h := False)) g" for g
    proof -
      from that have g: "rg g" "g \<noteq> h" by (auto split: if_splits)
      then obtain j where "live m hp lh j g" using links_ok_reading [OF ok] by blast
      with g i(2) show ?thesis by (auto simp: live_def)
    qed
    show "?st q = Allocated \<and> (pd q = Some g \<and> rd q \<noteq> Some i \<and> rd q = rd q \<or>
        held free (m[i := l]) SVL_LINK_NEW i \<and> live (m[i := l]) hp lh i g \<and> rd q = Some i)"
      if "pd' q = Some g" for q g
    proof -
      from pd' [OF that] have g: "g \<noteq> h" "pd q = Some g" by auto
      from links_ok_pending [OF ok g(2)] obtain j where j: "live m hp lh j g" "rd q = Some j" "st q = Allocated" by blast
      with g i(2) act show ?thesis by (auto simp: live_def)
    qed
    show "?st g = Active \<or> ?st g = Closing None" if "g \<in> lh" for g
      using links_ok_loop [OF ok that] i(2) that by (auto simp: live_def)
  qed (use links_ok_pending_inj [OF ok] pd' in blast)+
qed

text \<open>The close callback: the handle is released, and the link is given back or stays closed.\<close>

lemma links_ok_closed:
  assumes ok: "links_ok free m hp rd lh st rg pd" and i: "held free m SVL_LINK_CLOSING i" "live m hp lh i h"
    and free': "free' = free \<or> free' = free @ [i]"
    and l: "link_state l = SVL_LINK_CLOSED" "read_buffer l = None"
  shows "links_ok free' (m[i := l]) hp rd lh (st(h := Absent)) (rg(h := False)) (pd(h := None))"
proof -
  from i have il: "i < length m" by (simp add: held_def)
  have cls: "st h = Closing (Some On_close_link_cb)" using held_live_status [OF ok i] by simp
  show ?thesis
    using ok il
  proof (rule links_ok_change)
    show "j \<in> set free' \<longleftrightarrow> j \<in> set free" if "j \<noteq> i" for j using that free' by auto
    show "(st(h := Absent)) g = st g \<and> hp g = hp g"
      if "j \<noteq> i" "j < length m" "j \<notin> set free" "live m hp lh j g"
        "handle_status (link_state (m ! j)) = Some (st g)" for j g
      using live_fun [OF i(2), of j] that by (cases "g = h") auto
    show "link_ok free' (m[i := l]) hp lh (st(h := Absent)) i"
      using il l by (auto simp: link_ok_def)
    show "st g = Closing (Some On_close_link_cb) \<and> hp g \<noteq> Some i \<or>
        held free' (m[i := l]) SVL_LINK_CLOSING i \<and> live (m[i := l]) hp lh i g"
      if "(st(h := Absent)) g = Closing (Some On_close_link_cb)" for g
    proof -
      from that have g: "g \<noteq> h" "st g = Closing (Some On_close_link_cb)" by (auto split: if_splits)
      then obtain j where "live m hp lh j g" using links_ok_closing [OF ok] by blast
      with g i(2) show ?thesis by (auto simp: live_def)
    qed
    show "rg g \<and> hp g \<noteq> Some i \<or> held free' (m[i := l]) SVL_LINK_OPEN i \<and> live (m[i := l]) hp lh i g"
      if "(rg(h := False)) g" for g
    proof -
      from that have g: "rg g" "g \<noteq> h" by (auto split: if_splits)
      then obtain j where "live m hp lh j g" using links_ok_reading [OF ok] by blast
      with g i(2) show ?thesis by (auto simp: live_def)
    qed
    show "(st(h := Absent)) q = Allocated \<and> (pd q = Some g \<and> rd q \<noteq> Some i \<and> rd q = rd q \<or>
        held free' (m[i := l]) SVL_LINK_NEW i \<and> live (m[i := l]) hp lh i g \<and> rd q = Some i)"
      if "(pd(h := None)) q = Some g" for q g
    proof -
      from that have q: "q \<noteq> h" "pd q = Some g" by (auto split: if_splits)
      from links_ok_pending [OF ok q(2)] obtain j where
        "held free m SVL_LINK_NEW j" "rd q = Some j" "st q = Allocated" by blast
      with q i(1) show ?thesis by (auto simp: held_def)
    qed
    show "(st(h := Absent)) g = Active \<or> (st(h := Absent)) g = Closing None" if "g \<in> lh" for g
      using links_ok_loop [OF ok that] i(2) that by (auto simp: live_def)
  qed (use links_ok_pending_inj [OF ok] in \<open>auto split: if_splits\<close>)
qed

text \<open>A connection attempt that could not be made: the link goes back, its handle is closed.\<close>

lemma links_ok_detach:
  assumes ok: "links_ok free m hp rd lh st rg pd" and i: "held free m SVL_LINK_NEW i" "live m hp lh i h"
    and buf: "read_buffer (m ! i) = None" and none: "\<And>q. pd q \<noteq> Some h"
  shows "links_ok (free @ [i]) m hp rd lh (st(h := Closing (Some On_close_handle_cb))) (rg(h := False)) pd"
proof -
  from i have il: "i < length m" by (simp add: held_def)
  have act: "st h = Active" using held_live_status [OF ok i] by simp
  have "links_ok (free @ [i]) (m[i := m ! i]) hp rd lh (st(h := Closing (Some On_close_handle_cb))) (rg(h := False)) pd"
    using ok il
  proof (rule links_ok_change)
    show "(st(h := Closing (Some On_close_handle_cb))) g = st g \<and> hp g = hp g"
      if "j \<noteq> i" "j < length m" "j \<notin> set free" "live m hp lh j g"
        "handle_status (link_state (m ! j)) = Some (st g)" for j g
      using live_fun [OF i(2), of j] that by (cases "g = h") auto
    show "link_ok (free @ [i]) (m[i := m ! i]) hp lh (st(h := Closing (Some On_close_handle_cb))) i"
      using i(1) buf by (auto simp: link_ok_def held_def)
    show "st g = Closing (Some On_close_link_cb) \<and> hp g \<noteq> Some i \<or>
        held (free @ [i]) (m[i := m ! i]) SVL_LINK_CLOSING i \<and> live (m[i := m ! i]) hp lh i g"
      if "(st(h := Closing (Some On_close_handle_cb))) g = Closing (Some On_close_link_cb)" for g
    proof -
      from that have g: "g \<noteq> h" "st g = Closing (Some On_close_link_cb)" by (auto split: if_splits)
      then obtain j where "live m hp lh j g" using links_ok_closing [OF ok] by blast
      with g i(2) show ?thesis by (auto simp: live_def)
    qed
    show "rg g \<and> hp g \<noteq> Some i \<or> held (free @ [i]) (m[i := m ! i]) SVL_LINK_OPEN i \<and> live (m[i := m ! i]) hp lh i g"
      if "(rg(h := False)) g" for g
    proof -
      from that have g: "rg g" "g \<noteq> h" by (auto split: if_splits)
      then obtain j where "live m hp lh j g" using links_ok_reading [OF ok] by blast
      with g i(2) show ?thesis by (auto simp: live_def)
    qed
    show "(st(h := Closing (Some On_close_handle_cb))) q = Allocated \<and> (pd q = Some g \<and> rd q \<noteq> Some i \<and> rd q = rd q \<or>
        held (free @ [i]) (m[i := m ! i]) SVL_LINK_NEW i \<and> live (m[i := m ! i]) hp lh i g \<and> rd q = Some i)"
      if "pd q = Some g" for q g
    proof -
      from links_ok_pending [OF ok that] obtain j where
        "live m hp lh j g" "rd q = Some j" "st q = Allocated" by blast
      with none [of q] act that i(2) show ?thesis by (auto simp: live_def)
    qed
    show "(st(h := Closing (Some On_close_handle_cb))) g = Active \<or> (st(h := Closing (Some On_close_handle_cb))) g = Closing None"
      if "g \<in> lh" for g
      using links_ok_loop [OF ok that] i(2) that by (auto simp: live_def)
  qed (use links_ok_pending_inj [OF ok] in auto)
  then show ?thesis by simp
qed

text \<open>libuv accepts a connect request, or a request to read.\<close>

lemma links_ok_connect:
  assumes ok: "links_ok free m hp rd lh st rg pd" and i: "held free m SVL_LINK_NEW i" "live m hp lh i h"
    and q: "st q = Allocated" "rd q = Some i" and none: "\<And>p. pd p \<noteq> Some h"
  shows "links_ok free m hp rd lh st rg (pd(q := Some h))"
  using ok i q none unfolding links_ok_def by (simp add: fun_upd_def) blast

lemma links_ok_read_start:
  assumes ok: "links_ok free m hp rd lh st rg pd" and i: "held free m SVL_LINK_OPEN i" "live m hp lh i h"
  shows "links_ok free m hp rd lh st (rg(h := True)) pd"
  using ok i unfolding links_ok_def by auto

text \<open>The connect callback: the request is done, the link is open.\<close>

lemma links_ok_connected:
  assumes ok: "links_ok free m hp rd lh st rg pd" and i: "held free m SVL_LINK_NEW i" "live m hp lh i h"
    and q: "pd q = Some h"
    and l: "link_state l = SVL_LINK_OPEN" "link_priv l = Some h" "link_service l"
  shows "links_ok free (m[i := l]) hp rd lh (st(q := Absent)) (rg(q := False)) (pd(q := None))"
proof -
  from i have il: "i < length m" by (simp add: held_def)
  from links_ok_pending [OF ok q] have al: "st q = Allocated" by blast
  note ok' = links_ok_release_plain [OF ok al]
  have act: "(st(q := Absent)) h = Active" using held_live_status [OF ok' i] by simp
  show ?thesis
    using ok' il
  proof (rule links_ok_change)
    show "link_ok free (m[i := l]) hp lh (st(q := Absent)) i"
      using i l act by (auto simp: link_ok_def held_def live_def)
    show "(st(q := Absent)) g = Closing (Some On_close_link_cb) \<and> hp g \<noteq> Some i \<or>
        held free (m[i := l]) SVL_LINK_CLOSING i \<and> live (m[i := l]) hp lh i g"
      if c: "(st(q := Absent)) g = Closing (Some On_close_link_cb)" for g
    proof -
      from links_ok_closing [OF ok' c] obtain j where "held free m SVL_LINK_CLOSING j" "live m hp lh j g" by blast
      with c i(1) show ?thesis by (auto simp: live_def held_def)
    qed
    show "(rg(q := False)) g \<and> hp g \<noteq> Some i \<or> held free (m[i := l]) SVL_LINK_OPEN i \<and> live (m[i := l]) hp lh i g"
      if c: "(rg(q := False)) g" for g
    proof -
      from links_ok_reading [OF ok' c] obtain j where "held free m SVL_LINK_OPEN j" "live m hp lh j g" by blast
      with c i(1) show ?thesis by (auto simp: live_def held_def)
    qed
    show "(st(q := Absent)) p = Allocated \<and> ((pd(q := None)) p = Some g \<and> rd p \<noteq> Some i \<and> rd p = rd p \<or>
        held free (m[i := l]) SVL_LINK_NEW i \<and> live (m[i := l]) hp lh i g \<and> rd p = Some i)"
      if c: "(pd(q := None)) p = Some g" for p g
    proof -
      from links_ok_pending [OF ok' c] obtain j where j: "live m hp lh j g" "rd p = Some j" "(st(q := Absent)) p = Allocated"
        by blast
      from c have "p \<noteq> q" "pd p = Some g" by (auto split: if_splits)
      then have "g \<noteq> h" using links_ok_pending_inj [OF ok q] by blast
      with j i(2) c show ?thesis by (auto simp: live_def)
    qed
  qed (use links_ok_pending_inj [OF ok'] links_ok_loop [OF ok'] in blast)+
qed

section \<open>Counting\<close>

lemma length_filter_update:
  "i < length xs \<Longrightarrow> length (filter P (xs[i := x])) + (if P (xs ! i) then 1 else 0) =
     length (filter P xs) + (if P x then 1 else 0)"
proof (induction xs arbitrary: i)
  case (Cons y ys)
  then show ?case by (cases i) auto
qed simp

definition is_read :: "'t tn_event \<Rightarrow> bool" where
  "is_read e \<longleftrightarrow> ev_type e = TN_EVENT_CLIENT_READ"

definition link_buffers :: "'t svl_link list \<Rightarrow> nat" where
  "link_buffers m = length (filter (\<lambda>l. read_buffer l \<noteq> None) m)"

lemma link_buffers_update:
  assumes "i < length m"
  shows "link_buffers (m[i := l]) + (if read_buffer (m ! i) = None then 0 else 1) =
    link_buffers m + (if read_buffer l = None then 0 else 1)"
  using length_filter_update [OF assms, of "\<lambda>l. read_buffer l \<noteq> None" l]
  by (auto simp: link_buffers_def split: if_splits)

text \<open>
  \<open>k\<close> events are in the hands of the main thread or of the callback that is running; the others
  are free or wait in the queue.  A queued read event carries its buffer.
\<close>

definition events_ok :: "'t view \<Rightarrow> nat \<Rightarrow> 't \<Rightarrow> bool" where
  "events_ok V k l \<longleftrightarrow>
     ev_free V l + length (ev_ready V l) + k = ev_cap V l \<and> (\<forall>e \<in> set (ev_ready V l). is_read e \<longrightarrow> ev_priv e \<noteq> None)"

text \<open>\<open>k\<close> buffers belong to read events that the main thread holds.\<close>

definition buffers_ok :: "'t view \<Rightarrow> nat \<Rightarrow> 't \<Rightarrow> 't svl_link list \<Rightarrow> 't tn_event list \<Rightarrow> bool" where
  "buffers_ok V k p m es \<longleftrightarrow>
     pool_size V p + link_buffers m + length (filter is_read es) + k = pool_cap V p"

definition cmds_ok :: "'t view \<Rightarrow> nat \<Rightarrow> 't \<Rightarrow> bool" where
  "cmds_ok V k l \<longleftrightarrow> cmd_free V l + length (cmd_ready V l) + k = cmd_cap V l"

text \<open>Every write request is free or handed to libuv; those know a link that belongs to the service.\<close>

definition reqs_ok :: "'t view \<Rightarrow> nat list \<Rightarrow> 't svl_service_priv \<Rightarrow> 't svl_link list \<Rightarrow> bool" where
  "reqs_ok V writes p m \<longleftrightarrow>
     slots_ok (list_elems V (send_req_list p)) writes (length (send_req p)) \<and>
     list_cap V (send_req_list p) = length (send_req p) \<and>
     (\<forall>q \<in> set writes. \<exists>i. wr_link (send_req p ! q) = Some i \<and> i < length m \<and> link_service (m ! i))"

lemma events_ok_pop:
  assumes "event_laws E V" and "tn_event_list_free_pop E ty l = (r, out, l')" and "events_ok V k l"
  shows "r = TN_SUCCESS \<Longrightarrow> events_ok V (Suc k) l' \<and> (\<exists>e. out = Some e \<and> ev_type e = ty)"
    and "r \<noteq> TN_SUCCESS \<Longrightarrow> events_ok V k l'" and "ev_ready V l' = ev_ready V l"
  using event_pop_law [OF assms(1,2)] assms(3) by (auto simp: events_ok_def)

lemma events_ok_push:
  assumes "event_laws E V" and "tn_event_list_ready_push E l e = (r, l')" and "events_ok V (Suc k) l"
    and "is_read e \<Longrightarrow> ev_priv e \<noteq> None"
  shows "r = TN_SUCCESS" and "events_ok V k l'" and "ev_ready V l' = ev_ready V l @ [e]"
proof -
  have "length (ev_ready V l) < ev_cap V l" using assms(3) by (simp add: events_ok_def)
  note law = event_ready_push_law [OF assms(1,2) this]
  from law show "r = TN_SUCCESS" "ev_ready V l' = ev_ready V l @ [e]" by simp_all
  from law assms(3,4) show "events_ok V k l'" by (simp add: events_ok_def)
qed

lemma buffers_ok_room:
  "buffers_ok V k p m es \<Longrightarrow> i < length m \<Longrightarrow> read_buffer (m ! i) \<noteq> None \<Longrightarrow> pool_size V p < pool_cap V p"
  using link_buffers_update [of i m "(m ! i)\<lparr>read_buffer := None\<rparr>"] by (auto simp: buffers_ok_def split: if_splits)

lemma buffers_ok_same:
  assumes "buffers_ok V k p m es" and "read_buffer l = None \<longleftrightarrow> read_buffer (m ! i) = None"
  shows "buffers_ok V k p (m[i := l]) es"
proof (cases "i < length m")
  case True
  with link_buffers_update [OF True, of l] assms show ?thesis by (simp add: buffers_ok_def split: if_splits)
qed (use assms in \<open>simp add: not_less list_update_beyond\<close>)

lemma reqs_ok_links:
  assumes "reqs_ok V writes p m" and "link_service (m ! i) \<Longrightarrow> link_service l"
  shows "reqs_ok V writes p (m[i := l])"
  using assms unfolding reqs_ok_def by (auto simp: nth_list_update split: if_splits) (metis nth_list_update nth_list_update_neq)

section \<open>The invariant of a running service\<close>

definition loop_handles :: "('t, 'x) world_scheme \<Rightarrow> handle set" where
  "loop_handles w =
     set_option (tcp_handle (priv_data w)) \<union> set_option (uv_accept_timer (priv_data w)) \<union>
     set_option (uv_prep (priv_data w)) \<union> set_option (uv_check (priv_data w)) \<union> set_option (uv_signal (priv_data w))"

definition links_inv :: "'t ext \<Rightarrow> 't view \<Rightarrow> ('t, 'x) world_scheme \<Rightarrow> bool" where
  "links_inv E V w \<longleftrightarrow>
     link_list_inv E V (link_list w) \<and> log_ok (log w) \<and>
     links_ok (link_free V (link_list w)) (client_map (link_list w)) (handle_data w) (req_data w)
       (loop_handles w) (status (log w)) (reading (log w)) (pending (log w))"

text \<open>
  \<open>ne\<close> events, \<open>nb\<close> of them with a buffer, and \<open>nc\<close> commands are taken out of the lists; \<open>writes\<close> are
  the write requests that libuv has.
\<close>

definition io_inv ::
  "'t ext \<Rightarrow> 't view \<Rightarrow> nat \<Rightarrow> nat \<Rightarrow> nat \<Rightarrow> nat list \<Rightarrow> ('t, 'x) world_scheme \<Rightarrow> bool" where
  "io_inv E V ne nb nc writes w \<longleftrightarrow>
     links_inv E V w \<and> events_ok V ne (events w) \<and>
     buffers_ok V nb (pool_read w) (client_map (link_list w)) (ev_ready V (events w)) \<and>
     cmds_ok V nc (cmds w) \<and> reqs_ok V writes (priv_data w) (client_map (link_list w)) \<and> service_priv w \<noteq> None"

text \<open>
  What the theorems ask of the code outside the repository.  \<^verbatim>\<open>uv_tcp_init\<close> with an unspecified address
  family creates no socket, so it has nothing to fail at.
\<close>

definition env_ok :: "'t ext \<Rightarrow> 't view \<Rightarrow> bool" where
  "env_ok E V \<longleftrightarrow>
     list_laws E V \<and> buffer_laws E V \<and> pool_laws E V \<and> event_laws E V \<and> cmd_laws E V \<and> uv_laws E \<and> mem_laws E \<and>
     (\<forall>lg h. uv_ret E lg (Uv_tcp_init h) = TN_SUCCESS)"

lemma env_okD:
  assumes "env_ok E V"
  shows "list_laws E V" "buffer_laws E V" "pool_laws E V" "event_laws E V" "cmd_laws E V" "uv_laws E" "mem_laws E"
    "uv_ret E lg (Uv_tcp_init h) = TN_SUCCESS"
  using assms by (simp_all add: env_ok_def)

lemma io_invD:
  assumes "io_inv E V ne nb nc writes w"
  shows "links_inv E V w" "events_ok V ne (events w)"
    "buffers_ok V nb (pool_read w) (client_map (link_list w)) (ev_ready V (events w))"
    "cmds_ok V nc (cmds w)" "reqs_ok V writes (priv_data w) (client_map (link_list w))" "service_priv w \<noteq> None"
  using assms by (simp_all add: io_inv_def)

lemma links_invD:
  assumes "links_inv E V w"
  shows "link_list_inv E V (link_list w)" "log_ok (log w)"
    "links_ok (link_free V (link_list w)) (client_map (link_list w)) (handle_data w) (req_data w)
       (loop_handles w) (status (log w)) (reading (log w)) (pending (log w))"
  using assms by (simp_all add: links_inv_def)

lemma uv_is_closing_status: "uv_laws E \<Longrightarrow> uv_is_closing E lg h = is_closing_status (status lg h)"
  by (simp add: uv_laws_def)

text \<open>The three states a link in use can be in, over the world.\<close>

abbreviation link_held :: "'t view \<Rightarrow> ('t, 'x) world_scheme \<Rightarrow> svl_link_state_t \<Rightarrow> nat \<Rightarrow> bool" where
  "link_held V w \<equiv> held (link_free V (link_list w)) (client_map (link_list w))"

abbreviation link_live :: "('t, 'x) world_scheme \<Rightarrow> nat \<Rightarrow> handle \<Rightarrow> bool" where
  "link_live w \<equiv> live (client_map (link_list w)) (handle_data w) (loop_handles w)"

end
