(* ===== verification/Svl_Callbacks.thy ===== *)
theory Svl_Callbacks
  imports Svl_Invariant
begin

text \<open>
  Every callback of the IO thread keeps the invariant of \<^verbatim>\<open>Svl_Invariant\<close> and has defined behaviour
  when libuv calls it: the close callback on a handle that is closing, the receive callbacks on a
  handle that is being read from, the connect callback on a request that is under way, the send
  callback on a write request that libuv has.
\<close>

section \<open>One link\<close>

lemma link_list_inv_update:
  "link_list_inv E V list \<Longrightarrow> link_id l = link_id (client_map list ! i) \<Longrightarrow>
     link_list_inv E V (list\<lparr>client_map := (client_map list)[i := l]\<rparr>)"
  by (auto simp: link_list_inv_def nth_list_update_cases)

lemma drop_no_buffer:
  "read_buffer l = None \<Longrightarrow> l\<lparr>link_state := s, read_buffer := None\<rparr> = l\<lparr>link_state := s\<rparr>"
  by (cases l) simp

lemma world_link_simps [simp]:
  "client_map (link_list (upd_link i f w)) = (client_map (link_list w))[i := f (client_map (link_list w) ! i)]"
  "client_list_free (link_list (upd_link i f w)) = client_list_free (link_list w)"
  "clients_max (link_list (upd_link i f w)) = clients_max (link_list w)"
  "handle_data (upd_link i f w) = handle_data w" "req_data (upd_link i f w) = req_data w"
  "log (upd_link i f w) = log w" "events (upd_link i f w) = events w" "pool_read (upd_link i f w) = pool_read w"
  "cmds (upd_link i f w) = cmds w" "priv_data (upd_link i f w) = priv_data w"
  "service_priv (upd_link i f w) = service_priv w" "loop_handles (upd_link i f w) = loop_handles w"
  "service_state (upd_link i f w) = service_state w" "stats (upd_link i f w) = stats w"
  by (simp_all add: upd_link_def loop_handles_def)

lemma world_close_simps [simp]:
  "link_list (uv_close h cb w) = link_list w" "handle_data (uv_close h cb w) = handle_data w"
  "req_data (uv_close h cb w) = req_data w" "log (uv_close h cb w) = (Uv_close h cb, TN_SUCCESS) # log w"
  "events (uv_close h cb w) = events w" "pool_read (uv_close h cb w) = pool_read w" "cmds (uv_close h cb w) = cmds w"
  "priv_data (uv_close h cb w) = priv_data w" "service_priv (uv_close h cb w) = service_priv w"
  "loop_handles (uv_close h cb w) = loop_handles w" "service_state (uv_close h cb w) = service_state w"
  by (simp_all add: uv_close_def loop_handles_def)

lemma world_release_simps [simp]:
  "link_list (release_mem p w) = link_list w" "handle_data (release_mem p w) = handle_data w"
  "req_data (release_mem p w) = req_data w" "log (release_mem p w) = mem_release p (log w)"
  "events (release_mem p w) = events w" "pool_read (release_mem p w) = pool_read w" "cmds (release_mem p w) = cmds w"
  "priv_data (release_mem p w) = priv_data w" "service_priv (release_mem p w) = service_priv w"
  "loop_handles (release_mem p w) = loop_handles w" "service_state (release_mem p w) = service_state w"
  by (simp_all add: release_mem_def loop_handles_def)

lemma loop_handles_simps [simp]:
  "loop_handles (w\<lparr>events := x1\<rparr>) = loop_handles w" "loop_handles (w\<lparr>pool_read := x2\<rparr>) = loop_handles w"
  "loop_handles (w\<lparr>cmds := x3\<rparr>) = loop_handles w" "loop_handles (w\<lparr>link_list := x4\<rparr>) = loop_handles w"
  "loop_handles (w\<lparr>log := x5\<rparr>) = loop_handles w" "loop_handles (w\<lparr>stats := x6\<rparr>) = loop_handles w"
  "loop_handles (w\<lparr>handle_data := x7\<rparr>) = loop_handles w" "loop_handles (w\<lparr>req_data := x8\<rparr>) = loop_handles w"
  "loop_handles (w\<lparr>service_state := x9\<rparr>) = loop_handles w"
  "loop_handles (w\<lparr>priv_data := (priv_data w)\<lparr>send_req_list := x10\<rparr>\<rparr>) = loop_handles w"
  "loop_handles (w\<lparr>priv_data := (priv_data w)\<lparr>send_req := x11, send_req_list := x10\<rparr>\<rparr>) = loop_handles w"
  by (simp_all add: loop_handles_def Let_def)

lemma upd_link_link_list:
  "link_list (upd_link i f w) = (link_list w)\<lparr>client_map := (client_map (link_list w))[i := f (client_map (link_list w) ! i)]\<rparr>"
  by (simp add: upd_link_def)

lemma held_deref:
  "link_held V w s i \<Longrightarrow> deref_link w i = Some (client_map (link_list w) ! i)"
  by (simp add: held_def deref_link_def)

text \<open>Fields the invariant does not mention, on a link in use.\<close>

lemma io_inv_fields:
  assumes inv: "io_inv E V ne nb nc writes w" and i: "link_held V w s i" "handle_status s \<noteq> None"
    and f: "\<And>l. link_state (f l) = link_state l" "\<And>l. link_priv (f l) = link_priv l"
      "\<And>l. link_service (f l) = link_service l" "\<And>l. link_id (f l) = link_id l" "\<And>l. read_buffer (f l) = read_buffer l"
  shows "io_inv E V ne nb nc writes (upd_link i f w)"
proof -
  have s: "link_state (f (client_map (link_list w) ! i)) = s" using i(1) f(1) by (simp add: held_def)
  from links_ok_fields [OF links_invD(3) [OF io_invD(1) [OF inv]] i s f(2,3)] inv show ?thesis
    by (simp add: io_inv_def links_inv_def upd_link_link_list link_list_inv_update f buffers_ok_same reqs_ok_links)
qed

text \<open>Closing an open link with \<^verbatim>\<open>uv_close(handle, on_close_link_cb)\<close>.\<close>

lemma open_not_pending:
  assumes ok: "links_ok free m hp rd lh st rg pd" and i: "held free m SVL_LINK_OPEN i" "live m hp lh i h"
    and q: "pd q = Some g"
  shows "g \<noteq> h \<and> pd q = Some g"
  by (rule links_ok_pending [OF ok q]) (use i q in \<open>auto simp: live_def held_def\<close>)

lemma io_inv_close_link:
  assumes inv: "io_inv E V ne nb nc writes w" and i: "link_held V w SVL_LINK_OPEN i" "link_live w i h"
    and f: "\<And>l. link_state (f l) = SVL_LINK_CLOSING" "\<And>l. link_priv (f l) = link_priv l"
      "\<And>l. link_service (f l) = link_service l" "\<And>l. link_id (f l) = link_id l" "\<And>l. read_buffer (f l) = read_buffer l"
  shows "io_inv E V ne nb nc writes (uv_close h (Some On_close_link_cb) (upd_link i f w))"
proof -
  note ok = links_invD(3) [OF io_invD(1) [OF inv]]
  have act: "status (log w) h = Active" using held_live_status [OF ok i] by simp
  have l: "link_priv (f (client_map (link_list w) ! i)) = Some h" "link_service (f (client_map (link_list w) ! i))"
    using i(2) f by (simp_all add: live_def)
  note close = links_ok_close [OF ok i _ open_not_pending [OF ok i] f(1) l, simplified]
  show ?thesis
    using inv close act
    by (simp add: io_inv_def links_inv_def upd_link_link_list link_list_inv_update f buffers_ok_same reqs_ok_links log_fun)
qed

section \<open>Closing\<close>

theorem on_close_link_cb_inv:
  assumes env: "env_ok E V" and inv: "io_inv E V ne nb nc writes w"
    and h: "status (log w) h = Closing (Some On_close_link_cb)"
  shows "\<exists>w'. on_close_link_cb E h w = Some w' \<and> io_inv E V ne nb nc writes w'"
proof -
  note ok = links_invD(3) [OF io_invD(1) [OF inv]]
  from links_ok_closing [OF ok h] obtain i where i: "link_held V w SVL_LINK_CLOSING i" "link_live w i h" by blast
  let ?m = "client_map (link_list w)"
  let ?l = "(?m ! i)\<lparr>link_state := SVL_LINK_CLOSED, read_buffer := None\<rparr>"
  let ?pool = "case read_buffer (?m ! i) of None \<Rightarrow> pool_read w | Some b \<Rightarrow> snd (tn_buffer_pool_push E (pool_read w) b)"
  let ?w = "upd_link i (\<lambda>l. l\<lparr>link_state := SVL_LINK_CLOSED, read_buffer := None\<rparr>) (w\<lparr>pool_read := ?pool\<rparr>)"
  from i have il: "i < length ?m" and hd: "handle_data w h = Some i" and sv: "link_service (?m ! i)"
    by (simp_all add: held_def live_def)
  have w1: "read_buffer (?m ! i) = None \<Longrightarrow> upd_link i (\<lambda>l. l\<lparr>link_state := SVL_LINK_CLOSED\<rparr>) w = ?w"
    "read_buffer (?m ! i) = Some b \<Longrightarrow> upd_link i (\<lambda>l. l\<lparr>read_buffer := None\<rparr>)
       ((upd_link i (\<lambda>l. l\<lparr>link_state := SVL_LINK_CLOSED\<rparr>) w)
          \<lparr>pool_read := snd (tn_buffer_pool_push E (pool_read w) b)\<rparr>) = ?w" for b
    using il by (simp_all add: upd_link_def drop_no_buffer)
  have bufs: "buffers_ok V nb ?pool (?m[i := ?l]) (ev_ready V (events w))"
    using link_buffers_update [OF il, of ?l] io_invD(3) [OF inv]
      pool_push_law [OF env_okD(3) [OF env] buffers_ok_room [OF io_invD(3) [OF inv] il]]
    by (cases "read_buffer (?m ! i)") (simp_all add: buffers_ok_def)
  obtain r out l where pop: "tn_event_list_free_pop E TN_EVENT_CLIENT_CLOSE (events w) = (r, out, l)"
    by (cases "tn_event_list_free_pop E TN_EVENT_CLIENT_CLOSE (events w)") auto
  note ev = events_ok_pop [OF env_okD(4) [OF env] pop io_invD(2) [OF inv]]
  have reqs: "reqs_ok V writes (priv_data w) (?m[i := ?l])"
    using io_invD(5) [OF inv] by (rule reqs_ok_links) simp
  have list: "link_list_inv E V ((link_list w)\<lparr>client_map := ?m[i := ?l]\<rparr>)"
    using links_invD(1) [OF io_invD(1) [OF inv]] by (rule link_list_inv_update) simp
  have log: "log_ok ((Mem_release h, TN_SUCCESS) # log w)"
    using links_invD(2) [OF io_invD(1) [OF inv]] h by simp
  note closed = links_ok_closed [OF ok i, of _ ?l, simplified]
  show ?thesis
  proof (cases "r = TN_SUCCESS")
    case False
    have "on_close_link_cb E h w = Some (release_mem (Some h) (?w\<lparr>events := l\<rparr>))"
      using hd held_deref [OF i(1)] sv pop False unfolding on_close_link_cb_def
      by (cases "read_buffer (?m ! i)") (simp_all add: Let_def w1)
    moreover have "io_inv E V ne nb nc writes (release_mem (Some h) (?w\<lparr>events := l\<rparr>))"
      using ev False bufs reqs list log closed [of "link_free V (link_list w)"] io_invD [OF inv]
      by (simp add: io_inv_def links_inv_def upd_link_link_list log_fun)
    ultimately show ?thesis by blast
  next
    case True
    with ev obtain e where e: "out = Some e" "ev_type e = TN_EVENT_CLIENT_CLOSE" and ev': "events_ok V (Suc ne) l" by blast
    let ?e = "e\<lparr>ev_client_id := link_id (?m ! i), ev_error_code := TN_SUCCESS, ev_cmd_id := cmd_close_id (?m ! i)\<rparr>"
    obtain r2 l2 where push: "tn_event_list_ready_push E l ?e = (r2, l2)" by fastforce
    have nr: "\<not> is_read ?e" using e by (simp add: is_read_def)
    note evp = events_ok_push [OF env_okD(4) [OF env] push ev']
    let ?list = "(link_list w)\<lparr>client_map := ?m[i := ?l]\<rparr>"
    have fr: "i < unat (clients_max ?list)" "i \<notin> set (link_free V ?list)"
      using i(1) links_invD(1) [OF io_invD(1) [OF inv]] by (auto simp: held_def link_list_inv_def)
    from close_result [OF list fr] obtain lf where
      cl: "svl_link_list_close E ?list i = (TN_SUCCESS, ?list\<lparr>client_list_free := lf\<rparr>)"
      and lf: "list_elems V lf = link_free V (link_list w) @ [i]" "list_cap V lf = list_cap V (client_list_free (link_list w))"
      by auto
    have list2: "link_list_inv E V (?list\<lparr>client_list_free := lf\<rparr>)"
      using list lf fr by (simp add: link_list_inv_def)
    let ?w2 = "release_mem (Some h) (?w\<lparr>events := l2, link_list := ?list\<lparr>client_list_free := lf\<rparr>\<rparr>)"
    have "on_close_link_cb E h w = Some ?w2"
      using hd held_deref [OF i(1)] sv pop True e push cl unfolding on_close_link_cb_def
      by (cases "read_buffer (?m ! i)") (simp_all add: Let_def w1 upd_link_link_list)
    moreover have "io_inv E V ne nb nc writes ?w2"
      using evp nr bufs reqs list2 log closed [of "link_free V (link_list w) @ [i]"] io_invD [OF inv] ev(3) lf
      by (simp add: io_inv_def links_inv_def upd_link_link_list log_fun buffers_ok_def)
    ultimately show ?thesis by blast
  qed
qed

section \<open>Receiving\<close>

text \<open>The buffer of a link in use changes together with the pool.\<close>

lemma io_inv_buffer:
  assumes inv: "io_inv E V ne nb nc writes w" and i: "link_held V w s i" "handle_status s \<noteq> None"
    and bufs: "buffers_ok V nb' p ((client_map (link_list w))[i := (client_map (link_list w) ! i)\<lparr>read_buffer := b\<rparr>]) (ev_ready V l)"
    and ev: "events_ok V ne' l"
  shows "io_inv E V ne' nb' nc writes (upd_link i (\<lambda>l. l\<lparr>read_buffer := b\<rparr>) (w\<lparr>pool_read := p, events := l\<rparr>))"
proof -
  have s: "link_state ((client_map (link_list w) ! i)\<lparr>read_buffer := b\<rparr>) = s" using i(1) by (simp add: held_def)
  from links_ok_fields [OF links_invD(3) [OF io_invD(1) [OF inv]] i s] inv bufs ev show ?thesis
    by (simp add: io_inv_def links_inv_def upd_link_link_list link_list_inv_update reqs_ok_links)
qed

theorem on_recv_alloc_cb_inv:
  assumes env: "env_ok E V" and inv: "io_inv E V ne nb nc writes w" and h: "reading (log w) h"
  shows "\<exists>out w'. on_recv_alloc_cb E h w = Some (out, w') \<and> io_inv E V ne nb nc writes w' \<and> log w' = log w \<and>
    handle_data w' = handle_data w \<and>
    (out \<noteq> None \<longrightarrow> (\<exists>i b. handle_data w h = Some i \<and> i < length (client_map (link_list w')) \<and>
       read_buffer (client_map (link_list w') ! i) = Some b \<and> out = Some (TN_BUFLEN_CAST E (tn_buffer_remaining E b))))"
proof -
  from links_ok_reading [OF links_invD(3) [OF io_invD(1) [OF inv]] h] obtain i where
    i: "link_held V w SVL_LINK_OPEN i" "link_live w i h" by blast
  let ?m = "client_map (link_list w)"
  from i have il: "i < length ?m" and hd: "handle_data w h = Some i" and sv: "link_service (?m ! i)"
    by (simp_all add: held_def live_def)
  show ?thesis
  proof (cases "read_buffer (?m ! i)")
    case (Some b)
    then show ?thesis using hd il held_deref [OF i(1)] inv by (simp add: on_recv_alloc_cb_def)
  next
    case None
    obtain r out p where pop: "tn_buffer_pool_pop_back E (pool_read w) None = (r, out, p)"
      by (cases "tn_buffer_pool_pop_back E (pool_read w) None") auto
    note law = pool_pop_law [OF env_okD(3) [OF env] pop]
    let ?w = "upd_link i (\<lambda>l. l\<lparr>read_buffer := out\<rparr>) (w\<lparr>pool_read := p\<rparr>)"
    have "buffers_ok V nb p (?m[i := (?m ! i)\<lparr>read_buffer := out\<rparr>]) (ev_ready V (events w))"
      using link_buffers_update [OF il, of "(?m ! i)\<lparr>read_buffer := out\<rparr>"] io_invD(3) [OF inv] law None
      by (cases "r = TN_SUCCESS") (auto simp: buffers_ok_def)
    from io_inv_buffer [OF inv i(1) _ this io_invD(2) [OF inv]] have inv': "io_inv E V ne nb nc writes ?w"
      by simp
    show ?thesis
    proof (cases "r = TN_SUCCESS")
      case True
      with law(5) obtain b where "out = Some b" by blast
      then show ?thesis using hd il held_deref [OF i(1)] None sv pop True inv'
        by (simp add: on_recv_alloc_cb_def Let_def)
    next
      case False
      then show ?thesis using hd held_deref [OF i(1)] None sv pop inv' by (simp add: on_recv_alloc_cb_def Let_def)
    qed
  qed
qed

text \<open>The code at the \<^verbatim>\<open>cleanup\<close> label of the receive callback: nothing is lost, the link may be closed.\<close>

lemma recv_cleanup_inv:
  assumes env: "env_ok E V" and inv: "io_inv E V ne nb nc writes w"
    and i: "link_held V w SVL_LINK_OPEN i" "link_live w i h"
  shows "io_inv E V ne nb nc writes (recv_cleanup E h i r cl w)"
proof -
  let ?w = "upd_link i (\<lambda>l. l\<lparr>error_code := r\<rparr>) w"
  have inv1: "io_inv E V ne nb nc writes ?w"
    using io_inv_fields [OF inv i(1), of "\<lambda>l. l\<lparr>error_code := r\<rparr>"] by simp
  have i1: "link_held V ?w SVL_LINK_OPEN i" "link_live ?w i h" using i by (auto simp: held_def live_def)
  have "io_inv E V ne nb nc writes (uv_close h (Some On_close_link_cb) (upd_link i (\<lambda>l. l\<lparr>link_state := SVL_LINK_CLOSING\<rparr>) ?w))"
    by (rule io_inv_close_link [OF inv1 i1]) simp_all
  with inv1 show ?thesis by (simp add: recv_cleanup_def Let_def)
qed

lemma io_inv_stats: "io_inv E V ne nb nc writes (w\<lparr>stats := x\<rparr>) = io_inv E V ne nb nc writes w"
  by (simp add: io_inv_def links_inv_def)

lemma upd_link_twice: "upd_link i f (upd_link i g w) = upd_link i (f \<circ> g) w"
  by (cases "i < length (client_map (link_list w))") (simp_all add: upd_link_def list_update_beyond not_less)

lemma upd_link_commute:
  "(upd_link i f w)\<lparr>events := l\<rparr> = upd_link i f (w\<lparr>events := l\<rparr>)"
  "(upd_link i f w)\<lparr>pool_read := p\<rparr> = upd_link i f (w\<lparr>pool_read := p\<rparr>)"
  "(upd_link i f w)\<lparr>stats := x\<rparr> = upd_link i f (w\<lparr>stats := x\<rparr>)"
  by (simp_all add: upd_link_def)

theorem on_recv_cb_inv:
  assumes env: "env_ok E V" and inv: "io_inv E V ne nb nc writes w" and h: "reading (log w) h"
    and buf: "\<And>bytes i. 0 < nread \<Longrightarrow> buf = Some bytes \<Longrightarrow> handle_data w h = Some i \<Longrightarrow>
      read_buffer (client_map (link_list w) ! i) \<noteq> None"
  shows "\<exists>w'. on_recv_cb E h nread buf w = Some w' \<and> io_inv E V ne nb nc writes w'"
proof -
  from links_ok_reading [OF links_invD(3) [OF io_invD(1) [OF inv]] h] obtain i where
    i: "link_held V w SVL_LINK_OPEN i" "link_live w i h" by blast
  let ?m = "client_map (link_list w)"
  from i have il: "i < length ?m" and hd: "handle_data w h = Some i" and sv: "link_service (?m ! i)"
    by (simp_all add: held_def live_def)
  note deref = held_deref [OF i(1)]
  show ?thesis
  proof (cases "nread < 0 \<or> nread = 0 \<or> buf = None")
    case True
    then show ?thesis using hd deref recv_cleanup_inv [OF env inv i] by (auto simp: on_recv_cb_def)
  next
    case False
    then obtain bytes where n: "0 < nread" and bytes: "buf = Some bytes" by auto
    from buf [OF n bytes hd] obtain b where b: "read_buffer (?m ! i) = Some b" by blast
    obtain r b' where add: "tn_buffer_add_length E (kernel_store E b bytes) (of_int nread) = (r, b')" by fastforce
    let ?w0 = "w\<lparr>stats := (stats w)\<lparr>recv_msgs := recv_msgs (stats w) + 1, recv_bytes := recv_bytes (stats w) + of_int nread\<rparr>\<rparr>"
    let ?w1 = "upd_link i (\<lambda>l. l\<lparr>read_buffer := Some b'\<rparr>) ?w0"
    obtain r1 out l where pop: "tn_event_list_free_pop E TN_EVENT_CLIENT_READ (events w) = (r1, out, l)"
      by (cases "tn_event_list_free_pop E TN_EVENT_CLIENT_READ (events w)") auto
    note ev = events_ok_pop [OF env_okD(4) [OF env] pop io_invD(2) [OF inv]]
    have inv0: "io_inv E V ne nb nc writes ?w0" using inv by (simp add: io_inv_stats)
    have i0: "link_held V ?w0 SVL_LINK_OPEN i" using i(1) by simp
    have bufs: "buffers_ok V nb (pool_read w) (?m[i := (?m ! i)\<lparr>read_buffer := Some b'\<rparr>]) (ev_ready V (events w))"
      using io_invD(3) [OF inv] by (rule buffers_ok_same) (simp add: b)
    have inv1: "io_inv E V ne' nb nc writes (?w1\<lparr>events := l'\<rparr>)"
      if "events_ok V ne' l'" "ev_ready V l' = ev_ready V (events w)" for ne' l'
      using io_inv_buffer [OF inv0 i0, of nb "pool_read w" "Some b'" l' ne'] that bufs
      by (simp add: upd_link_commute)
    have i1: "link_held V (?w1\<lparr>events := l'\<rparr>) SVL_LINK_OPEN i" "link_live (?w1\<lparr>events := l'\<rparr>) i h" for l'
      using i by (auto simp: held_def live_def)
    note clean = recv_cleanup_inv [OF env inv1 i1]
    show ?thesis
    proof (cases "r = TN_SUCCESS \<and> r1 = TN_SUCCESS")
      case fail: False
      show ?thesis
      proof (cases "r = TN_SUCCESS")
        case False
        have "?w1\<lparr>events := events w\<rparr> = ?w1" by (simp add: upd_link_def)
        with False hd deref n bytes b add clean [OF io_invD(2) [OF inv] refl] show ?thesis
          by (simp add: on_recv_cb_def Let_def)
      next
        case True
        with fail hd deref n bytes b add sv pop clean [OF ev(2,3)] show ?thesis
          by (simp add: on_recv_cb_def Let_def upd_link_commute)
      qed
    next
      case True
      with ev obtain e where e: "out = Some e" "ev_type e = TN_EVENT_CLIENT_READ" and ev': "events_ok V (Suc ne) l" by blast
      let ?e = "e\<lparr>ev_client_id := link_id (?m ! i), ev_priv := Some b', ev_buffer := tn_buffer_read_ptr E b',
                  ev_len := ucast (TN_BUFLEN_CAST E (tn_buffer_read_length E b'))\<rparr>"
      obtain r2 l2 where push: "tn_event_list_ready_push E l ?e = (r2, l2)" by fastforce
      have pr: "is_read ?e \<Longrightarrow> ev_priv ?e \<noteq> None" by simp
      note evp = events_ok_push [OF env_okD(4) [OF env] push ev' pr]
      let ?w2 = "upd_link i (\<lambda>l. l\<lparr>read_buffer := None\<rparr>) (?w0\<lparr>events := l2\<rparr>)"
      have "on_recv_cb E h nread buf w = Some ?w2"
        using True hd deref n bytes b add sv pop e push evp(1)
        by (simp add: on_recv_cb_def Let_def upd_link_commute upd_link_twice comp_def)
      moreover have "buffers_ok V nb (pool_read w) (?m[i := (?m ! i)\<lparr>read_buffer := None\<rparr>]) (ev_ready V l2)"
        using link_buffers_update [OF il, of "(?m ! i)\<lparr>read_buffer := None\<rparr>"] io_invD(3) [OF inv] evp(3) ev(3) e b
        by (simp add: buffers_ok_def is_read_def)
      then have "io_inv E V ne nb nc writes ?w2"
        using io_inv_buffer [OF inv0 i0, of nb "pool_read w" None l2 ne] evp(2) by simp
      ultimately show ?thesis by blast
    qed
  qed
qed

section \<open>Sending\<close>

text \<open>Write requests are a pool of slots; giving one back never fails.\<close>

lemma send_req_push:
  assumes laws: "list_laws E V" and ok: "reqs_ok V writes p m" and q: "q \<in> set writes"
    and push: "tn_list_ptr_push_back E (send_req_list p) q = (r, l)"
  shows "r = TN_SUCCESS" and "reqs_ok V (remove1 q writes) (p\<lparr>send_req_list := l\<rparr>) m"
proof -
  from ok have sl: "slots_ok (list_elems V (send_req_list p)) writes (length (send_req p))"
    and cap: "list_cap V (send_req_list p) = length (send_req p)" by (simp_all add: reqs_ok_def)
  from slots_ok_length [OF sl] q have "length (list_elems V (send_req_list p)) < length (send_req p)"
    by (cases writes) auto
  with list_push_law [OF laws push] cap
  have r: "r = TN_SUCCESS" "list_elems V l = list_elems V (send_req_list p) @ [q]" "list_cap V l = length (send_req p)"
    by auto
  then show "r = TN_SUCCESS" by simp
  from sl have "distinct writes" by (simp add: slots_ok_def)
  with r slots_ok_return [OF sl q] ok show "reqs_ok V (remove1 q writes) (p\<lparr>send_req_list := l\<rparr>) m"
    by (auto simp: reqs_ok_def set_remove1_eq)
qed

lemma io_inv_reqs:
  assumes "io_inv E V ne nb nc writes w" and "reqs_ok V writes' p (client_map (link_list w))"
    and "\<And>x. loop_handles (w\<lparr>priv_data := p, stats := x\<rparr>) = loop_handles w"
  shows "io_inv E V ne nb nc writes' (w\<lparr>priv_data := p, stats := x\<rparr>)"
  using assms by (simp add: io_inv_def links_inv_def)

theorem on_send_cb_inv:
  assumes env: "env_ok E V" and inv: "io_inv E V ne nb nc writes w" and q: "q \<in> set writes"
  shows "\<exists>w'. on_send_cb E q st w = Some w' \<and> io_inv E V ne nb nc (remove1 q writes) w'"
proof -
  note ok = io_invD(5) [OF inv]
  from ok q obtain i where i: "wr_link (send_req (priv_data w) ! q) = Some i" "i < length (client_map (link_list w))"
    "link_service (client_map (link_list w) ! i)" by (auto simp: reqs_ok_def)
  from ok q have ql: "q < length (send_req (priv_data w))" by (auto simp: reqs_ok_def slots_ok_def)
  obtain r l where push: "tn_list_ptr_push_back E (send_req_list (priv_data w)) q = (r, l)" by fastforce
  note reqs = send_req_push(2) [OF env_okD(1) [OF env] ok q push]
  let ?w = "\<lambda>x. w\<lparr>priv_data := (priv_data w)\<lparr>send_req_list := l\<rparr>, stats := x\<rparr>"
  have "\<exists>x. on_send_cb E q st w = Some (?w x)"
  proof (cases "st = TN_SUCCESS")
    case False
    then show ?thesis
      using i ql push io_invD(6) [OF inv]
      by (intro exI [of _ "stats w"]) (simp add: on_send_cb_def Let_def deref_link_def)
  next
    case True
    then show ?thesis
      using i ql push io_invD(6) [OF inv]
      by (intro exI [of _ "(stats w)\<lparr>send_msgs := send_msgs (stats w) + 1,
            send_bytes := send_bytes (stats w) + wr_len (send_req (priv_data w) ! q)\<rparr>"])
        (simp add: on_send_cb_def Let_def deref_link_def)
  qed
  moreover have "io_inv E V ne nb nc (remove1 q writes) (?w x)" for x
    using inv reqs by (rule io_inv_reqs) (simp add: loop_handles_def)
  ultimately show ?thesis by blast
qed

section \<open>Commands on a link\<close>

text \<open>
  A command names a link by its identifier.  If the link is open and its handle is not closing,
  then the link is in use and its handle is active.
\<close>

lemma usable_link:
  assumes env: "env_ok E V" and inv: "io_inv E V ne nb nc writes w"
    and get: "svl_link_list_get (link_list w) cid = (TN_SUCCESS, Some i)"
    and us: "\<not> link_unusable E (client_map (link_list w) ! i) w"
  shows "\<exists>h. link_priv (client_map (link_list w) ! i) = Some h \<and> link_held V w SVL_LINK_OPEN i \<and> link_live w i h \<and>
    status (log w) h = Active"
proof -
  note ok = links_invD(3) [OF io_invD(1) [OF inv]]
  from get links_invD(1) [OF io_invD(1) [OF inv]] have il: "i < length (client_map (link_list w))"
    by (auto simp: svl_link_list_get_def link_list_inv_def word_less_nat_alt not_le split: if_splits)
  from us obtain h where h: "link_priv (client_map (link_list w) ! i) = Some h"
    "link_state (client_map (link_list w) ! i) = SVL_LINK_OPEN"
    by (auto simp: link_unusable_def split: option.splits)
  with links_ok_link [OF ok il] have held: "link_held V w SVL_LINK_OPEN i"
    by (auto simp: link_ok_def held_def il split: if_splits)
  from held_status [OF ok held] h show ?thesis using held by (auto simp: live_def)
qed

lemma get_deref:
  "link_list_inv E V (link_list w) \<Longrightarrow> svl_link_list_get (link_list w) cid = (TN_SUCCESS, out) \<Longrightarrow>
     \<exists>i. out = Some i \<and> deref_link w i = Some (client_map (link_list w) ! i)"
  by (auto simp: svl_link_list_get_def deref_link_def link_list_inv_def word_less_nat_alt not_le split: if_splits)

theorem handle_cmd_close_inv:
  assumes env: "env_ok E V" and inv: "io_inv E V ne nb nc writes w"
  shows "\<exists>w'. handle_cmd_close E c w = Some w' \<and> io_inv E V ne nb nc writes w' \<and> cmds w' = cmds w"
proof -
  obtain r out where get: "svl_link_list_get (link_list w) (cmd_client_id c) = (r, out)" by fastforce
  show ?thesis
  proof (cases "r = TN_SUCCESS")
    case False
    with get inv show ?thesis by (simp add: handle_cmd_close_def)
  next
    case True
    with get_deref [OF links_invD(1) [OF io_invD(1) [OF inv]]] get obtain i where
      i: "out = Some i" "deref_link w i = Some (client_map (link_list w) ! i)" by blast
    show ?thesis
    proof (cases "link_unusable E (client_map (link_list w) ! i) w")
      case un: True
      with get i inv True show ?thesis by (simp add: handle_cmd_close_def)
    next
      case False
      with usable_link [OF env inv] get True i obtain h where h: "link_priv (client_map (link_list w) ! i) = Some h"
        "link_held V w SVL_LINK_OPEN i" "link_live w i h" by blast
      let ?w = "uv_close h (Some On_close_link_cb)
        (upd_link i (\<lambda>l. l\<lparr>cmd_close_id := cmd_id c, link_state := SVL_LINK_CLOSING\<rparr>) w)"
      have "io_inv E V ne nb nc writes ?w" by (rule io_inv_close_link [OF inv h(2,3)]) simp_all
      with get i True False h(1) show ?thesis by (simp add: handle_cmd_close_def)
    qed
  qed
qed

lemma send_req_pop:
  assumes laws: "list_laws E V" and ok: "reqs_ok V writes p m"
    and pop: "tn_list_ptr_pop_back E (send_req_list p) None = (r, out, l)"
  shows "r \<noteq> TN_SUCCESS \<Longrightarrow> reqs_ok V writes (p\<lparr>send_req_list := l\<rparr>) m"
    and "r = TN_SUCCESS \<Longrightarrow> \<exists>q. out = Some q \<and> q < length (send_req p) \<and> q \<notin> set writes \<and>
      (\<forall>sr. (\<exists>i. wr_link sr = Some i \<and> i < length m \<and> link_service (m ! i)) \<longrightarrow>
        reqs_ok V (q # writes) (p\<lparr>send_req := (send_req p)[q := sr], send_req_list := l\<rparr>) m)"
proof -
  from ok have sl: "slots_ok (list_elems V (send_req_list p)) writes (length (send_req p))"
    and cap: "list_cap V (send_req_list p) = length (send_req p)" by (simp_all add: reqs_ok_def)
  show "reqs_ok V writes (p\<lparr>send_req_list := l\<rparr>) m" if "r \<noteq> TN_SUCCESS"
  proof -
    have e: "list_elems V (send_req_list p) = []" using that list_pop_law(1) [OF laws pop] by blast
    from list_pop_empty_law [OF laws pop e] e ok show ?thesis by (simp add: reqs_ok_def)
  qed
  assume r: "r = TN_SUCCESS"
  then have ne: "list_elems V (send_req_list p) \<noteq> []" using list_pop_empty_law(1) [OF laws pop] by blast
  note law = list_pop_law [OF laws pop ne]
  let ?q = "last (list_elems V (send_req_list p))"
  from law(3) ne sl have sl': "slots_ok (list_elems V l @ [?q]) writes (length (send_req p))" by simp
  from slots_ok_take [OF sl'] have sl2: "slots_ok (list_elems V l) (?q # writes) (length (send_req p))" .
  then have q: "?q < length (send_req p)" "?q \<notin> set writes" by (auto simp: slots_ok_def)
  have "reqs_ok V (?q # writes) (p\<lparr>send_req := (send_req p)[?q := sr], send_req_list := l\<rparr>) m"
    if "\<exists>i. wr_link sr = Some i \<and> i < length m \<and> link_service (m ! i)" for sr
    using that sl2 q law(4) cap ok by (auto simp: reqs_ok_def nth_list_update)
  with law(2) q show "\<exists>q. out = Some q \<and> q < length (send_req p) \<and> q \<notin> set writes \<and>
      (\<forall>sr. (\<exists>i. wr_link sr = Some i \<and> i < length m \<and> link_service (m ! i)) \<longrightarrow>
        reqs_ok V (q # writes) (p\<lparr>send_req := (send_req p)[q := sr], send_req_list := l\<rparr>) m)" by blast
qed

lemma io_inv_write:
  assumes inv: "io_inv E V ne nb nc writes w" and "status (log w) h = Active"
    and "reqs_ok V writes' p (client_map (link_list w))"
    and "loop_handles (w\<lparr>priv_data := p\<rparr>) = loop_handles w"
  shows "io_inv E V ne nb nc writes' (w\<lparr>priv_data := p, log := (Uv_write q h bs, r) # log w\<rparr>)"
  using assms by (simp add: io_inv_def links_inv_def log_fun loop_handles_def)

text \<open>
  A send command hands a write request to libuv, or leaves the stock of requests as it was: \<open>ws\<close> is
  empty or the request.
\<close>

theorem handle_cmd_send_inv:
  assumes env: "env_ok E V" and inv: "io_inv E V ne nb nc writes w"
  shows "\<exists>w' ws. handle_cmd_send E c w = Some w' \<and> io_inv E V ne nb nc (ws @ writes) w' \<and> cmds w' = cmds w"
proof -
  obtain r out where get: "svl_link_list_get (link_list w) (cmd_client_id c) = (r, out)" by fastforce
  show ?thesis
  proof (cases "r = TN_SUCCESS")
    case False
    with get inv show ?thesis by (auto simp: handle_cmd_send_def intro: exI [of _ "[]"])
  next
    case True
    with get_deref [OF links_invD(1) [OF io_invD(1) [OF inv]]] get obtain i where
      i: "out = Some i" "deref_link w i = Some (client_map (link_list w) ! i)" by blast
    note start = get i True
    show ?thesis
    proof (cases "link_unusable E (client_map (link_list w) ! i) w")
      case True
      with start inv show ?thesis by (auto simp: handle_cmd_send_def intro: exI [of _ "[]"])
    next
      case us: False
      with usable_link [OF env inv] start obtain h where h: "link_priv (client_map (link_list w) ! i) = Some h"
        "link_held V w SVL_LINK_OPEN i" "link_live w i h" "status (log w) h = Active" by blast
      obtain r1 out1 l where pop: "tn_list_ptr_pop_back E (send_req_list (priv_data w)) None = (r1, out1, l)"
        by (cases "tn_list_ptr_pop_back E (send_req_list (priv_data w)) None") auto
      note law = send_req_pop [OF env_okD(1) [OF env] io_invD(5) [OF inv] pop]
      show ?thesis
      proof (cases "r1 = TN_SUCCESS")
        case False
        have "io_inv E V ne nb nc writes (w\<lparr>priv_data := (priv_data w)\<lparr>send_req_list := l\<rparr>\<rparr>)"
          using io_inv_reqs [OF inv law(1) [OF False], of "stats w"] by (simp add: loop_handles_def)
        with start us pop False show ?thesis by (auto simp: handle_cmd_send_def Let_def intro: exI [of _ "[]"])
      next
        case True
        with law(2) obtain q where q: "out1 = Some q" "q < length (send_req (priv_data w))" "q \<notin> set writes"
          and reqs: "\<And>sr. \<exists>j. wr_link sr = Some j \<and> j < length (client_map (link_list w)) \<and>
              link_service (client_map (link_list w) ! j) \<Longrightarrow>
            reqs_ok V (q # writes) ((priv_data w)\<lparr>send_req := (send_req (priv_data w))[q := sr], send_req_list := l\<rparr>)
              (client_map (link_list w))" by blast
        let ?sr = "(send_req (priv_data w) ! q)\<lparr>wr_cmd_id := cmd_id c, wr_link := Some i,
                     wr_base := cmd_buffer c, wr_len := TN_BUFLEN_CAST E (cmd_len c)\<rparr>"
        let ?p = "(priv_data w)\<lparr>send_req := (send_req (priv_data w))[q := ?sr], send_req_list := l\<rparr>"
        let ?call = "Uv_write q h (take (unat (wr_len ?sr)) (wr_base ?sr))"
        have rq: "reqs_ok V (q # writes) ?p (client_map (link_list w))"
          using h by (intro reqs) (auto simp: held_def live_def)
        have inv1: "io_inv E V ne nb nc writes' (w\<lparr>priv_data := p, log := (?call, r2) # log w\<rparr>)"
          if "reqs_ok V writes' p (client_map (link_list w))" "loop_handles (w\<lparr>priv_data := p\<rparr>) = loop_handles w" for writes' p r2
          using io_inv_write [OF inv h(4) that] .
        show ?thesis
        proof (cases "uv_ret E (log w) ?call = TN_SUCCESS")
          case ok: True
          let ?w = "w\<lparr>priv_data := ?p, log := (?call, TN_SUCCESS) # log w\<rparr>"
          have "handle_cmd_send E c w = Some ?w"
            using start us h(1) pop True q(1,2) ok by (simp add: handle_cmd_send_def Let_def)
          moreover have "io_inv E V ne nb nc ([q] @ writes) ?w"
            using inv1 [OF rq, of TN_SUCCESS] by (simp add: loop_handles_def)
          ultimately show ?thesis by (intro exI [of _ ?w] exI [of _ "[q]"]) simp
        next
          case bad: False
          obtain r3 l3 where push: "tn_list_ptr_push_back E l q = (r3, l3)" by fastforce
          from send_req_push(2) [OF env_okD(1) [OF env] rq, of q r3 l3] push
          have rq3: "reqs_ok V writes (?p\<lparr>send_req_list := l3\<rparr>) (client_map (link_list w))" by simp
          let ?w = "w\<lparr>priv_data := ?p\<lparr>send_req_list := l3\<rparr>, log := (?call, uv_ret E (log w) ?call) # log w\<rparr>"
          have "handle_cmd_send E c w = Some ?w"
            using start us h(1) pop True q(1,2) bad push by (simp add: handle_cmd_send_def Let_def)
          moreover have "io_inv E V ne nb nc ([] @ writes) ?w"
            using inv1 [OF rq3, of "uv_ret E (log w) ?call"] by (simp add: loop_handles_def)
          ultimately show ?thesis by (intro exI [of _ ?w] exI [of _ "[]"]) simp
        qed
      qed
    qed
  qed
qed

section \<open>Signals, the timer and plain close callbacks\<close>

lemma io_inv_state: "io_inv E V ne nb nc writes (w\<lparr>service_state := x\<rparr>) = io_inv E V ne nb nc writes w"
  by (simp add: io_inv_def links_inv_def)

lemma on_sigint_cb_inv:
  "io_inv E V ne nb nc writes w \<Longrightarrow> io_inv E V ne nb nc writes (on_sigint_cb sig w)"
  by (simp add: on_sigint_cb_def svl_service_stop_signal_def svl_service_set_state_def Let_def io_inv_state)

lemma links_ok_release_closed:
  assumes ok: "links_ok free m hp rd lh st rg pd" and h: "st h = Closing (Some On_close_handle_cb)"
  shows "links_ok free m hp rd lh (st(h := Absent)) (rg(h := False)) (pd(h := None))"
  using ok
proof (rule links_ok_status)
  show "(st(h := Absent)) g = st g"
    if "i < length m" "i \<notin> set free" "link_state (m ! i) \<noteq> SVL_LINK_CLOSED" "link_priv (m ! i) = Some g" for i g
  proof -
    have "handle_status (link_state (m ! i)) = Some b \<Longrightarrow> b \<noteq> Closing (Some On_close_handle_cb)" for b
      by (cases "link_state (m ! i)") auto
    with links_ok_link [OF ok that(1)] that(2-) h have "g \<noteq> h"
      by (auto simp: link_ok_def live_def split: option.splits)
    then show ?thesis by simp
  qed
  show "pd q = Some g \<and> (st(h := Absent)) q = Allocated" if "(pd(h := None)) q = Some g" for q g
  proof -
    from that have q: "q \<noteq> h" "pd q = Some g" by (auto split: if_splits)
    with links_ok_pending [OF ok q(2)] show ?thesis by auto
  qed
  show "(st(h := Absent)) g = Active \<or> (st(h := Absent)) g = Closing None" if "g \<in> lh" for g
    using links_ok_loop [OF ok that] h by auto
qed (auto split: if_splits)

lemma on_close_handle_cb_inv:
  assumes "io_inv E V ne nb nc writes w" and "status (log w) h = Closing (Some On_close_handle_cb)"
  shows "io_inv E V ne nb nc writes (on_close_handle_cb h w)"
  using assms links_ok_release_closed [OF links_invD(3) [OF io_invD(1) [OF assms(1)]] assms(2)]
  by (simp add: on_close_handle_cb_def io_inv_def links_inv_def log_fun)

lemma safe_close_inv:
  assumes env: "env_ok E V" and inv: "io_inv E V ne nb nc writes w" and p: "set_option p \<subseteq> loop_handles w"
  shows "io_inv E V ne nb nc writes (safe_close_uv_handle E p w)"
    and "priv_data (safe_close_uv_handle E p w) = priv_data w"
    and "loop_handles (safe_close_uv_handle E p w) = loop_handles w"
proof -
  show "priv_data (safe_close_uv_handle E p w) = priv_data w" "loop_handles (safe_close_uv_handle E p w) = loop_handles w"
    by (simp_all add: safe_close_uv_handle_def split: option.splits)
  show "io_inv E V ne nb nc writes (safe_close_uv_handle E p w)"
  proof (cases "\<exists>h. p = Some h \<and> \<not> uv_is_closing E (log w) h")
    case True
    then obtain h where h: "p = Some h" "\<not> uv_is_closing E (log w) h" by blast
    note ok = links_invD(3) [OF io_invD(1) [OF inv]]
    from p h(1) have lh: "h \<in> loop_handles w" by simp
    from links_ok_loop [OF ok lh] h(2) have act: "status (log w) h = Active"
      by (auto simp: uv_is_closing_status [OF env_okD(6) [OF env]])
    from links_ok_loop_close [OF ok lh act] act h inv show ?thesis
      by (simp add: safe_close_uv_handle_def io_inv_def links_inv_def log_fun)
  next
    case False
    with inv show ?thesis by (auto simp: safe_close_uv_handle_def split: option.splits)
  qed
qed

theorem on_timer_cb_inv:
  assumes env: "env_ok E V" and inv: "io_inv E V ne nb nc writes w"
  shows "io_inv E V ne nb nc writes (on_timer_cb E w)"
proof -
  note step = safe_close_inv [OF env]
  let ?p = "priv_data w"
  have sub: "set_option (tcp_handle ?p) \<subseteq> loop_handles w" "set_option (uv_accept_timer ?p) \<subseteq> loop_handles w"
    "set_option (uv_prep ?p) \<subseteq> loop_handles w" "set_option (uv_check ?p) \<subseteq> loop_handles w"
    "set_option (uv_signal ?p) \<subseteq> loop_handles w"
    by (auto simp: loop_handles_def)
  note s1 = step [OF inv sub(1)]
  note s2 = step [OF s1(1), of "uv_accept_timer ?p", unfolded s1(3), OF sub(2)]
  note s3 = step [OF s2(1), of "uv_prep ?p", unfolded s2(3), OF sub(3)]
  note s4 = step [OF s3(1), of "uv_check ?p", unfolded s3(3), OF sub(4)]
  note s5 = step [OF s4(1), of "uv_signal ?p", unfolded s4(3), OF sub(5)]
  from s5(1) inv show ?thesis by (simp add: on_timer_cb_def Let_def)
qed

end
