(* ===== verification/Svl_Connect.thy ===== *)
theory Svl_Connect
  imports Svl_Callbacks
begin

text \<open>
  The callbacks that set a connection up: an inbound connection, the completion of an outbound one,
  and the command that starts an outbound one.  Each is a sequence of guarded statements over a
  stack frame; the proofs annotate the points between the statements with assertions and chain the
  rules of \<open>triple\<close>.
\<close>

section \<open>Frames\<close>

lemma io_inv_frame [simp]:
  "io_inv E V ne nb nc writes (f\<lparr>client_handle := x1\<rparr>) = io_inv E V ne nb nc writes f"
  "io_inv E V ne nb nc writes (f\<lparr>handle_is_init := x2\<rparr>) = io_inv E V ne nb nc writes f"
  "io_inv E V ne nb nc writes (f\<lparr>connect_req := x3\<rparr>) = io_inv E V ne nb nc writes f"
  "io_inv E V ne nb nc writes (f\<lparr>link_ptr := x4\<rparr>) = io_inv E V ne nb nc writes f"
  "io_inv E V ne nb nc writes (f\<lparr>sock_addr := x5\<rparr>) = io_inv E V ne nb nc writes f"
  "io_inv E V ne nb nc writes (f\<lparr>open_evt := x6\<rparr>) = io_inv E V ne nb nc writes f"
  by (simp_all add: io_inv_def links_inv_def loop_handles_def)

lemma loop_handles_frame [simp]:
  "loop_handles (f\<lparr>client_handle := x1\<rparr>) = loop_handles f" "loop_handles (f\<lparr>handle_is_init := x2\<rparr>) = loop_handles f"
  "loop_handles (f\<lparr>connect_req := x3\<rparr>) = loop_handles f" "loop_handles (f\<lparr>link_ptr := x4\<rparr>) = loop_handles f"
  "loop_handles (f\<lparr>sock_addr := x5\<rparr>) = loop_handles f" "loop_handles (f\<lparr>open_evt := x6\<rparr>) = loop_handles f"
  by (simp_all add: loop_handles_def)

lemma io_inv_enter: "io_inv E V ne nb nc writes (enter h q i w) = io_inv E V ne nb nc writes w"
  by (simp add: io_inv_def links_inv_def loop_handles_def enter_def world.defs frame.defs)

lemma io_inv_leave: "io_inv E V ne nb nc writes (leave f) = io_inv E V ne nb nc writes f"
  by (simp add: io_inv_def links_inv_def loop_handles_def leave_def world.defs)

lemma enter_fields [simp]:
  "client_handle (enter h q i w) = h" "connect_req (enter h q i w) = q" "link_ptr (enter h q i w) = i"
  "handle_is_init (enter h q i w) = False" "log (enter h q i w) = log w" "link_list (enter h q i w) = link_list w"
  "handle_data (enter h q i w) = handle_data w" "loop_handles (enter h q i w) = loop_handles w"
  "req_data (enter h q i w) = req_data w" "cmds (enter h q i w) = cmds w"
  by (simp_all add: enter_def loop_handles_def world.defs frame.defs)

lemma upd_link_frame_simps [simp]:
  "client_handle (upd_link i f w) = client_handle w" "connect_req (upd_link i f w) = connect_req w"
  "link_ptr (upd_link i f w) = link_ptr w" "handle_is_init (upd_link i f w) = handle_is_init w"
  "open_evt (upd_link i f w) = open_evt w" "sock_addr (upd_link i f w) = sock_addr w"
  by (simp_all add: upd_link_def)

text \<open>Calls that libuv answers without a change of state.\<close>

lemma io_inv_query:
  assumes "io_inv E V ne nb nc writes w" and "status (log w) h = Active"
    and "c = Uv_getpeername h \<or> c = Uv_getsockname h \<or> c = Uv_accept h"
  shows "io_inv E V ne nb nc writes (w\<lparr>log := (c, r) # log w\<rparr>)"
    and "pending ((c, r) # log w) = pending (log w)" "status ((c, r) # log w) = status (log w)"
    "reading ((c, r) # log w) = reading (log w)"
  using assms by (auto simp: io_inv_def links_inv_def log_fun)

section \<open>From a link in use to its open event\<close>

text \<open>
  The assertion of the statements both callbacks share: the local variables hold a link in state
  \<open>s\<close> and its handle.  \<open>P\<close> is what libuv knows of connect requests, which these statements leave
  alone.
\<close>

definition at_link ::
  "'t ext \<Rightarrow> 't view \<Rightarrow> nat \<Rightarrow> nat \<Rightarrow> nat \<Rightarrow> nat list \<Rightarrow> svl_link_state_t \<Rightarrow> (addr \<Rightarrow> handle option) \<Rightarrow> handle \<Rightarrow> nat \<Rightarrow>
     't frame \<Rightarrow> bool" where
  "at_link E V ne nb nc writes s P h i f \<longleftrightarrow>
     io_inv E V ne nb nc writes f \<and> client_handle f = Some h \<and> link_ptr f = Some i \<and>
     link_held V f s i \<and> link_live f i h \<and> pending (log f) = P"

lemma at_link_active:
  assumes "at_link E V ne nb nc writes s P h i f" and "handle_status s = Some Active"
  shows "status (log f) h = Active"
proof -
  from assms(1) have inv: "io_inv E V ne nb nc writes f" and i: "link_held V f s i" "link_live f i h"
    by (simp_all add: at_link_def)
  from held_live_status [OF links_invD(3) [OF io_invD(1) [OF inv]] i assms(2)] show ?thesis .
qed

lemma with_handle_at [simp]: "client_handle f = Some h \<Longrightarrow> with_handle p f = p h f"
  by (simp add: with_handle_def)

lemma with_link_at [simp]:
  "link_ptr f = Some i \<Longrightarrow> link_held V f s i \<Longrightarrow> with_link p f = p i f"
  by (simp add: with_link_def held_deref)

lemma query_at_link:
  assumes at: "at_link E V ne nb nc writes s P h i f" and s: "handle_status s = Some Active"
    and c: "c = Uv_getpeername h \<or> c = Uv_getsockname h \<or> c = Uv_accept h"
  shows "at_link E V ne nb nc writes s P h i (f\<lparr>sock_addr := x, log := (c, r) # log f\<rparr>)"
proof -
  have inv: "io_inv E V ne nb nc writes (f\<lparr>sock_addr := x\<rparr>)" using at by (simp add: at_link_def)
  from io_inv_query [OF inv _ c] at_link_active [OF at s] at show ?thesis by (simp add: at_link_def)
qed

lemma triple_query:
  assumes s: "handle_status s = Some Active"
  shows "triple (at_link E V ne nb nc writes s P h i) (getpeername E)
      (at_link E V ne nb nc writes s P h i) (at_link E V ne nb nc writes s P h i)"
    and "triple (at_link E V ne nb nc writes s P h i) (getsockname E)
      (at_link E V ne nb nc writes s P h i) (at_link E V ne nb nc writes s P h i)"
proof -
  have h: "client_handle f = Some h" if "at_link E V ne nb nc writes s P h i f" for f
    using that by (simp add: at_link_def)
  show "triple (at_link E V ne nb nc writes s P h i) (getpeername E)
      (at_link E V ne nb nc writes s P h i) (at_link E V ne nb nc writes s P h i)"
    using h by (intro tripleI) (auto simp: getpeername_def uv_do_def Let_def intro!: query_at_link [OF _ s])
  show "triple (at_link E V ne nb nc writes s P h i) (getsockname E)
      (at_link E V ne nb nc writes s P h i) (at_link E V ne nb nc writes s P h i)"
    using h by (intro tripleI) (auto simp: getsockname_def uv_do_def Let_def intro!: query_at_link [OF _ s])
qed

lemma triple_convert:
  assumes s: "handle_status s = Some Active"
  shows "triple (at_link E V ne nb nc writes s P h i) (convert_remote E)
    (at_link E V ne nb nc writes s P h i) (at_link E V ne nb nc writes s P h i)"
proof (rule tripleI)
  fix f assume at: "at_link E V ne nb nc writes s P h i f"
  obtain r ep where ep: "tn_endpoint_convert_from E (sock_addr f) = (r, ep)" by fastforce
  have inv: "io_inv E V ne nb nc writes (upd_link i (\<lambda>l. l\<lparr>endpoint_remote := ep\<rparr>) f)"
    using at s by (intro io_inv_fields [of E V ne nb nc writes f s]) (auto simp: at_link_def)
  from at have held: "link_held V f s i" "link_ptr f = Some i" by (simp_all add: at_link_def)
  have "convert_remote E f = Some (r, upd_link i (\<lambda>l. l\<lparr>endpoint_remote := ep\<rparr>) f)"
    using held ep by (simp add: convert_remote_def)
  moreover have "at_link E V ne nb nc writes s P h i (upd_link i (\<lambda>l. l\<lparr>endpoint_remote := ep\<rparr>) f)"
    using inv at by (auto simp: at_link_def held_def live_def)
  ultimately show "\<exists>r s'. convert_remote E f = Some (r, s') \<and> (if r = TN_SUCCESS then at_link E V ne nb nc writes s P h i s' else at_link E V ne nb nc writes s P h i s')"
    by auto
qed

definition at_event ::
  "'t ext \<Rightarrow> 't view \<Rightarrow> nat \<Rightarrow> nat \<Rightarrow> nat \<Rightarrow> nat list \<Rightarrow> svl_link_state_t \<Rightarrow> (addr \<Rightarrow> handle option) \<Rightarrow> handle \<Rightarrow> nat \<Rightarrow>
     't frame \<Rightarrow> bool" where
  "at_event E V ne nb nc writes s P h i f \<longleftrightarrow>
     at_link E V (Suc ne) nb nc writes s P h i f \<and> (\<exists>e. open_evt f = Some e \<and> \<not> is_read e)"

lemma at_link_events:
  assumes "at_link E V ne nb nc writes s P h i f" and "events_ok V ne' l"
    and "filter is_read (ev_ready V l) = filter is_read (ev_ready V (events f))"
  shows "at_link E V ne' nb nc writes s P h i (f\<lparr>events := l, open_evt := e\<rparr>)"
  using assms by (auto simp: at_link_def io_inv_def links_inv_def buffers_ok_def)

lemma triple_pop:
  assumes env: "env_ok E V"
  shows "triple (at_link E V ne nb nc writes s P h i) (pop_open_evt E)
    (at_event E V ne nb nc writes s P h i) (at_link E V ne nb nc writes s P h i)"
proof (rule tripleI)
  fix f assume at: "at_link E V ne nb nc writes s P h i f"
  obtain r out l where pop: "tn_event_list_free_pop E TN_EVENT_CLIENT_OPEN (events f) = (r, out, l)"
    by (cases "tn_event_list_free_pop E TN_EVENT_CLIENT_OPEN (events f)") auto
  from at have "events_ok V ne (events f)" by (simp add: at_link_def io_inv_def)
  note ev = events_ok_pop [OF env_okD(4) [OF env] pop this]
  have res: "pop_open_evt E f = Some (r, f\<lparr>events := l, open_evt := out\<rparr>)" by (simp add: pop_open_evt_def pop)
  show "\<exists>r s'. pop_open_evt E f = Some (r, s') \<and>
    (if r = TN_SUCCESS then at_event E V ne nb nc writes s P h i s' else at_link E V ne nb nc writes s P h i s')"
  proof (cases "r = TN_SUCCESS")
    case True
    with ev obtain e where "out = Some e" "ev_type e = TN_EVENT_CLIENT_OPEN" "events_ok V (Suc ne) l" by blast
    with at_link_events [OF at, of "Suc ne" l out] ev(3) res True show ?thesis
      by (auto simp: at_event_def is_read_def)
  next
    case False
    with at_link_events [OF at ev(2) [OF False], of out] ev(3) res show ?thesis by simp
  qed
qed

lemma triple_fill:
  "triple (at_event E V ne nb nc writes s P h i) (fill_open_evt ob) (at_event E V ne nb nc writes s P h i) R"
proof (rule tripleI)
  fix f assume at: "at_event E V ne nb nc writes s P h i f"
  then have held: "link_held V f s i" "link_ptr f = Some i" by (simp_all add: at_event_def at_link_def)
  from at show "\<exists>r s'. fill_open_evt ob f = Some (r, s') \<and> (if r = TN_SUCCESS then at_event E V ne nb nc writes s P h i s' else R s')"
    using held by (auto simp: fill_open_evt_def at_event_def at_link_def is_read_def Let_def)
qed

lemma triple_push:
  assumes env: "env_ok E V"
  shows "triple (at_event E V ne nb nc writes s P h i) (push_open_evt E) (at_link E V ne nb nc writes s P h i) R"
proof (rule tripleI)
  fix f assume at: "at_event E V ne nb nc writes s P h i f"
  then obtain e where e: "open_evt f = Some e" "\<not> is_read e" by (auto simp: at_event_def)
  from at have at1: "at_link E V (Suc ne) nb nc writes s P h i f" by (simp add: at_event_def)
  obtain r l where push: "tn_event_list_ready_push E (events f) e = (r, l)" by fastforce
  from at1 have "events_ok V (Suc ne) (events f)" by (simp add: at_link_def io_inv_def)
  note ev = events_ok_push [OF env_okD(4) [OF env] push this, simplified e(2), simplified]
  have same: "f\<lparr>events := l, open_evt := open_evt f\<rparr> = f\<lparr>events := l\<rparr>" by simp
  have "at_link E V ne nb nc writes s P h i (f\<lparr>events := l, open_evt := open_evt f\<rparr>)"
    using ev e by (intro at_link_events [OF at1]) simp_all
  with ev(1) e(1) push
  show "\<exists>r s'. push_open_evt E f = Some (r, s') \<and> (if r = TN_SUCCESS then at_link E V ne nb nc writes s P h i s' else R s')"
    unfolding same by (simp add: push_open_evt_def)
qed

definition open_event_stmts :: "'t ext \<Rightarrow> bool \<Rightarrow> 't frame stmt list" where
  "open_event_stmts E outbound =
     [getpeername E, convert_remote E, getsockname E, convert_remote E,
      pop_open_evt E, fill_open_evt outbound, push_open_evt E]"

lemma triple_open_event:
  assumes env: "env_ok E V" and s: "handle_status s = Some Active"
  shows "triple (at_link E V ne nb nc writes s P h i) (guards (open_event_stmts E ob))
    (at_link E V ne nb nc writes s P h i) (at_link E V ne nb nc writes s P h i)"
  unfolding open_event_stmts_def
  by (rule triple_guards_Cons, rule triple_query(1) [OF s], rule triple_guards_Cons, rule triple_convert [OF s],
      rule triple_guards_Cons, rule triple_query(2) [OF s], rule triple_guards_Cons, rule triple_convert [OF s],
      rule triple_guards_Cons, rule triple_pop [OF env], rule triple_guards_Cons, rule triple_fill,
      rule triple_guards_Cons, rule triple_push [OF env], rule triple_guards_Nil)

section \<open>From a handle to a link in use\<close>

abbreviation handle_unused :: "'t view \<Rightarrow> ('t, 'x) world_scheme \<Rightarrow> addr \<Rightarrow> bool" where
  "handle_unused V w \<equiv> unused (link_free V (link_list w)) (client_map (link_list w)) (loop_handles w)
     (reading (log w)) (pending (log w))"

definition at_handle ::
  "'t ext \<Rightarrow> 't view \<Rightarrow> nat \<Rightarrow> nat \<Rightarrow> nat \<Rightarrow> nat list \<Rightarrow> block_status \<Rightarrow> handle \<Rightarrow> 't frame \<Rightarrow> bool" where
  "at_handle E V ne nb nc writes b h f \<longleftrightarrow>
     io_inv E V ne nb nc writes f \<and> client_handle f = Some h \<and> link_ptr f = None \<and>
     status (log f) h = b \<and> handle_unused V f h"

lemma io_inv_acquire:
  assumes env: "env_ok E V" and inv: "io_inv E V ne nb nc writes w" and a: "TN_MEM_ACQUIRE E (log w) blk n = Some a"
  defines "w' \<equiv> w\<lparr>log := (Mem_acquire blk n (Some a), TN_SUCCESS) # log w\<rparr>"
  shows "io_inv E V ne nb nc writes w'" and "status (log w') = (status (log w))(a := Allocated)"
    and "handle_unused V w' a" and "status (log w) a = Absent"
proof -
  from env_okD(7) [OF env] a show ab: "status (log w) a = Absent" by (simp add: mem_laws_def)
  note ok = links_invD(3) [OF io_invD(1) [OF inv]]
  show "status (log w') = (status (log w))(a := Allocated)" by (simp add: w'_def log_fun)
  from links_ok_acquire [OF ok ab] inv show "io_inv E V ne nb nc writes w'"
    by (simp add: w'_def io_inv_def links_inv_def log_fun)
  from unused_if_not_handle [OF ok ab] show "handle_unused V w' a" by (simp add: w'_def log_fun)
qed

lemma io_inv_acquire_fail:
  assumes inv: "io_inv E V ne nb nc writes w"
  shows "io_inv E V ne nb nc writes (w\<lparr>log := (Mem_acquire blk n None, r) # log w\<rparr>)"
  using assms by (simp add: io_inv_def links_inv_def log_fun)

lemma triple_acquire_handle:
  assumes env: "env_ok E V"
  shows "triple (\<lambda>f. io_inv E V ne nb nc writes f \<and> client_handle f = None \<and> link_ptr f = None \<and> connect_req f = None)
    (acquire E Blk_tcp n (\<lambda>p f. f\<lparr>client_handle := p\<rparr>))
    (\<lambda>f. \<exists>h. at_handle E V ne nb nc writes Allocated h f \<and> connect_req f = None)
    (\<lambda>f. io_inv E V ne nb nc writes f \<and> client_handle f = None \<and> link_ptr f = None \<and> connect_req f = None)"
proof (rule tripleI, elim conjE, goal_cases)
  case (1 f)
  show ?case
  proof (cases "TN_MEM_ACQUIRE E (log f) Blk_tcp n")
    case None
    with 1 io_inv_acquire_fail [OF 1(1), of Blk_tcp n TN_SUCCESS] show ?thesis by (simp add: acquire_def Let_def)
  next
    case (Some h)
    note acq = io_inv_acquire [OF env 1(1) Some]
    let ?f = "f\<lparr>log := (Mem_acquire Blk_tcp n (Some h), TN_SUCCESS) # log f, client_handle := Some h\<rparr>"
    have "at_handle E V ne nb nc writes Allocated h ?f \<and> connect_req ?f = None"
      using acq 1 by (simp add: at_handle_def)
    with Some show ?thesis by (auto simp: acquire_def Let_def)
  qed
qed

lemma triple_tcp_init:
  assumes env: "env_ok E V"
  shows "triple (\<lambda>f. at_handle E V ne nb nc writes Allocated h f \<and> X (connect_req f)) (with_handle (\<lambda>h. uv_do E (Uv_tcp_init h)))
    (\<lambda>f. at_handle E V ne nb nc writes Active h f \<and> X (connect_req f)) R"
proof (rule tripleI, elim conjE, goal_cases)
  case (1 f)
  then have inv: "io_inv E V ne nb nc writes f" and h: "client_handle f = Some h" "status (log f) h = Allocated"
    "handle_unused V f h" by (simp_all add: at_handle_def)
  from links_ok_unused_status [OF links_invD(3) [OF io_invD(1) [OF inv]] h(3), of Active] h(2) inv
  have "io_inv E V ne nb nc writes (f\<lparr>log := (Uv_tcp_init h, TN_SUCCESS) # log f\<rparr>)"
    by (simp add: io_inv_def links_inv_def log_fun)
  with 1 h env_okD(8) [OF env] show ?case by (simp add: at_handle_def uv_do_def Let_def log_fun)
qed

lemma triple_accept:
  "triple (\<lambda>f. at_handle E V ne nb nc writes Active h f \<and> X (handle_is_init f)) (with_handle (\<lambda>h. uv_do E (Uv_accept h)))
    (\<lambda>f. at_handle E V ne nb nc writes Active h f \<and> X (handle_is_init f))
    (\<lambda>f. at_handle E V ne nb nc writes Active h f \<and> X (handle_is_init f))"
proof (rule tripleI, elim conjE, goal_cases)
  case (1 f)
  then have inv: "io_inv E V ne nb nc writes f" and h: "client_handle f = Some h" "status (log f) h = Active"
    by (simp_all add: at_handle_def)
  from io_inv_query [OF inv h(2), of "Uv_accept h"] 1 h(1) show ?case
    by (simp add: at_handle_def uv_do_def Let_def)
qed

text \<open>The state after a link was taken off the free list and tied to the handle.\<close>

lemma io_inv_attach:
  assumes inv: "io_inv E V ne nb nc writes w" and ne: "link_free V (link_list w) \<noteq> []"
    and h: "status (log w) h = Active" "handle_unused V w h"
    and lf: "list_elems V lf = butlast (link_free V (link_list w))" "list_cap V lf = list_cap V (client_list_free (link_list w))"
    and l: "link_state l = SVL_LINK_NEW \<or> link_state l = SVL_LINK_OPEN" "link_priv l = Some h" "link_service l"
      "read_buffer l = None" "link_id l = link_id (client_map (link_list w) ! last (link_free V (link_list w)))"
    and rd': "\<And>q g. pending (log w) q = Some g \<Longrightarrow> rd' q = req_data w q"
  defines "i \<equiv> last (link_free V (link_list w))"
  defines "w' \<equiv> w\<lparr>link_list := (link_list w)\<lparr>client_map := (client_map (link_list w))[i := l], client_list_free := lf\<rparr>,
      handle_data := (handle_data w)(h := Some i), req_data := rd'\<rparr>"
  shows "io_inv E V ne nb nc writes w'" and "link_held V w' (link_state l) i" and "link_live w' i h"
proof -
  let ?m = "client_map (link_list w)"
  note ok = links_invD(3) [OF io_invD(1) [OF inv]] and list = links_invD(1) [OF io_invD(1) [OF inv]]
  have fr: "link_free V (link_list w) = list_elems V lf @ [i]" using ne lf(1) by (simp add: i_def)
  from list have d: "distinct (list_elems V lf @ [i])" and sub: "set (list_elems V lf @ [i]) \<subseteq> {..<unat (clients_max (link_list w))}"
    and len: "length ?m = unat (clients_max (link_list w))"
    unfolding fr [symmetric] by (simp_all add: link_list_inv_def)
  then have il: "i < length ?m" by simp
  have lh: "loop_handles w' = loop_handles w" by (simp add: w'_def loop_handles_def)
  from links_ok_attach [OF ok [unfolded fr] d il h(1) h(2) [unfolded fr] l(1-3), of rd'] rd'
  have ok': "links_ok (list_elems V lf) (?m[i := l]) ((handle_data w)(h := Some i)) rd' (loop_handles w)
     (status (log w)) (reading (log w)) (pending (log w))" by blast
  have list': "link_list_inv E V ((link_list w)\<lparr>client_map := ?m[i := l], client_list_free := lf\<rparr>)"
    using d sub l(5) lf(2) by (intro link_list_inv_upd [OF list]) (auto simp: nth_list_update_cases i_def)
  have free_i: "read_buffer (?m ! i) = None"
    using links_ok_link [OF ok il] fr by (simp add: link_ok_def)
  from io_invD(3) [OF inv] have bufs: "buffers_ok V nb (pool_read w) (?m[i := l]) (ev_ready V (events w))"
    by (rule buffers_ok_same) (simp add: l(4) free_i)
  from io_invD(5) [OF inv] have reqs: "reqs_ok V writes (priv_data w) (?m[i := l])"
    by (rule reqs_ok_links) (simp add: l(3))
  show "io_inv E V ne nb nc writes w'"
    using inv ok' list' bufs reqs unfolding io_inv_def links_inv_def lh by (simp add: w'_def)
  show "link_held V w' (link_state l) i" using il d by (simp add: held_def w'_def)
  show "link_live w' i h" unfolding live_def lh using il l(2,3) unusedD(1) [OF h(2)] by (simp add: w'_def)
qed

lemma io_inv_free_list:
  assumes "io_inv E V ne nb nc writes w" and "list_elems V lf = link_free V (link_list w)"
    and "list_cap V lf = list_cap V (client_list_free (link_list w))"
  shows "io_inv E V ne nb nc writes (w\<lparr>link_list := (link_list w)\<lparr>client_list_free := lf\<rparr>\<rparr>)"
  using assms by (simp add: io_inv_def links_inv_def link_list_inv_def)

section \<open>Inbound connections\<close>

definition attach_inbound_stmts :: "'t ext \<Rightarrow> 't frame stmt list" where
  "attach_inbound_stmts E = [open_link E, set_handle_data, init_inbound_link]"

lemma triple_attach_inbound:
  "triple (\<lambda>f. at_handle E V ne nb nc writes Active h f \<and> handle_is_init f) (guards (attach_inbound_stmts E))
    (\<lambda>f. \<exists>P i. at_link E V ne nb nc writes SVL_LINK_OPEN P h i f)
    (\<lambda>f. at_handle E V ne nb nc writes Active h f \<and> handle_is_init f)"
proof (rule tripleI, elim conjE, goal_cases)
  case (1 f)
  then have inv: "io_inv E V ne nb nc writes f" and h: "client_handle f = Some h" "link_ptr f = None"
    "status (log f) h = Active" "handle_unused V f h" by (simp_all add: at_handle_def)
  note list = links_invD(1) [OF io_invD(1) [OF inv]]
  show ?case
  proof (cases "link_free V (link_list f) = []")
    case True
    from open_empty [OF list True, of None] obtain lf where
      o: "svl_link_list_open E (link_list f) None = Some (TN_ERROR, None, (link_list f)\<lparr>client_list_free := lf\<rparr>)"
      and lf: "list_elems V lf = link_free V (link_list f)" "list_cap V lf = list_cap V (client_list_free (link_list f))"
      using True by auto
    let ?f = "f\<lparr>link_ptr := None, link_list := (link_list f)\<lparr>client_list_free := lf\<rparr>\<rparr>"
    have "io_inv E V ne nb nc writes ?f" using io_inv_free_list [of E V ne nb nc writes "f\<lparr>link_ptr := None\<rparr>" lf] inv lf by simp
    then have "at_handle E V ne nb nc writes Active h ?f \<and> handle_is_init ?f"
      using 1 h lf by (simp add: at_handle_def)
    with o h show ?thesis by (simp add: attach_inbound_stmts_def open_link_def)
  next
    case False
    let ?i = "last (link_free V (link_list f))" and ?m = "client_map (link_list f)"
    from open_nonempty [OF list False, of None] obtain lf where
      o: "svl_link_list_open E (link_list f) None = Some (TN_SUCCESS, Some ?i,
        (link_list f)\<lparr>client_map := ?m[?i := (?m ! ?i)\<lparr>cmd_open_id := TN_CMD_INVALID E, cmd_close_id := TN_CMD_INVALID E\<rparr>],
          client_list_free := lf\<rparr>)"
      and lf: "list_elems V lf = butlast (link_free V (link_list f))" "list_cap V lf = list_cap V (client_list_free (link_list f))"
      by auto
    let ?l = "(?m ! ?i)\<lparr>cmd_open_id := TN_CMD_INVALID E, cmd_close_id := TN_CMD_INVALID E, link_priv := Some h,
      link_service := True, read_state := SVL_LINK_READ_HEADER, link_state := SVL_LINK_OPEN, error_code := TN_SUCCESS,
      read_buffer := None, last_msg_id := 0\<rparr>"
    let ?f = "f\<lparr>link_ptr := Some ?i, link_list := (link_list f)\<lparr>client_map := ?m[?i := ?l], client_list_free := lf\<rparr>,
      handle_data := (handle_data f)(h := Some ?i), req_data := req_data f\<rparr>"
    have at: "at_link E V ne nb nc writes SVL_LINK_OPEN (pending (log f)) h ?i ?f"
      using io_inv_attach [of E V ne nb nc writes "f\<lparr>link_ptr := Some ?i\<rparr>" h lf ?l "req_data f"] inv False h lf
      by (simp add: at_link_def)
    have il: "?i < length ?m"
      using list last_in_set [OF False] unfolding link_list_inv_def by auto
    have "guards (attach_inbound_stmts E) f = Some (TN_SUCCESS, ?f)"
      using o h il by (simp add: attach_inbound_stmts_def open_link_def set_handle_data_def init_inbound_link_def
          with_link_def deref_link_def upd_link_def)
    with at show ?thesis by auto
  qed
qed

definition inbound_failed :: "'t ext \<Rightarrow> 't view \<Rightarrow> nat \<Rightarrow> nat \<Rightarrow> nat \<Rightarrow> nat list \<Rightarrow> 't frame \<Rightarrow> bool" where
  "inbound_failed E V ne nb nc writes f \<longleftrightarrow>
     io_inv E V ne nb nc writes f \<and> client_handle f = None \<or>
     (\<exists>h. at_handle E V ne nb nc writes Active h f \<and> handle_is_init f) \<or>
     (\<exists>P h i. at_link E V ne nb nc writes SVL_LINK_OPEN P h i f)"

lemma triple_read_start:
  "triple (at_link E V ne nb nc writes SVL_LINK_OPEN P h i) (with_handle (\<lambda>h. uv_do E (Uv_read_start h)))
    (io_inv E V ne nb nc writes) (at_link E V ne nb nc writes SVL_LINK_OPEN P h i)"
proof (rule tripleI, goal_cases)
  case (1 f)
  then have inv: "io_inv E V ne nb nc writes f" and h: "client_handle f = Some h" "link_ptr f = Some i"
    "link_held V f SVL_LINK_OPEN i" "link_live f i h" by (simp_all add: at_link_def)
  note ok = links_invD(3) [OF io_invD(1) [OF inv]]
  have act: "status (log f) h = Active" using at_link_active [OF 1] by simp
  let ?r = "uv_ret E (log f) (Uv_read_start h)"
  let ?f = "f\<lparr>log := (Uv_read_start h, ?r) # log f\<rparr>"
  have "io_inv E V ne nb nc writes ?f"
    using links_ok_read_start [OF ok h(3,4)] inv act by (simp add: io_inv_def links_inv_def log_fun)
  moreover from this have "at_link E V ne nb nc writes SVL_LINK_OPEN P h i ?f"
    using 1 by (simp add: at_link_def log_fun)
  ultimately show ?case using h(1) by (cases "?r = TN_SUCCESS") (simp_all add: uv_do_def Let_def)
qed

lemma inbound_stmts_parts:
  "inbound_stmts E =
     [acquire E Blk_tcp (sizeof E Blk_tcp) (\<lambda>p f. f\<lparr>client_handle := p\<rparr>),
      with_handle (\<lambda>h. uv_do E (Uv_tcp_init h)), assign (\<lambda>f. f\<lparr>handle_is_init := True\<rparr>),
      with_handle (\<lambda>h. uv_do E (Uv_accept h))] @
     attach_inbound_stmts E @ open_event_stmts E False @ [with_handle (\<lambda>h. uv_do E (Uv_read_start h))]"
  by (simp add: inbound_stmts_def attach_inbound_stmts_def open_event_stmts_def)

lemma triple_inbound:
  assumes env: "env_ok E V"
  shows "triple (\<lambda>f. io_inv E V ne nb nc writes f \<and> client_handle f = None \<and> link_ptr f = None \<and> connect_req f = None)
    (guards (inbound_stmts E)) (io_inv E V ne nb nc writes) (inbound_failed E V ne nb nc writes)"
proof -
  let ?R = "inbound_failed E V ne nb nc writes"
  let ?H = "\<lambda>f. \<exists>h. at_handle E V ne nb nc writes Active h f \<and> handle_is_init f"
  let ?L = "\<lambda>f. \<exists>h P i. at_link E V ne nb nc writes SVL_LINK_OPEN P h i f"
  have 1: "triple (\<lambda>f. io_inv E V ne nb nc writes f \<and> client_handle f = None \<and> link_ptr f = None \<and> connect_req f = None)
      (acquire E Blk_tcp (sizeof E Blk_tcp) (\<lambda>p f. f\<lparr>client_handle := p\<rparr>))
      (\<lambda>f. \<exists>h. at_handle E V ne nb nc writes Allocated h f \<and> True) ?R"
    by (rule triple_weaken [OF triple_acquire_handle [OF env]]) (auto simp: inbound_failed_def)
  have 2: "triple (\<lambda>f. \<exists>h. at_handle E V ne nb nc writes Allocated h f \<and> True) (with_handle (\<lambda>h. uv_do E (Uv_tcp_init h)))
      (\<lambda>f. \<exists>h. at_handle E V ne nb nc writes Active h f) ?R"
    by (rule triple_ex, rule triple_weaken [OF triple_tcp_init [OF env, where X = "\<lambda>_. True"]]) auto
  have 3: "triple (\<lambda>f. \<exists>h. at_handle E V ne nb nc writes Active h f) (assign (\<lambda>f. f\<lparr>handle_is_init := True\<rparr>)) ?H ?R"
    by (rule triple_assign) (auto simp: at_handle_def)
  have 4: "triple ?H (with_handle (\<lambda>h. uv_do E (Uv_accept h))) ?H ?R"
    by (rule triple_ex, rule triple_weaken [OF triple_accept [where X = "\<lambda>b. b"]]) (auto simp: inbound_failed_def)
  have 5: "triple ?H (guards (attach_inbound_stmts E)) ?L ?R"
    by (rule triple_ex, rule triple_weaken [OF triple_attach_inbound]) (auto simp: inbound_failed_def)
  have 6: "triple ?L (guards (open_event_stmts E False)) ?L ?R"
    by (rule triple_ex, rule triple_ex, rule triple_ex, rule triple_weaken [OF triple_open_event [OF env]])
      (auto simp: inbound_failed_def)
  have 7: "triple ?L (with_handle (\<lambda>h. uv_do E (Uv_read_start h))) (io_inv E V ne nb nc writes) ?R"
    by (rule triple_ex, rule triple_ex, rule triple_ex, rule triple_weaken [OF triple_read_start])
      (auto simp: inbound_failed_def)
  show ?thesis
    unfolding inbound_stmts_parts
    by (rule triple_guards_append, (rule triple_guards_Cons, rule 1, rule triple_guards_Cons, rule 2, rule triple_guards_Cons,
        rule 3, rule triple_guards_Cons, rule 4, rule triple_guards_Nil, assumption),
        rule triple_guards_append, rule 5, rule triple_guards_append, rule 6, rule triple_guards_Cons, rule 7,
        rule triple_guards_Nil)
qed

text \<open>A handle that no link uses is closed with \<^verbatim>\<open>on_close_handle_cb\<close>.\<close>

lemma io_inv_close_handle:
  assumes inv: "io_inv E V ne nb nc writes w" and h: "status (log w) h = Active" "handle_unused V w h"
  shows "io_inv E V ne nb nc writes (uv_close h (Some On_close_handle_cb) w)"
proof -
  from unusedD(2) [OF h(2)] have "(reading (log w))(h := False) = reading (log w)" by (auto simp: fun_eq_iff)
  with links_ok_unused_status [OF links_invD(3) [OF io_invD(1) [OF inv]] h(2), of "Closing (Some On_close_handle_cb)"]
    h(1) inv show ?thesis by (simp add: io_inv_def links_inv_def log_fun)
qed

lemma inbound_cleanup_inv:
  assumes "inbound_failed E V ne nb nc writes f"
  shows "io_inv E V ne nb nc writes (inbound_cleanup f)"
  using assms unfolding inbound_failed_def
proof (elim disjE exE conjE)
  fix h assume "at_handle E V ne nb nc writes Active h f" and "handle_is_init f"
  then show ?thesis using io_inv_close_handle [of E V ne nb nc writes f h]
    by (simp add: inbound_cleanup_def at_handle_def)
next
  fix P h i assume "at_link E V ne nb nc writes SVL_LINK_OPEN P h i f"
  then show ?thesis
    using io_inv_close_link [of E V ne nb nc writes f i h "\<lambda>l. l\<lparr>link_state := SVL_LINK_CLOSING\<rparr>"]
    by (simp add: inbound_cleanup_def at_link_def)
qed (simp add: inbound_cleanup_def)

theorem on_inbound_connection_cb_inv:
  assumes env: "env_ok E V" and inv: "io_inv E V ne nb nc writes w"
  shows "\<exists>w'. on_inbound_connection_cb E st w = Some w' \<and> io_inv E V ne nb nc writes w'"
proof (cases "st = TN_SUCCESS")
  case False
  with inv show ?thesis by (simp add: on_inbound_connection_cb_def)
next
  case True
  let ?f = "enter None None None w"
  from inv have "io_inv E V ne nb nc writes ?f \<and> client_handle ?f = None \<and> link_ptr ?f = None \<and> connect_req ?f = None"
    by (simp add: io_inv_enter)
  with triple_inbound [OF env] obtain r f where run: "guards (inbound_stmts E) ?f = Some (r, f)"
    and ok: "r = TN_SUCCESS \<Longrightarrow> io_inv E V ne nb nc writes f"
    and bad: "r \<noteq> TN_SUCCESS \<Longrightarrow> inbound_failed E V ne nb nc writes f"
    by (rule tripleD) blast
  with True io_invD(6) [OF inv] ok inbound_cleanup_inv [OF bad] show ?thesis
    by (auto simp: on_inbound_connection_cb_def io_inv_leave)
qed

section \<open>Outbound connections\<close>

lemma upd_link_id_fields:
  "release_mem p (upd_link i g w) = upd_link i g (release_mem p w)"
  "uv_close h cb (upd_link i g w) = upd_link i g (uv_close h cb w)"
  "leave (upd_link i g f) = upd_link i g (leave f)"
  "(upd_link i g w)\<lparr>log := x\<rparr> = upd_link i g (w\<lparr>log := x\<rparr>)"
  by (simp_all add: release_mem_def uv_close_def upd_link_def leave_def world.defs)

lemma leave_release: "leave (release_mem p f) = release_mem p (leave f)"
  by (simp add: release_mem_def leave_def world.defs)

lemma leave_close: "leave (uv_close h cb f) = uv_close h cb (leave f)"
  by (simp add: uv_close_def leave_def world.defs)

lemma pending_request:
  assumes at: "at_link E V ne nb nc writes SVL_LINK_NEW P h i f" and q: "P q = Some h"
  shows "status (log f) q = Allocated" and "q \<noteq> h"
proof -
  from at q have ok: "links_ok (link_free V (link_list f)) (client_map (link_list f)) (handle_data f) (req_data f)
       (loop_handles f) (status (log f)) (reading (log f)) (pending (log f))" and q': "pending (log f) q = Some h"
    by (auto simp: at_link_def io_inv_def links_inv_def)
  from links_ok_pending [OF ok q'] show "status (log f) q = Allocated" by blast
  then show "q \<noteq> h" using at_link_active [OF at] by auto
qed

lemma outbound_failed_inv:
  assumes at: "at_link E V ne nb nc writes SVL_LINK_NEW P h i f" and q: "P q = Some h"
    and g: "\<And>l. link_state (g l) = SVL_LINK_CLOSING" "\<And>l. link_priv (g l) = link_priv l"
      "\<And>l. link_service (g l) = link_service l" "\<And>l. link_id (g l) = link_id l" "\<And>l. read_buffer (g l) = read_buffer l"
  shows "io_inv E V ne nb nc writes (uv_close h (Some On_close_link_cb) (upd_link i g (release_mem (Some q) f)))"
proof -
  let ?m = "client_map (link_list f)"
  from at have inv: "io_inv E V ne nb nc writes f" and i: "link_held V f SVL_LINK_NEW i" "link_live f i h"
    and P: "pending (log f) = P" by (simp_all add: at_link_def)
  note ok = links_invD(3) [OF io_invD(1) [OF inv]] and rq = pending_request [OF at q]
  have act: "status (log f) h = Active" using at_link_active [OF at] by simp
  have others: "g' \<noteq> h \<and> ((pending (log f))(q := None)) p = Some g'" if "((pending (log f))(q := None)) p = Some g'" for p g'
  proof -
    from that have p: "p \<noteq> q" "pending (log f) p = Some g'" by (auto split: if_splits)
    then have "g' \<noteq> h" using links_ok_pending_inj [OF ok, of q h p] q P by auto
    with that show ?thesis by simp
  qed
  have l: "link_priv (g (?m ! i)) = Some h" "link_service (g (?m ! i))" using i(2) g by (simp_all add: live_def)
  have "links_ok (link_free V (link_list f)) (?m[i := g (?m ! i)]) (handle_data f) (req_data f) (loop_handles f)
     ((status (log f))(q := Absent, h := Closing (Some On_close_link_cb))) ((reading (log f))(q := False, h := False))
     ((pending (log f))(q := None))"
    by (rule links_ok_close [OF links_ok_release_plain [OF ok rq(1)] i]) (use others g(1) l in auto)
  with inv act rq show ?thesis
    by (simp add: io_inv_def links_inv_def log_fun upd_link_link_list link_list_inv_update g buffers_ok_same reqs_ok_links)
qed

lemma outbound_open_inv:
  assumes at: "at_link E V ne nb nc writes SVL_LINK_NEW P h i f" and q: "P q = Some h"
    and g: "\<And>l. link_state (g l) = SVL_LINK_OPEN" "\<And>l. link_priv (g l) = link_priv l"
      "\<And>l. link_service (g l) = link_service l" "\<And>l. link_id (g l) = link_id l" "\<And>l. read_buffer (g l) = read_buffer l"
  shows "io_inv E V ne nb nc writes
    (upd_link i g (release_mem (Some q) (f\<lparr>log := (Uv_read_start h, TN_SUCCESS) # log f\<rparr>)))"
proof -
  let ?m = "client_map (link_list f)"
  from at have inv: "io_inv E V ne nb nc writes f" and i: "link_held V f SVL_LINK_NEW i" "link_live f i h"
    and P: "pending (log f) = P" by (simp_all add: at_link_def)
  note ok = links_invD(3) [OF io_invD(1) [OF inv]] and rq = pending_request [OF at q]
  have act: "status (log f) h = Active" using at_link_active [OF at] by simp
  have l: "link_priv (g (?m ! i)) = Some h" "link_service (g (?m ! i))" using i(2) g by (simp_all add: live_def)
  have o: "held (link_free V (link_list f)) (?m[i := g (?m ! i)]) SVL_LINK_OPEN i"
    "live (?m[i := g (?m ! i)]) (handle_data f) (loop_handles f) i h"
    using i l g(1) by (auto simp: held_def live_def)
  have "links_ok (link_free V (link_list f)) (?m[i := g (?m ! i)]) (handle_data f) (req_data f) (loop_handles f)
     ((status (log f))(q := Absent)) ((reading (log f))(q := False, h := True)) ((pending (log f))(q := None))"
    by (rule links_ok_read_start [OF links_ok_connected [OF ok i _ g(1) l] o]) (simp add: P q)
  with inv act rq show ?thesis
    by (simp add: io_inv_def links_inv_def log_fun upd_link_link_list link_list_inv_update g buffers_ok_same
        reqs_ok_links fun_upd_twist)
qed

lemma outbound_stmts_parts:
  "outbound_stmts E = open_event_stmts E True @
     [with_link (\<lambda>i f. Some (TN_SUCCESS, upd_link i (\<lambda>l. l\<lparr>link_state := SVL_LINK_OPEN\<rparr>) f)),
      with_handle (\<lambda>h. uv_do E (Uv_read_start h))]"
  by (simp add: outbound_stmts_def open_event_stmts_def)

text \<open>
  The two ways the statements of the connect callback end: the link is open and being read from, or
  one of them failed.  In both cases \<open>f\<close> is the frame before the last two statements.
\<close>

lemma outbound_stmts_result:
  assumes env: "env_ok E V" and at: "at_link E V ne nb nc writes SVL_LINK_NEW P h i f0"
  shows "\<exists>f. at_link E V ne nb nc writes SVL_LINK_NEW P h i f \<and>
    (guards (outbound_stmts E) f0 = Some (TN_SUCCESS, upd_link i (\<lambda>l. l\<lparr>link_state := SVL_LINK_OPEN\<rparr>)
       (f\<lparr>log := (Uv_read_start h, TN_SUCCESS) # log f\<rparr>)) \<or>
     (\<exists>r g. r \<noteq> TN_SUCCESS \<and> guards (outbound_stmts E) f0 = Some (r, upd_link i g f) \<and>
        (g = (\<lambda>l. l) \<or> g = (\<lambda>l. l\<lparr>link_state := SVL_LINK_OPEN\<rparr>))))"
proof -
  have s: "handle_status SVL_LINK_NEW = Some Active" by simp
  from triple_open_event [OF env s] at obtain r f where run: "guards (open_event_stmts E True) f0 = Some (r, f)"
    and f: "at_link E V ne nb nc writes SVL_LINK_NEW P h i f"
    unfolding triple_def by (metis (full_types))
  show ?thesis
  proof (cases "r = TN_SUCCESS")
    case False
    have "upd_link i (\<lambda>l. l) f = f" by (simp add: upd_link_def)
    with False run f have "guards (outbound_stmts E) f0 = Some (r, upd_link i (\<lambda>l. l) f)"
      by (simp add: outbound_stmts_parts guards_append)
    with f False show ?thesis by blast
  next
    case True
    let ?g = "\<lambda>l. l\<lparr>link_state := SVL_LINK_OPEN\<rparr>" and ?r = "uv_ret E (log f) (Uv_read_start h)"
    from f have held: "link_ptr f = Some i" "link_held V f SVL_LINK_NEW i" "client_handle f = Some h"
      by (simp_all add: at_link_def)
    have res: "guards (outbound_stmts E) f0 = Some (?r, upd_link i ?g (f\<lparr>log := (Uv_read_start h, ?r) # log f\<rparr>))"
      using run True held by (simp add: outbound_stmts_parts guards_append uv_do_def Let_def upd_link_id_fields)
    show ?thesis
    proof (cases "?r = TN_SUCCESS")
      case True
      with res f show ?thesis by auto
    next
      case False
      have "at_link E V ne nb nc writes SVL_LINK_NEW P h i (f\<lparr>log := (Uv_read_start h, ?r) # log f\<rparr>)"
        using f False at_link_active [OF f s] by (auto simp: at_link_def io_inv_def links_inv_def log_fun)
      with res False show ?thesis by blast
    qed
  qed
qed

theorem on_outbound_connection_cb_inv:
  assumes env: "env_ok E V" and inv: "io_inv E V ne nb nc writes w" and q: "pending (log w) q = Some h"
  shows "\<exists>w'. on_outbound_connection_cb E q h TN_SUCCESS w = Some w' \<and> io_inv E V ne nb nc writes w'"
proof -
  note ok = links_invD(3) [OF io_invD(1) [OF inv]]
  from links_ok_pending [OF ok q] obtain i where i: "link_held V w SVL_LINK_NEW i" "link_live w i h" "req_data w q = Some i"
    by blast
  let ?f0 = "enter (Some h) (Some q) (Some i) w"
  have at0: "at_link E V ne nb nc writes SVL_LINK_NEW (pending (log w)) h i ?f0"
    using inv i by (simp add: at_link_def io_inv_enter)
  from outbound_stmts_result [OF env at0] obtain f where f: "at_link E V ne nb nc writes SVL_LINK_NEW (pending (log w)) h i f"
    and res: "guards (outbound_stmts E) ?f0 = Some (TN_SUCCESS, upd_link i (\<lambda>l. l\<lparr>link_state := SVL_LINK_OPEN\<rparr>)
       (f\<lparr>log := (Uv_read_start h, TN_SUCCESS) # log f\<rparr>)) \<or>
     (\<exists>r g. r \<noteq> TN_SUCCESS \<and> guards (outbound_stmts E) ?f0 = Some (r, upd_link i g f) \<and>
        (g = (\<lambda>l. l) \<or> g = (\<lambda>l. l\<lparr>link_state := SVL_LINK_OPEN\<rparr>)))" by blast
  have start: "on_outbound_connection_cb E q h TN_SUCCESS w =
      (case guards (outbound_stmts E) ?f0 of None \<Rightarrow> None
       | Some (r, f) \<Rightarrow> if r = TN_SUCCESS then Some (release_mem (Some q) (leave f))
           else Some (uv_close h (Some On_close_link_cb) (upd_link i (\<lambda>l. l\<lparr>link_state := SVL_LINK_CLOSING\<rparr>)
                  (release_mem (Some q) (leave f)))))"
    using i held_deref [OF i(1)] io_invD(6) [OF inv] by (auto simp: on_outbound_connection_cb_def live_def)
  from res consider
      (ok) "guards (outbound_stmts E) ?f0 = Some (TN_SUCCESS, upd_link i (\<lambda>l. l\<lparr>link_state := SVL_LINK_OPEN\<rparr>)
         (f\<lparr>log := (Uv_read_start h, TN_SUCCESS) # log f\<rparr>))"
    | (bad) r g where "r \<noteq> TN_SUCCESS" "guards (outbound_stmts E) ?f0 = Some (r, upd_link i g f)"
        "g = (\<lambda>l. l) \<or> g = (\<lambda>l. l\<lparr>link_state := SVL_LINK_OPEN\<rparr>)"
    by blast
  then show ?thesis
  proof cases
    case ok
    let ?f = "upd_link i (\<lambda>l. l\<lparr>link_state := SVL_LINK_OPEN\<rparr>) (release_mem (Some q) (f\<lparr>log := (Uv_read_start h, TN_SUCCESS) # log f\<rparr>))"
    have "io_inv E V ne nb nc writes ?f" by (rule outbound_open_inv [OF f q]) simp_all
    then have "io_inv E V ne nb nc writes (leave ?f)" by (simp add: io_inv_leave)
    moreover have "on_outbound_connection_cb E q h TN_SUCCESS w = Some (leave ?f)"
      using start ok by (simp add: upd_link_id_fields leave_release)
    ultimately show ?thesis by blast
  next
    case (bad r g)
    let ?g = "\<lambda>l. (g l)\<lparr>link_state := SVL_LINK_CLOSING\<rparr>"
    let ?f = "uv_close h (Some On_close_link_cb) (upd_link i ?g (release_mem (Some q) f))"
    have "io_inv E V ne nb nc writes ?f" by (rule outbound_failed_inv [OF f q]) (use bad(3) in auto)
    then have "io_inv E V ne nb nc writes (leave ?f)" by (simp add: io_inv_leave)
    moreover have "on_outbound_connection_cb E q h TN_SUCCESS w = Some (leave ?f)"
      using start bad(1,2) by (simp add: upd_link_id_fields leave_release leave_close upd_link_twice comp_def)
    ultimately show ?thesis by blast
  qed
qed

section \<open>The command that opens a connection\<close>

definition attach_outbound_stmts :: "'t ext \<Rightarrow> tn_cmd \<Rightarrow> 't frame stmt list" where
  "attach_outbound_stmts E c = [open_link E, init_outbound_link c, set_req_data, set_handle_data]"

text \<open>The handle is there, and so is the connect request, which nothing refers to yet.\<close>

definition at_request ::
  "'t ext \<Rightarrow> 't view \<Rightarrow> nat \<Rightarrow> nat \<Rightarrow> nat \<Rightarrow> nat list \<Rightarrow> handle \<Rightarrow> addr \<Rightarrow> 't frame \<Rightarrow> bool" where
  "at_request E V ne nb nc writes h q f \<longleftrightarrow>
     at_handle E V ne nb nc writes Active h f \<and> connect_req f = Some q \<and> status (log f) q = Allocated \<and>
     pending (log f) q = None"

definition at_connect ::
  "'t ext \<Rightarrow> 't view \<Rightarrow> nat \<Rightarrow> nat \<Rightarrow> nat \<Rightarrow> nat list \<Rightarrow> handle \<Rightarrow> addr \<Rightarrow> nat \<Rightarrow> 't frame \<Rightarrow> bool" where
  "at_connect E V ne nb nc writes h q i f \<longleftrightarrow>
     at_link E V ne nb nc writes SVL_LINK_NEW (pending (log f)) h i f \<and> connect_req f = Some q \<and>
     status (log f) q = Allocated \<and> pending (log f) q = None \<and> req_data f q = Some i \<and>
     (\<forall>p. pending (log f) p \<noteq> Some h) \<and> read_buffer (client_map (link_list f) ! i) = None"

lemma triple_acquire_request:
  assumes env: "env_ok E V"
  shows "triple (\<lambda>f. at_handle E V ne nb nc writes Active h f \<and> connect_req f = None)
    (acquire E Blk_connect n (\<lambda>p f. f\<lparr>connect_req := p\<rparr>))
    (\<lambda>f. \<exists>q. at_request E V ne nb nc writes h q f)
    (\<lambda>f. at_handle E V ne nb nc writes Active h f \<and> connect_req f = None)"
proof (rule tripleI, elim conjE, goal_cases)
  case (1 f)
  then have inv: "io_inv E V ne nb nc writes f" and h: "status (log f) h = Active" by (simp_all add: at_handle_def)
  show ?case
  proof (cases "TN_MEM_ACQUIRE E (log f) Blk_connect n")
    case None
    with 1 io_inv_acquire_fail [OF inv, of Blk_connect n TN_SUCCESS] show ?thesis
      by (simp add: acquire_def Let_def at_handle_def log_fun)
  next
    case (Some q)
    note acq = io_inv_acquire [OF env inv Some]
    from acq(4) h have "q \<noteq> h" by auto
    moreover have "pending (log f) q = None"
      using unusedD(3) [OF acq(3)] by (simp add: log_fun)
    ultimately have "at_request E V ne nb nc writes h q
        (f\<lparr>log := (Mem_acquire Blk_connect n (Some q), TN_SUCCESS) # log f, connect_req := Some q\<rparr>)"
      using acq(1) 1 by (simp add: at_request_def at_handle_def log_fun)
    with Some show ?thesis by (auto simp: acquire_def Let_def)
  qed
qed

lemma triple_attach_outbound:
  "triple (at_request E V ne nb nc writes h q) (guards (attach_outbound_stmts E c))
    (\<lambda>f. \<exists>i. at_connect E V ne nb nc writes h q i f) (at_request E V ne nb nc writes h q)"
proof (rule tripleI, goal_cases)
  case (1 f)
  then have inv: "io_inv E V ne nb nc writes f" and h: "client_handle f = Some h" "link_ptr f = None"
    "status (log f) h = Active" "handle_unused V f h" and q: "connect_req f = Some q" "status (log f) q = Allocated"
    "pending (log f) q = None" by (simp_all add: at_request_def at_handle_def)
  note list = links_invD(1) [OF io_invD(1) [OF inv]]
  show ?case
  proof (cases "link_free V (link_list f) = []")
    case True
    from open_empty [OF list True, of None] obtain lf where
      o: "svl_link_list_open E (link_list f) None = Some (TN_ERROR, None, (link_list f)\<lparr>client_list_free := lf\<rparr>)"
      and lf: "list_elems V lf = link_free V (link_list f)" "list_cap V lf = list_cap V (client_list_free (link_list f))"
      using True by auto
    let ?f = "f\<lparr>link_ptr := None, link_list := (link_list f)\<lparr>client_list_free := lf\<rparr>\<rparr>"
    have "io_inv E V ne nb nc writes ?f" using io_inv_free_list [of E V ne nb nc writes "f\<lparr>link_ptr := None\<rparr>" lf] inv lf by simp
    then have "at_request E V ne nb nc writes h q ?f" using h q lf by (simp add: at_request_def at_handle_def)
    with o h show ?thesis by (simp add: attach_outbound_stmts_def open_link_def)
  next
    case False
    let ?i = "last (link_free V (link_list f))" and ?m = "client_map (link_list f)"
    from open_nonempty [OF list False, of None] obtain lf where
      o: "svl_link_list_open E (link_list f) None = Some (TN_SUCCESS, Some ?i,
        (link_list f)\<lparr>client_map := ?m[?i := (?m ! ?i)\<lparr>cmd_open_id := TN_CMD_INVALID E, cmd_close_id := TN_CMD_INVALID E\<rparr>],
          client_list_free := lf\<rparr>)"
      and lf: "list_elems V lf = butlast (link_free V (link_list f))" "list_cap V lf = list_cap V (client_list_free (link_list f))"
      by auto
    let ?l = "(?m ! ?i)\<lparr>cmd_open_id := TN_CMD_INVALID E, cmd_close_id := TN_CMD_INVALID E, link_priv := Some h,
      link_service := True, read_state := SVL_LINK_READ_HEADER, link_state := SVL_LINK_NEW, error_code := TN_SUCCESS,
      read_buffer := None, cmd_open_id := cmd_id c\<rparr>"
    let ?f = "f\<lparr>link_ptr := Some ?i, link_list := (link_list f)\<lparr>client_map := ?m[?i := ?l], client_list_free := lf\<rparr>,
      handle_data := (handle_data f)(h := Some ?i), req_data := (req_data f)(q := Some ?i)\<rparr>"
    have il: "?i < length ?m"
      using list last_in_set [OF False] unfolding link_list_inv_def by auto
    have "((req_data f)(q := Some ?i)) p = req_data f p" if "pending (log f) p = Some g" for p g
      using that q(3) by auto
    with io_inv_attach [of E V ne nb nc writes "f\<lparr>link_ptr := Some ?i\<rparr>" h lf ?l "(req_data f)(q := Some ?i)"] inv False h lf
    have "at_link E V ne nb nc writes SVL_LINK_NEW (pending (log f)) h ?i ?f"
      by (simp add: at_link_def)
    then have at: "at_connect E V ne nb nc writes h q ?i ?f"
      using q unusedD(4) [OF h(4)] il by (simp add: at_connect_def)
    have "guards (attach_outbound_stmts E c) f = Some (TN_SUCCESS, ?f)"
      using o h q il by (simp add: attach_outbound_stmts_def open_link_def set_handle_data_def init_outbound_link_def
          with_link_def deref_link_def upd_link_def set_req_data_def)
    with at show ?thesis by auto
  qed
qed

lemma triple_connect:
  "triple (at_connect E V ne nb nc writes h q i) (tcp_connect E c)
    (io_inv E V ne nb nc writes) (at_connect E V ne nb nc writes h q i)"
proof (rule tripleI, goal_cases)
  case (1 f)
  then have at: "at_link E V ne nb nc writes SVL_LINK_NEW (pending (log f)) h i f" and q: "connect_req f = Some q"
    "status (log f) q = Allocated" "req_data f q = Some i" "\<And>p. pending (log f) p \<noteq> Some h"
    by (simp_all add: at_connect_def)
  from at have inv: "io_inv E V ne nb nc writes f" and h: "client_handle f = Some h"
    and i: "link_held V f SVL_LINK_NEW i" "link_live f i h" by (simp_all add: at_link_def)
  have act: "status (log f) h = Active" using at_link_active [OF at] by simp
  let ?c = "Uv_tcp_connect q h (cmd_endpoint c)"
  have res: "tcp_connect E c f = Some (uv_ret E (log f) ?c, f\<lparr>log := (?c, uv_ret E (log f) ?c) # log f\<rparr>)"
    using q h by (simp add: tcp_connect_def uv_do_def Let_def)
  show ?case
  proof (cases "uv_ret E (log f) ?c = TN_SUCCESS")
    case True
    from links_ok_connect [OF links_invD(3) [OF io_invD(1) [OF inv]] i q(2-4)] inv act q(2)
    have "io_inv E V ne nb nc writes (f\<lparr>log := (?c, TN_SUCCESS) # log f\<rparr>)"
      by (simp add: io_inv_def links_inv_def log_fun)
    with res True show ?thesis by simp
  next
    case False
    with 1 act have "at_connect E V ne nb nc writes h q i (f\<lparr>log := (?c, uv_ret E (log f) ?c) # log f\<rparr>)"
      by (auto simp: at_connect_def at_link_def io_inv_def links_inv_def log_fun)
    with res False show ?thesis by simp
  qed
qed

text \<open>What the code at the \<^verbatim>\<open>cleanup\<close> label finds.\<close>

definition cmd_open_failed :: "'t ext \<Rightarrow> 't view \<Rightarrow> nat \<Rightarrow> nat \<Rightarrow> nat \<Rightarrow> nat list \<Rightarrow> 't frame \<Rightarrow> bool" where
  "cmd_open_failed E V ne nb nc writes f \<longleftrightarrow>
     io_inv E V ne nb nc writes f \<and> client_handle f = None \<and> link_ptr f = None \<and> connect_req f = None \<or>
     (\<exists>h. at_handle E V ne nb nc writes Active h f \<and> connect_req f = None) \<or>
     (\<exists>h q. at_request E V ne nb nc writes h q f) \<or>
     (\<exists>h q i. at_connect E V ne nb nc writes h q i f)"

lemma io_inv_release_request:
  assumes inv: "io_inv E V ne nb nc writes w" and q: "status (log w) q = Allocated"
  shows "io_inv E V ne nb nc writes (release_mem (Some q) w)"
  using links_ok_release_plain [OF links_invD(3) [OF io_invD(1) [OF inv]] q] inv q
  by (simp add: io_inv_def links_inv_def log_fun)

lemma unused_after_release:
  assumes un: "handle_unused V w h"
  shows "handle_unused V (release_mem (Some q) w) h"
  using un by (auto simp: unused_def log_fun)

lemma cmd_open_cleanup_inv:
  assumes env: "env_ok E V" and "cmd_open_failed E V ne nb nc writes f"
  shows "io_inv E V ne nb nc writes (cmd_open_cleanup E f)"
  using assms(2) unfolding cmd_open_failed_def
proof (elim disjE exE conjE)
  fix h assume "at_handle E V ne nb nc writes Active h f" and "connect_req f = None"
  then show ?thesis using io_inv_close_handle [of E V ne nb nc writes f h]
    by (simp add: cmd_open_cleanup_def at_handle_def release_mem_def)
next
  fix h q assume at: "at_request E V ne nb nc writes h q f"
  then have inv: "io_inv E V ne nb nc writes f" and h: "client_handle f = Some h" "link_ptr f = None"
    "status (log f) h = Active" "handle_unused V f h" and q: "connect_req f = Some q" "status (log f) q = Allocated"
    by (simp_all add: at_request_def at_handle_def)
  from h q have "status (log (release_mem (Some q) f)) h = Active" by (auto simp: log_fun)
  from io_inv_close_handle [OF io_inv_release_request [OF inv q(2)] this unused_after_release [OF h(4)]] h q
  show ?thesis by (simp add: cmd_open_cleanup_def release_mem_def)
next
  fix h q i assume at: "at_connect E V ne nb nc writes h q i f"
  then have atl: "at_link E V ne nb nc writes SVL_LINK_NEW (pending (log f)) h i f" and q: "connect_req f = Some q"
    "status (log f) q = Allocated" "\<And>p. pending (log f) p \<noteq> Some h" "pending (log f) q = None"
    and buf: "read_buffer (client_map (link_list f) ! i) = None" by (simp_all add: at_connect_def)
  from atl have inv: "io_inv E V ne nb nc writes f" and h: "client_handle f = Some h" "link_ptr f = Some i"
    and i: "link_held V f SVL_LINK_NEW i" "link_live f i h" by (simp_all add: at_link_def)
  have act: "status (log f) h = Active" using at_link_active [OF atl] by simp
  note inv1 = io_inv_release_request [OF inv q(2)]
  let ?f = "release_mem (Some q) f"
  have i1: "link_held V ?f SVL_LINK_NEW i" "link_live ?f i h" using i by simp_all
  have none: "pending (log ?f) p \<noteq> Some h" for p using q(3) [of p] by (auto simp: log_fun)
  have det: "links_ok (link_free V (link_list ?f) @ [i]) (client_map (link_list ?f)) (handle_data ?f) (req_data ?f)
      (loop_handles ?f) ((status (log ?f))(h := Closing (Some On_close_handle_cb))) ((reading (log ?f))(h := False)) (pending (log ?f))"
    by (rule links_ok_detach [OF links_invD(3) [OF io_invD(1) [OF inv1]] i1]) (use none buf in simp_all)
  note list = links_invD(1) [OF io_invD(1) [OF inv]]
  have fr: "i < unat (clients_max (link_list f))" "i \<notin> set (link_free V (link_list f))"
    using i(1) list by (auto simp: held_def link_list_inv_def)
  from close_result [OF list fr] obtain lf where
    cl: "svl_link_list_close E (link_list f) i = (TN_SUCCESS, (link_list f)\<lparr>client_list_free := lf\<rparr>)"
    and lf: "list_elems V lf = link_free V (link_list f) @ [i]" "list_cap V lf = list_cap V (client_list_free (link_list f))"
    by blast
  have list': "link_list_inv E V ((link_list f)\<lparr>client_list_free := lf\<rparr>)"
    using list lf fr by (simp add: link_list_inv_def)
  have ne: "h \<noteq> q" using act q(2) by auto
  let ?w = "uv_close h (Some On_close_handle_cb) (?f\<lparr>link_list := (link_list f)\<lparr>client_list_free := lf\<rparr>\<rparr>)"
  have "cmd_open_cleanup E f = ?w"
    using h q(1) cl by (simp add: cmd_open_cleanup_def release_mem_def Let_def)
  moreover have "io_inv E V ne nb nc writes ?w"
    using inv1 det list' lf buf act ne by (simp add: io_inv_def links_inv_def log_fun)
  ultimately show ?thesis by simp
qed (simp add: cmd_open_cleanup_def release_mem_def)

lemma cmd_open_stmts_parts:
  "cmd_open_stmts E c =
     [acquire E Blk_tcp (sizeof E Blk_tcp) (\<lambda>p f. f\<lparr>client_handle := p\<rparr>),
      with_handle (\<lambda>h. uv_do E (Uv_tcp_init h)), assign (\<lambda>f. f\<lparr>handle_is_init := True\<rparr>),
      acquire E Blk_connect (sizeof E Blk_connect) (\<lambda>p f. f\<lparr>connect_req := p\<rparr>)] @
     attach_outbound_stmts E c @ [tcp_connect E c]"
  by (simp add: cmd_open_stmts_def attach_outbound_stmts_def)

lemma triple_cmd_open:
  assumes env: "env_ok E V"
  shows "triple (\<lambda>f. io_inv E V ne nb nc writes f \<and> client_handle f = None \<and> link_ptr f = None \<and> connect_req f = None)
    (guards (cmd_open_stmts E c)) (io_inv E V ne nb nc writes) (cmd_open_failed E V ne nb nc writes)"
proof -
  let ?R = "cmd_open_failed E V ne nb nc writes"
  let ?H = "\<lambda>f. \<exists>h. at_handle E V ne nb nc writes Active h f \<and> connect_req f = None"
  let ?Q = "\<lambda>f. \<exists>h q. at_request E V ne nb nc writes h q f"
  let ?C = "\<lambda>f. \<exists>h q i. at_connect E V ne nb nc writes h q i f"
  have 1: "triple (\<lambda>f. io_inv E V ne nb nc writes f \<and> client_handle f = None \<and> link_ptr f = None \<and> connect_req f = None)
      (acquire E Blk_tcp (sizeof E Blk_tcp) (\<lambda>p f. f\<lparr>client_handle := p\<rparr>))
      (\<lambda>f. \<exists>h. at_handle E V ne nb nc writes Allocated h f \<and> connect_req f = None) ?R"
    by (rule triple_weaken [OF triple_acquire_handle [OF env]]) (auto simp: cmd_open_failed_def)
  have 2: "triple (\<lambda>f. \<exists>h. at_handle E V ne nb nc writes Allocated h f \<and> connect_req f = None)
      (with_handle (\<lambda>h. uv_do E (Uv_tcp_init h))) ?H ?R"
    by (rule triple_ex, rule triple_weaken [OF triple_tcp_init [OF env, where X = "\<lambda>q. q = None"]]) auto
  have 3: "triple ?H (assign (\<lambda>f. f\<lparr>handle_is_init := True\<rparr>)) ?H ?R"
    by (rule triple_assign) (auto simp: at_handle_def)
  have 4: "triple ?H (acquire E Blk_connect (sizeof E Blk_connect) (\<lambda>p f. f\<lparr>connect_req := p\<rparr>)) ?Q ?R"
    by (rule triple_ex, rule triple_weaken [OF triple_acquire_request [OF env]]) (auto simp: cmd_open_failed_def)
  have 5: "triple ?Q (guards (attach_outbound_stmts E c)) ?C ?R"
    by (rule triple_ex, rule triple_ex, rule triple_weaken [OF triple_attach_outbound]) (auto simp: cmd_open_failed_def)
  have 6: "triple ?C (tcp_connect E c) (io_inv E V ne nb nc writes) ?R"
    by (rule triple_ex, rule triple_ex, rule triple_ex, rule triple_weaken [OF triple_connect])
      (auto simp: cmd_open_failed_def)
  show ?thesis
    unfolding cmd_open_stmts_parts
    by (rule triple_guards_append, (rule triple_guards_Cons, rule 1, rule triple_guards_Cons, rule 2, rule triple_guards_Cons,
        rule 3, rule triple_guards_Cons, rule 4, rule triple_guards_Nil, assumption),
        rule triple_guards_append, rule 5, rule triple_guards_Cons, rule 6, rule triple_guards_Nil)
qed

theorem handle_cmd_open_inv:
  assumes env: "env_ok E V" and inv: "io_inv E V ne nb nc writes w"
  shows "\<exists>w'. handle_cmd_open E c w = Some w' \<and> io_inv E V ne nb nc writes w'"
proof -
  let ?f = "enter None None None w"
  from inv have "io_inv E V ne nb nc writes ?f \<and> client_handle ?f = None \<and> link_ptr ?f = None \<and> connect_req ?f = None"
    by (simp add: io_inv_enter)
  with triple_cmd_open [OF env] obtain r f where run: "guards (cmd_open_stmts E c) ?f = Some (r, f)"
    and ok: "r = TN_SUCCESS \<Longrightarrow> io_inv E V ne nb nc writes f"
    and bad: "r \<noteq> TN_SUCCESS \<Longrightarrow> cmd_open_failed E V ne nb nc writes f"
    by (rule tripleD) blast
  with ok cmd_open_cleanup_inv [OF env bad] show ?thesis by (auto simp: handle_cmd_open_def io_inv_leave)
qed

end
