(* ===== verification/Svl_Check.thy ===== *)
theory Svl_Check
  imports Svl_Connect
begin

text \<open>
  The loop of \<^verbatim>\<open>on_check_cb\<close>, which takes commands until none is ready, and the part of the world that
  the callbacks of the IO thread leave to the main thread.
\<close>

section \<open>What the callbacks leave alone\<close>

lemma guards_keep:
  assumes "\<And>p s r s'. p \<in> set ps \<Longrightarrow> p s = Some (r, s') \<Longrightarrow> K s' = K s"
    and "guards ps s = Some (r, s')"
  shows "K s' = K s"
  using assms
proof (induction ps arbitrary: s)
  case (Cons p ps)
  from Cons.prems(2) obtain r1 s1 where p: "p s = Some (r1, s1)" by (auto split: option.splits)
  with Cons.prems(1) [of p s r1 s1] have s1: "p s = Some (r1, s1)" "K s1 = K s" by simp_all
  show ?case
  proof (cases "r1 = TN_SUCCESS")
    case True
    with s1 Cons.prems have g: "guards ps s1 = Some (r, s')" by simp
    have tl: "\<And>q t u t'. q \<in> set ps \<Longrightarrow> q t = Some (u, t') \<Longrightarrow> K t' = K t"
      using Cons.prems(1) by (meson list.set_intros(2))
    have "K s' = K s1" by (rule Cons.IH [OF tl g])
    with s1(2) show ?thesis by simp
  qed (use s1 Cons.prems(2) in simp)
qed simp

text \<open>The fields of the service that only the main thread writes, and the command list.\<close>

definition main_part where
  "main_part w = (event_updates w, event_updates_count w, buffer_count w, write_reqs_free w, host_listen w,
     client_count_max w)"

lemmas stmt_defs = acquire_def uv_do_def with_handle_def with_link_def assign_def open_link_def set_handle_data_def
  init_inbound_link_def init_outbound_link_def getpeername_def getsockname_def convert_remote_def pop_open_evt_def
  fill_open_evt_def push_open_evt_def set_req_data_def tcp_connect_def Let_def

lemma main_part_simps [simp]:
  "main_part (upd_link i f w) = main_part w" "main_part (uv_close h cb w) = main_part w"
  "main_part (release_mem p w) = main_part w" "main_part (enter ph pq pi v) = main_part v" "main_part (leave g) = main_part g"
  by (simp_all add: main_part_def upd_link_def uv_close_def release_mem_def enter_def leave_def world.defs frame.defs)

lemma cmds_leave [simp]: "cmds (leave f) = cmds f"
  by (simp add: leave_def world.defs)

lemma inbound_stmts_keep:
  "p \<in> set (inbound_stmts E) \<Longrightarrow> p s = Some (r, s') \<Longrightarrow> main_part s' = main_part s \<and> cmds s' = cmds s"
  unfolding inbound_stmts_def
  by (auto simp: stmt_defs main_part_def upd_link_def split: option.splits prod.splits if_splits)

lemma outbound_stmts_keep:
  "p \<in> set (outbound_stmts E) \<Longrightarrow> p s = Some (r, s') \<Longrightarrow> main_part s' = main_part s \<and> cmds s' = cmds s"
  unfolding outbound_stmts_def
  by (auto simp: stmt_defs main_part_def upd_link_def split: option.splits prod.splits if_splits)

lemma cmd_open_stmts_keep:
  "p \<in> set (cmd_open_stmts E c) \<Longrightarrow> p s = Some (r, s') \<Longrightarrow> main_part s' = main_part s \<and> cmds s' = cmds s"
  unfolding cmd_open_stmts_def
  by (auto simp: stmt_defs main_part_def upd_link_def split: option.splits prod.splits if_splits)

lemma on_inbound_keep:
  assumes "on_inbound_connection_cb E st w = Some w'"
  shows "main_part w' = main_part w \<and> cmds w' = cmds w"
proof -
  have "main_part f = main_part w \<and> cmds f = cmds w" if "guards (inbound_stmts E) (enter None None None w) = Some (r, f)" for r f
    using guards_keep [where K = "\<lambda>s. (main_part s, cmds s)", OF _ that] inbound_stmts_keep by fastforce
  moreover have "main_part (inbound_cleanup f) = main_part f \<and> cmds (inbound_cleanup f) = cmds f" for f :: "'a frame"
    by (simp add: inbound_cleanup_def split: option.splits)
  ultimately show ?thesis
    using assms by (auto simp: on_inbound_connection_cb_def split: if_splits option.splits)
qed

lemma on_outbound_keep:
  assumes "on_outbound_connection_cb E q h st w = Some w'"
  shows "main_part w' = main_part w \<and> cmds w' = cmds w"
proof -
  have "main_part f = main_part w \<and> cmds f = cmds w"
    if "guards (outbound_stmts E) (enter (Some h) (Some q) (Some i) w) = Some (r, f)" for r f i
    using guards_keep [where K = "\<lambda>s. (main_part s, cmds s)", OF _ that] outbound_stmts_keep by fastforce
  then show ?thesis
    using assms by (auto simp: on_outbound_connection_cb_def split: if_splits option.splits)
qed

lemma handle_cmd_open_keep:
  assumes "handle_cmd_open E c w = Some w'"
  shows "main_part w' = main_part w \<and> cmds w' = cmds w"
proof -
  have "main_part f = main_part w \<and> cmds f = cmds w" if "guards (cmd_open_stmts E c) (enter None None None w) = Some (r, f)" for r f
    using guards_keep [where K = "\<lambda>s. (main_part s, cmds s)", OF _ that] cmd_open_stmts_keep by fastforce
  moreover have "main_part (cmd_open_cleanup E f) = main_part f \<and> cmds (cmd_open_cleanup E f) = cmds f" for f :: "'a frame"
    by (auto simp: cmd_open_cleanup_def main_part_def release_mem_def uv_close_def Let_def split: option.splits)
  ultimately show ?thesis
    using assms by (auto simp: handle_cmd_open_def split: if_splits option.splits)
qed

lemma handle_cmd_close_keep:
  "handle_cmd_close E c w = Some w' \<Longrightarrow> main_part w' = main_part w \<and> cmds w' = cmds w"
  by (auto simp: handle_cmd_close_def split: option.splits prod.splits if_splits)

lemma handle_cmd_send_keep:
  "handle_cmd_send E c w = Some w' \<Longrightarrow> main_part w' = main_part w \<and> cmds w' = cmds w"
  by (auto simp: handle_cmd_send_def main_part_def Let_def split: option.splits prod.splits if_splits)

lemma handle_cmd_keep:
  "handle_cmd E c w = Some w' \<Longrightarrow> main_part w' = main_part w \<and> cmds w' = cmds w"
  by (auto simp: handle_cmd_def handle_cmd_open_keep handle_cmd_close_keep handle_cmd_send_keep split: tn_cmd_type_t.splits)

lemma on_close_link_keep: "on_close_link_cb E h w = Some w' \<Longrightarrow> main_part w' = main_part w \<and> cmds w' = cmds w"
  by (auto simp: on_close_link_cb_def main_part_def Let_def upd_link_def release_mem_def split: option.splits prod.splits if_splits)

lemma on_send_keep: "on_send_cb E q st w = Some w' \<Longrightarrow> main_part w' = main_part w \<and> cmds w' = cmds w"
  by (auto simp: on_send_cb_def main_part_def Let_def split: option.splits prod.splits if_splits)

lemma on_recv_alloc_keep: "on_recv_alloc_cb E h w = Some (out, w') \<Longrightarrow> main_part w' = main_part w \<and> cmds w' = cmds w"
  by (auto simp: on_recv_alloc_cb_def main_part_def Let_def upd_link_def split: option.splits prod.splits if_splits)

lemma recv_cleanup_keep [simp]: "main_part (recv_cleanup E h i r cl w) = main_part w" "cmds (recv_cleanup E h i r cl w) = cmds w"
  by (simp_all add: recv_cleanup_def Let_def)

lemma on_recv_keep: "on_recv_cb E h nread buf w = Some w' \<Longrightarrow> main_part w' = main_part w \<and> cmds w' = cmds w"
  by (auto simp: on_recv_cb_def Let_def split: option.splits prod.splits if_splits) (simp_all add: main_part_def upd_link_def)

lemma on_timer_keep: "main_part (on_timer_cb E w) = main_part w" "cmds (on_timer_cb E w) = cmds w"
proof -
  have "main_part (safe_close_uv_handle E p v) = main_part v" "cmds (safe_close_uv_handle E p v) = cmds v" for p and v :: "'a world"
    by (simp_all add: safe_close_uv_handle_def split: option.splits)
  then show "main_part (on_timer_cb E w) = main_part w" "cmds (on_timer_cb E w) = cmds w"
    by (simp_all add: on_timer_cb_def Let_def)
qed

section \<open>The array of write requests keeps its size\<close>

lemma handle_cmd_open_reqs:
  assumes "handle_cmd_open E c w = Some w'"
  shows "priv_data w' = priv_data w"
proof -
  have "priv_data f = priv_data w" if "guards (cmd_open_stmts E c) (enter None None None w) = Some (r, f)" for r f
  proof -
    have "priv_data s' = priv_data s" if "p \<in> set (cmd_open_stmts E c)" "p s = Some (r, s')" for p s r s'
      using that unfolding cmd_open_stmts_def
      by (auto simp: stmt_defs upd_link_def split: option.splits prod.splits if_splits)
    from guards_keep [where K = priv_data, OF this that] show ?thesis by (simp add: enter_def world.defs)
  qed
  moreover have "priv_data (cmd_open_cleanup E f) = priv_data f" for f :: "'a frame"
    by (auto simp: cmd_open_cleanup_def release_mem_def uv_close_def Let_def split: option.splits)
  ultimately show ?thesis
    using assms by (auto simp: handle_cmd_open_def leave_def world.defs split: if_splits option.splits)
qed

lemma handle_cmd_reqs:
  assumes "handle_cmd E c w = Some w'"
  shows "length (send_req (priv_data w')) = length (send_req (priv_data w))"
proof (cases "cmd_type c")
  case TN_CMD_CLIENT_OPEN
  with assms handle_cmd_open_reqs [of E c w w'] show ?thesis by (simp add: handle_cmd_def)
next
  case TN_CMD_CLIENT_CLOSE
  with assms show ?thesis by (auto simp: handle_cmd_def handle_cmd_close_def split: option.splits prod.splits if_splits)
next
  case TN_CMD_CLIENT_SEND
  with assms show ?thesis by (auto simp: handle_cmd_def handle_cmd_send_def Let_def split: option.splits prod.splits if_splits)
qed (use assms in \<open>simp add: handle_cmd_def\<close>)

section \<open>The loop over the commands\<close>

theorem handle_cmd_inv:
  assumes env: "env_ok E V" and inv: "io_inv E V ne nb nc writes w"
  shows "\<exists>w' ws. handle_cmd E c w = Some w' \<and> io_inv E V ne nb nc (ws @ writes) w'"
proof (cases "cmd_type c")
  case TN_CMD_NONE
  with inv show ?thesis by (simp add: handle_cmd_def) (metis append_Nil)
next
  case TN_CMD_CLIENT_OPEN
  with handle_cmd_open_inv [OF env inv, of c] show ?thesis by (simp add: handle_cmd_def) (metis append_Nil)
next
  case TN_CMD_CLIENT_CLOSE
  with handle_cmd_close_inv [OF env inv, of c] show ?thesis by (simp add: handle_cmd_def) (metis append_Nil)
next
  case TN_CMD_CLIENT_SEND
  with handle_cmd_send_inv [OF env inv, of c] show ?thesis by (auto simp: handle_cmd_def)
qed

lemma io_inv_cmds:
  "io_inv E V ne nb nc writes w \<Longrightarrow> cmds_ok V nc' l \<Longrightarrow> io_inv E V ne nb nc' writes (w\<lparr>cmds := l\<rparr>)"
  by (simp add: io_inv_def links_inv_def)

text \<open>
  The loop ends.  It has taken and handled every command that was ready, put each of them back, and
  kept the invariant; \<open>ws\<close> are the write requests it has handed to libuv.
\<close>

theorem on_check_cb_inv:
  assumes env: "env_ok E V" and inv: "io_inv E V ne nb nc writes w"
  shows "\<exists>w' ws. on_check_cb E w = Some w' \<and> io_inv E V ne nb nc (ws @ writes) w' \<and>
    cmd_ready V (cmds w') = [] \<and> main_part w' = main_part w \<and>
    length (send_req (priv_data w')) = length (send_req (priv_data w))"
  using inv
proof (induction "length (cmd_ready V (cmds w))" arbitrary: w writes rule: less_induct)
  case less
  obtain r out l where pop: "tn_cmd_list_ready_pop_back E (cmds w) = (r, out, l)"
    by (cases "tn_cmd_list_ready_pop_back E (cmds w)") auto
  note law = cmd_ready_pop_law [OF env_okD(5) [OF env] pop]
  note cm = io_invD(4) [OF less.prems]
  show ?case
  proof (cases "r = TN_SUCCESS")
    case False
    with law cm have "cmds_ok V nc l" "cmd_ready V l = []" by (simp_all add: cmds_ok_def)
    with io_inv_cmds [OF less.prems, of nc l] False pop show ?thesis
      by (auto simp: on_check_cb.simps [of E w] main_part_def intro!: exI [of _ "[]"])
  next
    case True
    with law(5) obtain c where c: "out = Some c" "mset (cmd_ready V (cmds w)) = add_mset c (mset (cmd_ready V l))" by blast
    from c(2) have len: "length (cmd_ready V (cmds w)) = Suc (length (cmd_ready V l))"
      by (metis size_add_mset size_mset)
    with cm law(1,2) have cm1: "cmds_ok V (Suc nc) l" by (simp add: cmds_ok_def)
    from handle_cmd_inv [OF env io_inv_cmds [OF less.prems cm1], of c] obtain w1 ws where
      w1: "handle_cmd E c (w\<lparr>cmds := l\<rparr>) = Some w1" "io_inv E V ne nb (Suc nc) (ws @ writes) w1" by blast
    from handle_cmd_keep [OF w1(1)] have keep: "main_part w1 = main_part w" "cmds w1 = l" by (simp_all add: main_part_def)
    have "cmd_free V l < cmd_cap V l" using cm1 by (simp add: cmds_ok_def)
    note push = cmd_free_push_law [OF env_okD(5) [OF env] this, of c]
    let ?w2 = "w1\<lparr>cmds := snd (tn_cmd_list_free_push E l c)\<rparr>"
    have inv2: "io_inv E V ne nb nc (ws @ writes) ?w2"
      using w1(2) cm1 push by (intro io_inv_cmds) (simp_all add: cmds_ok_def)
    have "length (cmd_ready V (cmds ?w2)) < length (cmd_ready V (cmds w))" using push(2) len by simp
    from less.hyps [OF this inv2] obtain w' ws' where
      "on_check_cb E ?w2 = Some w'" "io_inv E V ne nb nc (ws' @ ws @ writes) w'" "cmd_ready V (cmds w') = []"
      "main_part w' = main_part ?w2" "length (send_req (priv_data w')) = length (send_req (priv_data ?w2))" by blast
    moreover have "length (send_req (priv_data w1)) = length (send_req (priv_data w))" using handle_cmd_reqs [OF w1(1)] by simp
    moreover have "on_check_cb E w = on_check_cb E ?w2"
      using pop True c(1) w1(1) keep(2) by (simp add: on_check_cb.simps [of E w])
    ultimately show ?thesis using keep(1) by (auto simp: main_part_def intro!: exI [of _ "ws' @ ws"])
  qed
qed

end
