(* ===== verification/Svl_IO_Thread.thy ===== *)
theory Svl_IO_Thread
  imports Svl_Check
begin

text \<open>
  The body of the IO thread, \<^verbatim>\<open>svl_service_io_thread\<close> of \<^verbatim>\<open>src/svlynx/service.c\<close>: it allocates the loop and
  its handles, starts them, listens if a listen address is set, runs the loop and takes everything
  down again.

  The frame adds the local variable \<^verbatim>\<open>ret\<close>, which decides at the end whether the service goes to the
  error state: some of the guarded calls assign it and some do not.  \<^verbatim>\<open>uv_run\<close> is the argument \<open>run\<close>:
  what the callbacks make of the world until the loop ends, and the value it returns.
\<close>

section \<open>The body\<close>

record 't io_frame = "'t world" +
  io_ret :: code

definition enter_io :: "'t world \<Rightarrow> 't io_frame" where
  "enter_io w = world.extend w (io_frame.fields UV_ENOMEM)"

definition leave_io :: "'t io_frame \<Rightarrow> 't world" where
  "leave_io f = world.truncate f"

definition set_priv :: "('t svl_service_priv \<Rightarrow> 't svl_service_priv) \<Rightarrow> ('t, 'x) world_scheme \<Rightarrow> ('t, 'x) world_scheme" where
  "set_priv g f = f\<lparr>priv_data := g (priv_data f)\<rparr>"

text \<open>
  \<^verbatim>\<open>TN_GUARD_CLEANUP(ret = uv_..(..))\<close> on a handle that \<^verbatim>\<open>priv\<close> points at; a null pointer is not allowed
  there.
\<close>

definition io_uv ::
  "'t ext \<Rightarrow> ('t svl_service_priv \<Rightarrow> handle option) \<Rightarrow> (handle \<Rightarrow> 't io_frame \<Rightarrow> uv_call) \<Rightarrow> 't io_frame stmt" where
  "io_uv E sel c f =
     (case sel (priv_data f) of
        None \<Rightarrow> None
      | Some h \<Rightarrow>
          (case uv_do E (c h f) f of
             None \<Rightarrow> None
           | Some (r, f) \<Rightarrow> Some (r, f\<lparr>io_ret := r\<rparr>)))"

text \<open>
  The loop that fills the list of free write requests: \<open>k\<close> iterations are left, the next one is for
  index \<open>i\<close>.  The counter is an \<^verbatim>\<open>int\<close>, and an overflow of it is undefined.
\<close>

fun fill_send_reqs :: "'t ext \<Rightarrow> nat \<Rightarrow> nat \<Rightarrow> 't io_frame stmt" where
  "fill_send_reqs E 0 i f = Some (TN_SUCCESS, f)"
| "fill_send_reqs E (Suc k) i f =
     (if 2 ^ 31 \<le> Suc i \<or> length (send_req (priv_data f)) \<le> i then None
      else
        (case tn_list_ptr_push_back E (send_req_list (priv_data f)) i of (r, l) \<Rightarrow>
           let f = set_priv (\<lambda>p. p\<lparr>send_req_list := l\<rparr>) f in
           if r \<noteq> TN_SUCCESS then Some (r, f) else fill_send_reqs E k (Suc i) f))"

definition backlog :: "('t, 'x) world_scheme \<Rightarrow> u64" where
  "backlog w = (if client_count_max w < UINT16_MAX then client_count_max w else UINT16_MAX)"

definition listen_stmts :: "'t ext \<Rightarrow> 't io_frame stmt list" where
  "listen_stmts E =
     [io_uv E tcp_handle (\<lambda>h f. Uv_tcp_init h),
      io_uv E tcp_handle (\<lambda>h f. Uv_tcp_nodelay h),
      io_uv E tcp_handle (\<lambda>h f. Uv_tcp_bind h (host_listen f)),
      io_uv E tcp_handle (\<lambda>h f. Uv_listen h (backlog f)),
      (\<lambda>f. Some (tn_endpoint_string_get E (host_listen f), f))]"

definition listen_stmt :: "'t ext \<Rightarrow> 't io_frame stmt" where
  "listen_stmt E f =
     (let af = tn_endpoint_af_get E (host_listen f) in
      if af = AF_INET E \<or> af = AF_INET6 E then guards (listen_stmts E) f
      else Some (TN_SUCCESS, set_priv (\<lambda>p. p\<lparr>tcp_handle := None\<rparr>) f))"

definition acquire_stmts :: "'t ext \<Rightarrow> svl_service_write_req \<Rightarrow> u64 \<Rightarrow> 't io_frame stmt list" where
  "acquire_stmts E junk n =
     [acquire E Blk_loop (sizeof E Blk_loop) (\<lambda>a. set_priv (\<lambda>p. p\<lparr>uv_loop := a\<rparr>)),
      acquire E Blk_tcp (sizeof E Blk_tcp) (\<lambda>a. set_priv (\<lambda>p. p\<lparr>tcp_handle := a\<rparr>)),
      acquire E Blk_timer (sizeof E Blk_timer) (\<lambda>a. set_priv (\<lambda>p. p\<lparr>uv_accept_timer := a\<rparr>)),
      acquire E Blk_prepare (sizeof E Blk_prepare) (\<lambda>a. set_priv (\<lambda>p. p\<lparr>uv_prep := a\<rparr>)),
      acquire E Blk_check (sizeof E Blk_check) (\<lambda>a. set_priv (\<lambda>p. p\<lparr>uv_check := a\<rparr>)),
      acquire E Blk_signal (sizeof E Blk_signal) (\<lambda>a. set_priv (\<lambda>p. p\<lparr>uv_signal := a\<rparr>)),
      acquire E Blk_write_req (sizeof E Blk_write_req * n)
        (\<lambda>a. set_priv (\<lambda>p. p\<lparr>send_req_ptr := a, send_req := replicate (array_len E Blk_write_req n) junk\<rparr>))]"

definition uv_start_stmts :: "'t ext \<Rightarrow> 't io_frame stmt list" where
  "uv_start_stmts E =
     [io_uv E uv_loop (\<lambda>h f. Uv_loop_init h),
      io_uv E uv_accept_timer (\<lambda>h f. Uv_timer_init h),
      io_uv E uv_accept_timer (\<lambda>h f. Uv_timer_start h 100 100),
      io_uv E uv_prep (\<lambda>h f. Uv_prepare_init h),
      io_uv E uv_prep (\<lambda>h f. Uv_prepare_start h),
      io_uv E uv_check (\<lambda>h f. Uv_check_init h),
      io_uv E uv_check (\<lambda>h f. Uv_check_start h),
      io_uv E uv_signal (\<lambda>h f. Uv_signal_init h),
      io_uv E uv_signal (\<lambda>h f. Uv_signal_start h)]"

definition io_setup_stmts :: "'t ext \<Rightarrow> svl_service_write_req \<Rightarrow> u64 \<Rightarrow> 't io_frame stmt list" where
  "io_setup_stmts E junk n =
     acquire_stmts E junk n @
     [setup_obj (tn_list_ptr_setup E n) (\<lambda>x. set_priv (\<lambda>p. p\<lparr>send_req_list := x\<rparr>)),
      fill_send_reqs E (unat n) 0] @
     uv_start_stmts E @ [listen_stmt E]"

text \<open>\<^verbatim>\<open>TN_MEM_RELEASE(priv->field)\<close>: \<open>sel\<close> reads the field and \<open>upd\<close> stores the pointer it has afterwards.\<close>

definition release_field ::
  "'t ext \<Rightarrow> ('t svl_service_priv \<Rightarrow> addr option) \<Rightarrow> (addr option \<Rightarrow> 't svl_service_priv \<Rightarrow> 't svl_service_priv) \<Rightarrow>
     't io_frame \<Rightarrow> 't io_frame" where
  "release_field E sel upd f =
     (let a = sel (priv_data f) in set_priv (upd (released_ptr E a)) (release_mem a f))"

definition io_cleanup :: "'t ext \<Rightarrow> 't io_frame \<Rightarrow> 't io_frame" where
  "io_cleanup E f =
     (let f = (if io_ret f \<noteq> TN_SUCCESS then svl_service_set_state SVL_SERVICE_ERROR f else f);
          f = release_field E uv_check (\<lambda>a p. p\<lparr>uv_check := a\<rparr>) f;
          f = release_field E uv_prep (\<lambda>a p. p\<lparr>uv_prep := a\<rparr>) f;
          f = release_field E uv_accept_timer (\<lambda>a p. p\<lparr>uv_accept_timer := a\<rparr>) f;
          f = release_field E tcp_handle (\<lambda>a p. p\<lparr>tcp_handle := a\<rparr>) f;
          f = release_field E uv_loop (\<lambda>a p. p\<lparr>uv_loop := a\<rparr>) f;
          f = release_field E send_req_ptr (\<lambda>a p. p\<lparr>send_req_ptr := a\<rparr>) f
      in set_priv (\<lambda>p. p\<lparr>send_req_list := tn_list_ptr_cleanup E (send_req_list p)\<rparr>) f)"

text \<open>\<^verbatim>\<open>uv_walk\<close> calls \<^verbatim>\<open>on_walk_cb\<close> for every handle of the loop.\<close>

fun walk_handles :: "'t ext \<Rightarrow> handle list \<Rightarrow> 't world \<Rightarrow> 't world" where
  "walk_handles E [] w = w"
| "walk_handles E (h # hs) w = walk_handles E hs (on_walk_cb E h w)"

definition io_run :: "'t ext \<Rightarrow> ('t world \<Rightarrow> (code \<times> 't world) option) \<Rightarrow> 't world \<Rightarrow> (code \<times> 't world) option" where
  "io_run E run w =
     (if svl_service_state w = SVL_SERVICE_STARTING
      then run (svl_service_set_state SVL_SERVICE_STARTED w)
      else Some (TN_SUCCESS, w))"

text \<open>
  The end of the body before the \<^verbatim>\<open>cleanup\<close> label: the loop is closed, after \<^verbatim>\<open>uv_walk\<close> if it does not
  close at once.  The result is the final value of \<^verbatim>\<open>ret\<close>.
\<close>

definition io_close_loop :: "'t ext \<Rightarrow> 't world \<Rightarrow> (code \<times> 't world) option" where
  "io_close_loop E w =
     (case uv_loop (priv_data w) of
        None \<Rightarrow> None
      | Some lp \<Rightarrow>
          (case uv_do E (Uv_loop_close lp) w of
             None \<Rightarrow> None
           | Some (r, w) \<Rightarrow>
               if r = TN_SUCCESS then Some (TN_SUCCESS, w)
               else
                 let w = w\<lparr>log := (Uv_walk lp, TN_SUCCESS) # log w\<rparr>;
                     w = walk_handles E (uv_handle_list E (log w)) w
                 in (case uv_do E (Uv_loop_close lp) w of
                       None \<Rightarrow> None
                     | Some (r, w) \<Rightarrow> if r \<noteq> TN_SUCCESS then Some (r, w) else Some (TN_SUCCESS, w))))"

definition svl_service_io_thread ::
  "'t ext \<Rightarrow> svl_service_write_req \<Rightarrow> ('t world \<Rightarrow> (code \<times> 't world) option) \<Rightarrow> 't world \<Rightarrow> 't world option" where
  "svl_service_io_thread E junk run w =
     (if service_priv w = None then Some w
      else
        let f = enter_io (set_priv (\<lambda>p. p\<lparr>uv_loop := None, tcp_handle := None, uv_accept_timer := None,
                  uv_prep := None, uv_check := None\<rparr>) w)
        in (case guards (io_setup_stmts E junk (buffer_count w)) f of
              None \<Rightarrow> None
            | Some (r, f) \<Rightarrow>
                if r \<noteq> TN_SUCCESS then Some (leave_io (io_cleanup E f))
                else
                  (case io_run E run (leave_io f) of
                     None \<Rightarrow> None
                   | Some (r, w) \<Rightarrow>
                       (case io_close_loop E w of
                          None \<Rightarrow> None
                        | Some (r, w) \<Rightarrow> Some (leave_io (io_cleanup E ((enter_io w)\<lparr>io_ret := r\<rparr>)))))))"

section \<open>Start-up establishes the invariant\<close>

text \<open>The log of a service whose IO thread has not started: libuv has nothing to report.\<close>

definition calm :: "uv_log \<Rightarrow> bool" where
  "calm lg \<longleftrightarrow> (\<forall>h. \<not> reading lg h) \<and> (\<forall>q. pending lg q = None) \<and> (\<forall>h. status lg h \<noteq> Closing (Some On_close_link_cb))"

text \<open>What \<^verbatim>\<open>svl_service_setup\<close> leaves: every link, event, buffer and command is free.\<close>

definition service_ready :: "'t ext \<Rightarrow> 't view \<Rightarrow> ('t, 'x) world_scheme \<Rightarrow> bool" where
  "service_ready E V w \<longleftrightarrow>
     link_list_inv E V (link_list w) \<and> set (link_free V (link_list w)) = {..<length (client_map (link_list w))} \<and>
     (\<forall>l \<in> set (client_map (link_list w)). link_state l = SVL_LINK_NEW \<and> read_buffer l = None) \<and>
     events_ok V 0 (events w) \<and> ev_ready V (events w) = [] \<and> pool_size V (pool_read w) = pool_cap V (pool_read w) \<and>
     cmds_ok V 0 (cmds w) \<and> service_priv w \<noteq> None \<and> log_ok (log w) \<and> calm (log w)"

lemma guards_success:
  "guards (p # ps) s = Some (TN_SUCCESS, s') \<longleftrightarrow>
     (\<exists>s1. p s = Some (TN_SUCCESS, s1) \<and> guards ps s1 = Some (TN_SUCCESS, s'))"
  by (auto split: option.splits if_splits)

lemma guards_append_success:
  "guards (ps @ qs) s = Some (TN_SUCCESS, s') \<longleftrightarrow>
     (\<exists>s1. guards ps s = Some (TN_SUCCESS, s1) \<and> guards qs s1 = Some (TN_SUCCESS, s'))"
  by (auto simp: guards_append split: option.splits if_splits)

lemma links_ok_quiet:
  assumes "set free = {..<length m}" and "\<And>l. l \<in> set m \<Longrightarrow> link_state l = SVL_LINK_NEW \<and> read_buffer l = None"
    and "calm lg" and "\<And>h. h \<in> lh \<Longrightarrow> status lg h = Active"
  shows "links_ok free m hp rd lh (status lg) (reading lg) (pending lg)"
  using assms by (auto simp: links_ok_def link_ok_def calm_def)

lemma link_buffers_none: "(\<And>l. l \<in> set m \<Longrightarrow> read_buffer l = None) \<Longrightarrow> link_buffers m = 0"
  by (simp add: link_buffers_def)

text \<open>
  The part of the world that start-up does not touch; it changes \<^verbatim>\<open>priv\<close>, the log and \<^verbatim>\<open>ret\<close> only.
\<close>

definition rest :: "'t io_frame \<Rightarrow> 't io_frame" where
  "rest f = f\<lparr>priv_data := undefined, log := [], io_ret := TN_SUCCESS\<rparr>"

lemma service_ready_inv:
  assumes ready: "service_ready E V w" and log: "log_ok lg" "calm lg"
    and reqs: "reqs_ok V [] p (client_map (link_list w))"
    and lh: "\<And>h. h \<in> loop_handles (w\<lparr>priv_data := p\<rparr>) \<Longrightarrow> status lg h = Active"
  shows "io_inv E V 0 0 0 [] (w\<lparr>priv_data := p, log := lg\<rparr>)"
proof -
  from ready have fr: "set (link_free V (link_list w)) = {..<length (client_map (link_list w))}"
    and m: "\<And>l. l \<in> set (client_map (link_list w)) \<Longrightarrow> link_state l = SVL_LINK_NEW \<and> read_buffer l = None"
    by (simp_all add: service_ready_def)
  have "links_ok (link_free V (link_list w)) (client_map (link_list w)) (handle_data w) (req_data w)
     (loop_handles (w\<lparr>priv_data := p\<rparr>)) (status lg) (reading lg) (pending lg)"
    using fr m log(2) lh by (rule links_ok_quiet)
  with ready log reqs m show ?thesis
    by (simp add: io_inv_def links_inv_def service_ready_def buffers_ok_def link_buffers_none loop_handles_def)
qed

lemma fill_send_reqs_result:
  assumes laws: "list_laws E V" and "fill_send_reqs E k i f = Some (TN_SUCCESS, f')"
    and "length (list_elems V (send_req_list (priv_data f))) = i"
  shows "\<exists>l. f' = set_priv (\<lambda>p. p\<lparr>send_req_list := l\<rparr>) f \<and>
    list_elems V l = list_elems V (send_req_list (priv_data f)) @ [i..<i + k] \<and>
    list_cap V l = list_cap V (send_req_list (priv_data f))"
  using assms(2,3)
proof (induction k arbitrary: i f)
  case 0
  then show ?case by (intro exI [of _ "send_req_list (priv_data f)"]) (simp add: set_priv_def)
next
  case (Suc k)
  obtain r l where push: "tn_list_ptr_push_back E (send_req_list (priv_data f)) i = (r, l)" by fastforce
  note law = list_push_law [OF laws push]
  let ?f = "set_priv (\<lambda>p. p\<lparr>send_req_list := l\<rparr>) f"
  from Suc.prems(1) push have r: "r = TN_SUCCESS" and run: "fill_send_reqs E k (Suc i) ?f = Some (TN_SUCCESS, f')"
    by (auto simp: Let_def split: if_splits)
  have "length (list_elems V (send_req_list (priv_data ?f))) = Suc i" using law r Suc.prems(2) by (simp add: set_priv_def)
  from Suc.IH [OF run this] obtain l' where "f' = set_priv (\<lambda>p. p\<lparr>send_req_list := l'\<rparr>) ?f"
    "list_elems V l' = list_elems V l @ [Suc i..<Suc i + k]" "list_cap V l' = list_cap V l"
    by (auto simp: set_priv_def)
  with law r show ?case by (intro exI [of _ l']) (simp add: set_priv_def upt_conv_Cons)
qed

lemma mem_fresh: "mem_laws E \<Longrightarrow> TN_MEM_ACQUIRE E lg b n = Some a \<Longrightarrow> status lg a = Absent"
  by (simp add: mem_laws_def)

lemma acquire_success:
  "acquire E blk n store f = Some (TN_SUCCESS, f') \<longleftrightarrow>
     (\<exists>a. TN_MEM_ACQUIRE E (log f) blk n = Some a \<and>
        f' = store (Some a) (f\<lparr>log := (Mem_acquire blk n (Some a), TN_SUCCESS) # log f\<rparr>))"
  by (auto simp: acquire_def Let_def split: if_splits)

lemma io_uv_success:
  "io_uv E sel c f = Some (TN_SUCCESS, f') \<longleftrightarrow>
     (\<exists>h. sel (priv_data f) = Some h \<and> uv_ret E (log f) (c h f) = TN_SUCCESS \<and>
        f' = f\<lparr>log := (c h f, TN_SUCCESS) # log f, io_ret := TN_SUCCESS\<rparr>)"
  by (auto simp: io_uv_def uv_do_def Let_def split: option.splits)

text \<open>The blocks in \<open>as\<close> are allocated, and they are different.\<close>

definition allocated :: "addr list \<Rightarrow> uv_log \<Rightarrow> bool" where
  "allocated as lg \<longleftrightarrow> distinct as \<and> (\<forall>a \<in> set as. status lg a = Allocated) \<and> log_ok lg \<and> calm lg"

lemma allocated_acquire:
  assumes "mem_laws E" and "allocated as lg" and "TN_MEM_ACQUIRE E lg b n = Some a"
  shows "allocated (a # as) ((Mem_acquire b n (Some a), TN_SUCCESS) # lg)"
  using assms(2) mem_fresh [OF assms(1,3)] by (auto simp: allocated_def calm_def)

lemma acquire_stmts_result:
  assumes mem: "mem_laws E" and f: "allocated [] (log f)"
    and run: "guards (acquire_stmts E junk n) f = Some (TN_SUCCESS, f')"
  shows "\<exists>a1 a2 a3 a4 a5 a6 a7 lg. allocated [a7, a6, a5, a4, a3, a2, a1] lg \<and>
    f' = f\<lparr>priv_data := (priv_data f)\<lparr>uv_loop := Some a1, tcp_handle := Some a2, uv_accept_timer := Some a3,
           uv_prep := Some a4, uv_check := Some a5, uv_signal := Some a6, send_req_ptr := Some a7,
           send_req := replicate (array_len E Blk_write_req n) junk\<rparr>, log := lg\<rparr>"
proof -
  let ?acq = "\<lambda>blk n a lg. (Mem_acquire blk n (Some a), TN_SUCCESS) # lg"
  from run obtain a1 a2 a3 a4 a5 a6 a7 where m:
    "TN_MEM_ACQUIRE E (log f) Blk_loop (sizeof E Blk_loop) = Some a1"
    "TN_MEM_ACQUIRE E (?acq Blk_loop (sizeof E Blk_loop) a1 (log f)) Blk_tcp (sizeof E Blk_tcp) = Some a2"
    "TN_MEM_ACQUIRE E (?acq Blk_tcp (sizeof E Blk_tcp) a2 (?acq Blk_loop (sizeof E Blk_loop) a1 (log f))) Blk_timer (sizeof E Blk_timer) = Some a3"
    "TN_MEM_ACQUIRE E (?acq Blk_timer (sizeof E Blk_timer) a3 (?acq Blk_tcp (sizeof E Blk_tcp) a2 (?acq Blk_loop (sizeof E Blk_loop) a1 (log f)))) Blk_prepare (sizeof E Blk_prepare) = Some a4"
    "TN_MEM_ACQUIRE E (?acq Blk_prepare (sizeof E Blk_prepare) a4 (?acq Blk_timer (sizeof E Blk_timer) a3 (?acq Blk_tcp (sizeof E Blk_tcp) a2 (?acq Blk_loop (sizeof E Blk_loop) a1 (log f))))) Blk_check (sizeof E Blk_check) = Some a5"
    "TN_MEM_ACQUIRE E (?acq Blk_check (sizeof E Blk_check) a5 (?acq Blk_prepare (sizeof E Blk_prepare) a4 (?acq Blk_timer (sizeof E Blk_timer) a3 (?acq Blk_tcp (sizeof E Blk_tcp) a2 (?acq Blk_loop (sizeof E Blk_loop) a1 (log f)))))) Blk_signal (sizeof E Blk_signal) = Some a6"
    "TN_MEM_ACQUIRE E (?acq Blk_signal (sizeof E Blk_signal) a6 (?acq Blk_check (sizeof E Blk_check) a5 (?acq Blk_prepare (sizeof E Blk_prepare) a4 (?acq Blk_timer (sizeof E Blk_timer) a3 (?acq Blk_tcp (sizeof E Blk_tcp) a2 (?acq Blk_loop (sizeof E Blk_loop) a1 (log f))))))) Blk_write_req (sizeof E Blk_write_req * n) = Some a7"
    and f': "f' = f\<lparr>priv_data := (priv_data f)\<lparr>uv_loop := Some a1, tcp_handle := Some a2, uv_accept_timer := Some a3,
           uv_prep := Some a4, uv_check := Some a5, uv_signal := Some a6, send_req_ptr := Some a7,
           send_req := replicate (array_len E Blk_write_req n) junk\<rparr>,
         log := ?acq Blk_write_req (sizeof E Blk_write_req * n) a7 (?acq Blk_signal (sizeof E Blk_signal) a6 (?acq Blk_check (sizeof E Blk_check) a5 (?acq Blk_prepare (sizeof E Blk_prepare) a4 (?acq Blk_timer (sizeof E Blk_timer) a3 (?acq Blk_tcp (sizeof E Blk_tcp) a2 (?acq Blk_loop (sizeof E Blk_loop) a1 (log f)))))))\<rparr>"
    by (auto simp: acquire_stmts_def guards_success acquire_success set_priv_def simp del: guards.simps(2))
  note step = allocated_acquire [OF mem]
  from step [OF step [OF step [OF step [OF step [OF step [OF step [OF f m(1)] m(2)] m(3)] m(4)] m(5)] m(6)] m(7)] f'
  show ?thesis by blast
qed

text \<open>The handles of a frame after start-up, each active; \<open>calm\<close> and \<open>log_ok\<close> still hold.\<close>

definition loop_started :: "'t io_frame \<Rightarrow> bool" where
  "loop_started f \<longleftrightarrow> log_ok (log f) \<and> calm (log f) \<and> (\<forall>h \<in> loop_handles f. status (log f) h = Active)"

lemma uv_start_result:
  assumes al: "allocated [a7, a6, a5, a4, a3, a2, a1] (log f)"
    and p: "uv_loop (priv_data f) = Some a1" "tcp_handle (priv_data f) = Some a2" "uv_accept_timer (priv_data f) = Some a3"
      "uv_prep (priv_data f) = Some a4" "uv_check (priv_data f) = Some a5" "uv_signal (priv_data f) = Some a6"
    and run: "guards (uv_start_stmts E) f = Some (TN_SUCCESS, f')"
  shows "\<exists>lg. f' = f\<lparr>log := lg, io_ret := TN_SUCCESS\<rparr> \<and> log_ok lg \<and> calm lg \<and> status lg a2 = Allocated \<and>
    status lg a3 = Active \<and> status lg a4 = Active \<and> status lg a5 = Active \<and> status lg a6 = Active \<and>
    a2 \<notin> {a3, a4, a5, a6}"
proof -
  from run have f': "f' = f\<lparr>log := (Uv_signal_start a6, TN_SUCCESS) # (Uv_signal_init a6, TN_SUCCESS) #
      (Uv_check_start a5, TN_SUCCESS) # (Uv_check_init a5, TN_SUCCESS) # (Uv_prepare_start a4, TN_SUCCESS) #
      (Uv_prepare_init a4, TN_SUCCESS) # (Uv_timer_start a3 100 100, TN_SUCCESS) # (Uv_timer_init a3, TN_SUCCESS) #
      (Uv_loop_init a1, TN_SUCCESS) # log f, io_ret := TN_SUCCESS\<rparr>"
    using p by (auto simp: uv_start_stmts_def guards_success io_uv_success simp del: guards.simps(2))
  from al have st: "status (log f) a1 = Allocated" "status (log f) a2 = Allocated" "status (log f) a3 = Allocated"
    "status (log f) a4 = Allocated" "status (log f) a5 = Allocated" "status (log f) a6 = Allocated"
    and d: "distinct [a1, a2, a3, a4, a5, a6]" and ok: "log_ok (log f)" "calm (log f)"
    by (auto simp: allocated_def)
  show ?thesis unfolding f'
    by (intro exI conjI, rule refl) (use st d ok in \<open>auto simp: calm_def\<close>)
qed

lemma listen_result:
  assumes run: "listen_stmt E f = Some (TN_SUCCESS, f')" and ret: "io_ret f = TN_SUCCESS"
    and ok: "log_ok (log f)" "calm (log f)" and st: "status (log f) a2 = Allocated" "tcp_handle (priv_data f) = Some a2"
    and others: "\<And>h. h \<in> set_option (uv_accept_timer (priv_data f)) \<union> set_option (uv_prep (priv_data f)) \<union>
        set_option (uv_check (priv_data f)) \<union> set_option (uv_signal (priv_data f)) \<Longrightarrow> status (log f) h = Active \<and> h \<noteq> a2"
  shows "\<exists>lg t. f' = f\<lparr>priv_data := (priv_data f)\<lparr>tcp_handle := t\<rparr>, log := lg\<rparr> \<and> loop_started f'"
proof (cases "tn_endpoint_af_get E (host_listen f) = AF_INET E \<or> tn_endpoint_af_get E (host_listen f) = AF_INET6 E")
  case True
  with run st(2) ret have "f' = f\<lparr>log := (Uv_listen a2 (backlog f), TN_SUCCESS) # (Uv_tcp_bind a2 (host_listen f), TN_SUCCESS) #
      (Uv_tcp_nodelay a2, TN_SUCCESS) # (Uv_tcp_init a2, TN_SUCCESS) # log f\<rparr>"
    by (auto simp: listen_stmt_def listen_stmts_def guards_success io_uv_success backlog_def simp del: guards.simps(2))
  then have f': "f' = f\<lparr>priv_data := (priv_data f)\<lparr>tcp_handle := Some a2\<rparr>,
      log := (Uv_listen a2 (backlog f), TN_SUCCESS) # (Uv_tcp_bind a2 (host_listen f), TN_SUCCESS) #
        (Uv_tcp_nodelay a2, TN_SUCCESS) # (Uv_tcp_init a2, TN_SUCCESS) # log f\<rparr>"
    using st(2) by simp
  have "loop_started f'" unfolding f' loop_started_def
    using ok st others by (auto simp: calm_def loop_handles_def)
  with f' show ?thesis by blast
next
  case False
  with run have f': "f' = f\<lparr>priv_data := (priv_data f)\<lparr>tcp_handle := None\<rparr>, log := log f\<rparr>"
    by (auto simp: listen_stmt_def Let_def set_priv_def)
  have "loop_started f'" unfolding f' loop_started_def
    using ok others by (auto simp: loop_handles_def)
  with f' show ?thesis by blast
qed

lemma io_setup_result:
  assumes laws: "list_laws E V" "mem_laws E" and ok: "log_ok (log f)" "calm (log f)"
    and len: "array_len E Blk_write_req n = unat n"
    and run: "guards (io_setup_stmts E junk n) f = Some (TN_SUCCESS, f')"
  shows "\<exists>p lg. f' = f\<lparr>priv_data := p, log := lg, io_ret := TN_SUCCESS\<rparr> \<and> loop_started f' \<and>
    length (send_req p) = unat n \<and> list_elems V (send_req_list p) = [0..<unat n] \<and> list_cap V (send_req_list p) = unat n"
proof -
  from run obtain f1 f2 f3 f4 where
    r1: "guards (acquire_stmts E junk n) f = Some (TN_SUCCESS, f1)" and
    r2: "setup_obj (tn_list_ptr_setup E n) (\<lambda>x. set_priv (\<lambda>p. p\<lparr>send_req_list := x\<rparr>)) f1 = Some (TN_SUCCESS, f2)" and
    r3: "fill_send_reqs E (unat n) 0 f2 = Some (TN_SUCCESS, f3)" and
    r4: "guards (uv_start_stmts E) f3 = Some (TN_SUCCESS, f4)" and
    r5: "listen_stmt E f4 = Some (TN_SUCCESS, f')"
    by (auto simp: io_setup_stmts_def guards_append_success guards_success simp del: guards.simps(2) append.simps append_Cons)
  from ok have "allocated [] (log f)" by (simp add: allocated_def)
  from acquire_stmts_result [OF laws(2) this r1] obtain a1 a2 a3 a4 a5 a6 a7 lg where
    al: "allocated [a7, a6, a5, a4, a3, a2, a1] lg" and
    f1: "f1 = f\<lparr>priv_data := (priv_data f)\<lparr>uv_loop := Some a1, tcp_handle := Some a2, uv_accept_timer := Some a3,
           uv_prep := Some a4, uv_check := Some a5, uv_signal := Some a6, send_req_ptr := Some a7,
           send_req := replicate (array_len E Blk_write_req n) junk\<rparr>, log := lg\<rparr>" by blast
  from r2 obtain l where l: "tn_list_ptr_setup E n = (TN_SUCCESS, l)" and f2: "f2 = set_priv (\<lambda>p. p\<lparr>send_req_list := l\<rparr>) f1"
    by (auto simp: setup_obj_def split: prod.splits)
  from list_setup_law [OF laws(1) l] f2 have "length (list_elems V (send_req_list (priv_data f2))) = 0"
    by (simp add: set_priv_def)
  from fill_send_reqs_result [OF laws(1) r3 this] list_setup_law [OF laws(1) l] f2 obtain l3 where
    f3: "f3 = set_priv (\<lambda>p. p\<lparr>send_req_list := l3\<rparr>) f2" and l3: "list_elems V l3 = [0..<unat n]" "list_cap V l3 = unat n"
    by (auto simp: set_priv_def)
  have p3: "allocated [a7, a6, a5, a4, a3, a2, a1] (log f3)" "uv_loop (priv_data f3) = Some a1" "tcp_handle (priv_data f3) = Some a2"
    "uv_accept_timer (priv_data f3) = Some a3" "uv_prep (priv_data f3) = Some a4" "uv_check (priv_data f3) = Some a5"
    "uv_signal (priv_data f3) = Some a6" "send_req (priv_data f3) = replicate (array_len E Blk_write_req n) junk"
    "send_req_list (priv_data f3) = l3"
    using al by (simp_all add: f3 f2 f1 set_priv_def)
  from uv_start_result [OF p3(1-7) r4] obtain lg4 where f4: "f4 = f3\<lparr>log := lg4, io_ret := TN_SUCCESS\<rparr>"
    and st: "log_ok lg4" "calm lg4" "status lg4 a2 = Allocated" "status lg4 a3 = Active" "status lg4 a4 = Active"
      "status lg4 a5 = Active" "status lg4 a6 = Active" "a2 \<notin> {a3, a4, a5, a6}" by blast
  have "\<exists>lg t. f' = f4\<lparr>priv_data := (priv_data f4)\<lparr>tcp_handle := t\<rparr>, log := lg\<rparr> \<and> loop_started f'"
    by (rule listen_result [OF r5, of a2]) (use st p3 f4 in auto)
  then obtain lg5 t where f': "f' = f4\<lparr>priv_data := (priv_data f4)\<lparr>tcp_handle := t\<rparr>, log := lg5\<rparr>" and st5: "loop_started f'"
    by blast
  let ?p = "(priv_data f4)\<lparr>tcp_handle := t\<rparr>"
  have "f' = f\<lparr>priv_data := ?p, log := lg5, io_ret := TN_SUCCESS\<rparr>"
    by (simp add: f' f4 f3 f2 f1 set_priv_def)
  moreover have "length (send_req ?p) = unat n" "list_elems V (send_req_list ?p) = [0..<unat n]" "list_cap V (send_req_list ?p) = unat n"
    using p3(8,9) l3 len f4 by simp_all
  ultimately show ?thesis using st5 by blast
qed

lemma leave_enter_io:
  "leave_io ((enter_io w)\<lparr>priv_data := p, log := lg, io_ret := r\<rparr>) = w\<lparr>priv_data := p, log := lg\<rparr>"
  by (simp add: leave_io_def enter_io_def world.defs io_frame.defs)

text \<open>
  If start-up succeeds on a service that was set up, the state in which the loop starts to run
  satisfies the invariant, with no event, command or write request taken out.
\<close>

theorem io_setup_establishes_inv:
  assumes env: "env_ok E V" and ready: "service_ready E V w" and len: "array_len E Blk_write_req n = unat n"
    and run: "guards (io_setup_stmts E junk n) (enter_io (set_priv g w)) = Some (TN_SUCCESS, f)"
  shows "io_inv E V 0 0 0 [] (leave_io f) \<and> main_part (leave_io f) = main_part w \<and>
    events (leave_io f) = events w \<and> link_list (leave_io f) = link_list w \<and> service_state (leave_io f) = service_state w"
proof -
  let ?f = "enter_io (set_priv g w)"
  have ok: "log_ok (log ?f)" "calm (log ?f)"
    using ready by (simp_all add: service_ready_def enter_io_def set_priv_def world.defs io_frame.defs)
  from io_setup_result [OF env_okD(1,7) [OF env] ok len run] obtain p lg where
    f: "f = ?f\<lparr>priv_data := p, log := lg, io_ret := TN_SUCCESS\<rparr>" and st: "loop_started f"
    and reqs: "length (send_req p) = unat n" "list_elems V (send_req_list p) = [0..<unat n]" "list_cap V (send_req_list p) = unat n"
    by blast
  have lv: "leave_io f = w\<lparr>priv_data := p, log := lg\<rparr>"
    unfolding f leave_enter_io by (simp add: set_priv_def)
  have "io_inv E V 0 0 0 [] (w\<lparr>priv_data := p, log := lg\<rparr>)"
  proof (rule service_ready_inv [OF ready])
    from st show "log_ok lg" "calm lg" by (simp_all add: f loop_started_def)
    show "reqs_ok V [] p (client_map (link_list w))" using reqs by (auto simp: reqs_ok_def slots_ok_def)
    show "status lg h = Active" if "h \<in> loop_handles (w\<lparr>priv_data := p\<rparr>)" for h
      using that st by (auto simp: f loop_started_def loop_handles_def)
  qed
  then show ?thesis by (simp add: lv main_part_def)
qed

end
