(* ===== verification/Svl_Api.thy ===== *)
theory Svl_Api
  imports Svl_IO_Thread
begin

text \<open>
  The operations of the main thread against the invariant: setting a service up makes it ready for
  the IO thread, commands are queued, events are taken and given back.
\<close>

section \<open>Setup\<close>

text \<open>The sizes of the four arrays setup allocates fit into \<^verbatim>\<open>size_t\<close>.\<close>

definition sizes_ok :: "'t ext \<Rightarrow> u64 \<Rightarrow> bool" where
  "sizes_ok E n \<longleftrightarrow>
     unat n * unat (sizeof E Blk_link) < 2 ^ 64 \<and> sizeof E Blk_link \<noteq> 0 \<and>
     4 * unat n * unat (sizeof E Blk_event_ptr) < 2 ^ 64 \<and> sizeof E Blk_event_ptr \<noteq> 0 \<and>
     4 * unat n * unat (sizeof E Blk_write_req) < 2 ^ 64 \<and> sizeof E Blk_write_req \<noteq> 0"

lemma sizes_ok_buffers:
  assumes "sizes_ok E n"
  shows "unat (n * 4) = 4 * unat n" and "array_len E Blk_event_ptr (n * 4) = 4 * unat n"
    and "array_len E Blk_write_req (n * 4) = 4 * unat n"
proof -
  have "1 \<le> unat (sizeof E Blk_event_ptr)" using assms by (simp add: sizes_ok_def unat_gt_0 Suc_le_eq)
  then have "4 * unat n * 1 \<le> 4 * unat n * unat (sizeof E Blk_event_ptr)" by (rule mult_le_mono2)
  with assms have "4 * unat n < 2 ^ 64" unfolding sizes_ok_def by linarith
  then have "unat n * unat (4 :: u64) < 2 ^ 64" by simp
  from unat_mult_no_overflow [OF this] show n4: "unat (n * 4) = 4 * unat n" by simp
  with assms show "array_len E Blk_event_ptr (n * 4) = 4 * unat n" "array_len E Blk_write_req (n * 4) = 4 * unat n"
    using array_len_exact [of "n * 4" E Blk_event_ptr] array_len_exact [of "n * 4" E Blk_write_req]
    by (simp_all add: sizes_ok_def)
qed

lemma link_list_setup_success:
  assumes "svl_link_list_setup E n lg = Some (TN_SUCCESS, list, lg')"
  shows "\<exists>a. TN_MEM_ACQUIRE E lg Blk_link (array_bytes E Blk_link n) = Some a \<and> fst (tn_list_ptr_setup E n) = TN_SUCCESS"
  using assms by (auto simp: svl_link_list_setup_def Let_def split: if_splits prod.splits option.splits)

lemma setup_write_reqs_result:
  assumes "setup_write_reqs E k i w = Some (TN_SUCCESS, w')" and "event_updates w = replicate n None"
  shows "\<exists>a b. w' = w\<lparr>write_reqs := a, write_reqs_free := b\<rparr>"
  using assms
proof (induction k arbitrary: i w)
  case 0
  then show ?case by (intro exI [of _ "write_reqs w"] exI [of _ "write_reqs_free w"]) simp
next
  case (Suc k)
  let ?a = "(write_reqs w)[i := (write_reqs w ! i)\<lparr>wr_id := of_nat i\<rparr>]"
  obtain r q where push: "tn_queue_spsc_push E (write_reqs_free w) i = (r, q)" by fastforce
  let ?w = "w\<lparr>write_reqs := ?a, write_reqs_free := q\<rparr>"
  have same: "(event_updates w)[i := None] = event_updates w"
    using Suc.prems(2) by (metis list_update_beyond list_update_id not_less nth_replicate length_replicate)
  have w: "?w\<lparr>event_updates := event_updates w\<rparr> = ?w" by simp
  from Suc.prems(1) push have "setup_write_reqs E k (Suc i) ?w = Some (TN_SUCCESS, w')"
    by (simp add: Let_def same w split: if_splits)
  from Suc.IH [OF this] Suc.prems(2) show ?case by auto
qed

lemma setup_obj_success:
  "setup_obj res store s = Some (TN_SUCCESS, s') \<longleftrightarrow> (\<exists>x. res = (TN_SUCCESS, x) \<and> s' = store x s)"
  by (auto simp: setup_obj_def split: prod.splits)

lemma log_acquire_ok:
  "log_ok ((Mem_acquire b n p, r) # lg) = log_ok lg" "calm lg \<Longrightarrow> calm ((Mem_acquire b n p, r) # lg)"
  by (auto simp: calm_def)

theorem service_setup_ready:
  assumes env: "env_ok E V" and sz: "sizes_ok E n" and log: "log_ok (log w0)" "calm (log w0)"
    and run: "svl_service_setup E junk n w0 = Some (TN_SUCCESS, w)"
  shows "service_ready E V w \<and> service_state w = SVL_SERVICE_NEW \<and> client_count_max w = n \<and>
    unat (buffer_count w) = 4 * unat n \<and> event_updates w = replicate (4 * unat n) None \<and> event_updates_count w = 0 \<and>
    clients_max (link_list w) = n \<and> ev_free V (events w) = 4 * unat n \<and> cmd_free V (cmds w) = 4 * unat n \<and>
    pool_size V (pool_read w) = 4 * unat n \<and> pool_size V (pool_write w) = 4 * unat n"
proof -
  note buf = sizes_ok_buffers [OF sz]
  let ?w1 = "(zero_service E w0)\<lparr>client_count_max := n, service_state := SVL_SERVICE_NEW\<rparr>"
  from run obtain a where n0: "n \<noteq> 0" and a: "TN_MEM_ACQUIRE E (log ?w1) Blk_priv (sizeof E Blk_priv) = Some a"
    and g: "guards (setup_stmts E junk ?w1)
      (?w1\<lparr>log := (Mem_acquire Blk_priv (sizeof E Blk_priv) (Some a), TN_SUCCESS) # log ?w1, service_priv := Some a,
           priv_data := zero_priv E\<rparr>) = Some (TN_SUCCESS, w)"
    by (auto simp: svl_service_setup_def svl_service_set_state_def acquire_def Let_def setup_stmts_def
        split: if_splits option.splits prod.splits simp del: guards.simps)
  let ?w2 = "?w1\<lparr>log := (Mem_acquire Blk_priv (sizeof E Blk_priv) (Some a), TN_SUCCESS) # log ?w1, service_priv := Some a,
           priv_data := zero_priv E\<rparr>"
  have ok2: "log_ok (log ?w2)" "calm (log ?w2)" using log by (simp_all add: zero_service_def log_acquire_ok)
  from g obtain list lg p1 p2 c ev e1 e2 q1 q2 where
    link: "svl_link_list_setup E n (log ?w2) = Some (TN_SUCCESS, list, lg)"
    and objs: "tn_buffer_pool_setup E (n * 4) SVL_SERVICE_MAX_RECV = (TN_SUCCESS, p1)"
      "tn_buffer_pool_setup E (n * 4) SVL_SERVICE_MAX_RECV = (TN_SUCCESS, p2)"
      "tn_cmd_list_setup E (n * 4) = (TN_SUCCESS, c)" "tn_event_list_setup E (n * 4) = (TN_SUCCESS, ev)"
    and w: "setup_write_reqs E (unat (n * 4)) 0
      (?w2\<lparr>link_list := list, buffer_count := n * 4, pool_read := p1, pool_write := p2, cmds := c, events := ev,
        event_updates_ptr := Some e1, event_updates := replicate (array_len E Blk_event_ptr (n * 4)) None,
        log := (Mem_acquire Blk_write_req (array_bytes E Blk_write_req (n * 4)) (Some e2), TN_SUCCESS) #
          (Mem_acquire Blk_event_ptr (array_bytes E Blk_event_ptr (n * 4)) (Some e1), TN_SUCCESS) # lg,
        write_reqs_ptr := Some e2, write_reqs := replicate (array_len E Blk_write_req (n * 4)) junk,
        write_reqs_free := q1, write_reqs_ready := q2\<rparr>) = Some (TN_SUCCESS, w)"
    by (auto simp: setup_stmts_def guards_success acquire_success setup_obj_success link_list_setup_stmt_def assign_def Let_def
        split: option.splits prod.splits simp del: guards.simps(2))
  from setup_write_reqs_result [OF w] obtain wa wb where
    res: "w = ?w2\<lparr>link_list := list, buffer_count := n * 4, pool_read := p1, pool_write := p2, cmds := c, events := ev,
        event_updates_ptr := Some e1, event_updates := replicate (array_len E Blk_event_ptr (n * 4)) None,
        log := (Mem_acquire Blk_write_req (array_bytes E Blk_write_req (n * 4)) (Some e2), TN_SUCCESS) #
          (Mem_acquire Blk_event_ptr (array_bytes E Blk_event_ptr (n * 4)) (Some e1), TN_SUCCESS) # lg,
        write_reqs_ptr := Some e2, write_reqs_ready := q2, write_reqs := wa, write_reqs_free := wb\<rparr>"
    by auto
  from link_list_setup_success [OF link] obtain b where
    "TN_MEM_ACQUIRE E (log ?w2) Blk_link (array_bytes E Blk_link n) = Some b" "fst (tn_list_ptr_setup E n) = TN_SUCCESS" by blast
  from link_list_setup_result [OF env_okD(1) [OF env] _ _ this] sz link have
    list: "link_list_inv E V list" "clients_max list = n" "client_map list = fresh_links (unat n)" "link_free V list = [0..<unat n]"
    and lg: "lg = (Mem_acquire Blk_link (array_bytes E Blk_link n) (Some b), TN_SUCCESS) # log ?w2"
    by (auto simp: sizes_ok_def)
  have ok: "log_ok (log w)" "calm (log w)" using ok2 by (simp_all add: res lg log_acquire_ok)
  from env_okD(3) [OF env] objs(1,2) have pools: "pool_cap V p1 = 4 * unat n" "pool_size V p1 = 4 * unat n" "pool_size V p2 = 4 * unat n"
    unfolding pool_laws_def by (simp_all add: buf)
  from env_okD(4) [OF env] objs(4) have evs: "ev_cap V ev = 4 * unat n" "ev_free V ev = 4 * unat n" "ev_ready V ev = []"
    unfolding event_laws_def by (simp_all add: buf)
  from env_okD(5) [OF env] objs(3) have cs: "cmd_cap V c = 4 * unat n" "cmd_free V c = 4 * unat n" "cmd_ready V c = []"
    unfolding cmd_laws_def by (simp_all add: buf)
  have fresh: "set (link_free V (link_list w)) = {..<length (client_map (link_list w))}"
    "\<forall>l \<in> set (client_map (link_list w)). link_state l = SVL_LINK_NEW \<and> read_buffer l = None"
    using list by (auto simp: res fresh_links_def zero_link_def)
  have "service_ready E V w"
    using list(1) fresh ok pools evs cs unfolding service_ready_def by (simp add: res events_ok_def cmds_ok_def)
  then show ?thesis using list pools evs cs buf by (simp add: res zero_service_def)
qed

section \<open>Queueing commands\<close>

text \<open>
  Taking a command off the stock and queueing it: it fails only if the stock is empty, and then
  nothing changes; otherwise the command is at the end of the queue.  A command is never taken and
  not queued.
\<close>

lemma queue_cmd_result:
  assumes env: "env_ok E V" and ok: "cmds_ok V nc (cmds w)"
    and ty: "\<And>c. cmd_id (fill c) = cmd_id c"
  shows "\<exists>l. cmds_ok V nc l \<and>
    (if cmd_free V (cmds w) = 0
     then queue_cmd E ty fill w = Some (TN_ERROR, UINT64_MAX, w\<lparr>cmds := l\<rparr>) \<and> cmd_ready V l = cmd_ready V (cmds w)
     else \<exists>c. cmd_type c = ty \<and> queue_cmd E ty fill w = Some (TN_SUCCESS, cmd_id c, w\<lparr>cmds := l\<rparr>) \<and>
       cmd_ready V l = cmd_ready V (cmds w) @ [fill c])"
proof -
  obtain r out l where pop: "tn_cmd_list_free_pop E ty (cmds w) = (r, out, l)"
    by (cases "tn_cmd_list_free_pop E ty (cmds w)") auto
  note law = cmd_pop_law [OF env_okD(5) [OF env] pop]
  show ?thesis
  proof (cases "r = TN_SUCCESS")
    case False
    with law ok have "cmds_ok V nc l" by (simp add: cmds_ok_def)
    with False law pop show ?thesis by (intro exI [of _ l]) (simp add: queue_cmd_def)
  next
    case True
    with law(6) obtain c where c: "out = Some c" "cmd_type c = ty" by blast
    obtain r2 l2 where push: "tn_cmd_list_ready_push E l (fill c) = (r2, l2)" by fastforce
    note law2 = cmd_ready_push_law [OF env_okD(5) [OF env] push]
    from True law ok law2(4) have r2: "r2 = TN_SUCCESS" by (simp add: cmds_ok_def)
    with True law ok law2 have "cmds_ok V nc l2" by (simp add: cmds_ok_def)
    moreover have "queue_cmd E ty fill w = Some (TN_SUCCESS, cmd_id c, w\<lparr>cmds := l2\<rparr>)"
      using pop True c push r2 ty by (simp add: queue_cmd_def Let_def)
    ultimately show ?thesis using True law law2 r2 c(2) by (intro exI [of _ l2]) auto
  qed
qed

lemma queue_cmd_inv:
  assumes env: "env_ok E V" and inv: "io_inv E V ne nb nc writes w" and "\<And>c. cmd_id (fill c) = cmd_id c"
  shows "\<exists>r i w'. queue_cmd E ty fill w = Some (r, i, w') \<and> io_inv E V ne nb nc writes w' \<and> main_part w' = main_part w"
proof -
  from queue_cmd_result [OF env io_invD(4) [OF inv] assms(3)] obtain l r i where
    "cmds_ok V nc l" "queue_cmd E ty fill w = Some (r, i, w\<lparr>cmds := l\<rparr>)" by (metis (full_types))
  with io_inv_cmds [OF inv, of nc l] show ?thesis by (auto simp: main_part_def)
qed

section \<open>Taking and giving back events\<close>

lemma io_inv_main_fields:
  "io_inv E V ne nb nc writes (w\<lparr>event_updates := x\<rparr>) = io_inv E V ne nb nc writes w"
  "io_inv E V ne nb nc writes (w\<lparr>event_updates_count := y\<rparr>) = io_inv E V ne nb nc writes w"
  by (simp_all add: io_inv_def links_inv_def loop_handles_def)

text \<open>
  Acquire takes the oldest events, in order, at most as many as the array has room for; they are
  the first entries of the array and the count is their number.
\<close>

lemma events_acquire_result:
  assumes env: "env_ok E V" and inv: "io_inv E V ne nb nc writes w" and len: "unat (buffer_count w) \<le> length (event_updates w)"
  shows "\<exists>r out w' es. svl_service_events_acquire E w = Some (r, out, of_nat (length es), w') \<and>
    es = (if r = TN_SUCCESS then take (unat (buffer_count w)) (ev_ready V (events w)) else []) \<and>
    (ev_ready V (events w) \<noteq> [] \<longrightarrow> buffer_count w \<noteq> 0 \<longrightarrow> r = TN_SUCCESS) \<and>
    ev_ready V (events w') = drop (length es) (ev_ready V (events w)) \<and>
    take (length es) (event_updates w') = map Some es \<and> event_updates_count w' = of_nat (length es) \<and>
    length es \<le> unat (buffer_count w) \<and> length (event_updates w') = length (event_updates w) \<and>
    buffer_count w' = buffer_count w \<and>
    io_inv E V (ne + length es) (nb + length (filter is_read es)) nc writes w' \<and>
    (\<forall>e \<in> set es. is_read e \<longrightarrow> ev_priv e \<noteq> None)"
proof -
  obtain r es l where pop: "tn_event_list_ready_pop_all E (events w) (buffer_count w) = (r, es, l)"
    by (cases "tn_event_list_ready_pop_all E (events w) (buffer_count w)") auto
  note law = event_pop_all_law [OF env_okD(4) [OF env] pop]
  have es: "length es \<le> unat (buffer_count w)" and split: "ev_ready V (events w) = es @ ev_ready V l"
    using law(3,4) by (auto split: if_splits)
  let ?w = "w\<lparr>event_updates_count := of_nat (length es), events := l, event_updates := map Some es @ drop (length es) (event_updates w)\<rparr>"
  let ?r = "if r = TN_SUCCESS then TN_SUCCESS else TN_ERROR"
  have acq: "svl_service_events_acquire E w = Some (?r, r = TN_SUCCESS, of_nat (length es), ?w)"
    using pop es len law(3)
    by (cases "r = TN_SUCCESS") (simp_all add: svl_service_events_acquire_def Let_def)
  note ev = io_invD(2) [OF inv]
  have "events_ok V (ne + length es) l" using ev law(1,2) split by (auto simp: events_ok_def)
  moreover have "buffers_ok V (nb + length (filter is_read es)) (pool_read w) (client_map (link_list w)) (ev_ready V l)"
    using io_invD(3) [OF inv] split by (simp add: buffers_ok_def)
  ultimately have inv': "io_inv E V (ne + length es) (nb + length (filter is_read es)) nc writes ?w"
    using inv by (simp add: io_inv_def links_inv_def loop_handles_def)
  have priv: "\<forall>e \<in> set es. is_read e \<longrightarrow> ev_priv e \<noteq> None" using ev split by (auto simp: events_ok_def)
  have ok: "?r = TN_SUCCESS \<longleftrightarrow> r = TN_SUCCESS" by simp
  have es': "es = (if ?r = TN_SUCCESS then take (unat (buffer_count w)) (ev_ready V (events w)) else [])"
    unfolding ok by (rule law(3))
  have rdy: "ev_ready V (events ?w) = drop (length es) (ev_ready V (events w))"
    "take (length es) (event_updates ?w) = map Some es" "length (event_updates ?w) = length (event_updates w)"
    using split es len by simp_all
  show ?thesis
    by (intro exI [of _ ?r] exI [of _ "r = TN_SUCCESS"] exI [of _ ?w] exI [of _ es] conjI acq es' inv' priv es rdy)
      (use law(5) in simp_all)
qed

lemma release_event_inv:
  assumes env: "env_ok E V" and priv: "is_read e \<longrightarrow> ev_priv e \<noteq> None"
    and inv: "io_inv E V (Suc ne) (nb + length (filter is_read [e])) nc writes w"
  shows "\<exists>w'. release_event E e w = Some w' \<and> io_inv E V ne nb nc writes w' \<and> main_part w' = main_part w \<and>
    ev_ready V (events w') = ev_ready V (events w)"
proof -
  have "ev_free V (events w) < ev_cap V (events w)" using io_invD(2) [OF inv] by (simp add: events_ok_def)
  note push = event_free_push_law [OF env_okD(4) [OF env] this, of e]
  have ev: "events_ok V ne (snd (tn_event_list_free_push E (events w) e))"
    using io_invD(2) [OF inv] push by (simp add: events_ok_def)
  show ?thesis
  proof (cases "is_read e")
    case False
    then have "release_event E e w = Some (w\<lparr>events := snd (tn_event_list_free_push E (events w) e)\<rparr>)"
      by (simp add: release_event_def is_read_def)
    with False inv ev push show ?thesis by (simp add: io_inv_def links_inv_def main_part_def)
  next
    case True
    with priv obtain b where b: "ev_priv e = Some b" by blast
    have "pool_size V (pool_read w) < pool_cap V (pool_read w)" using io_invD(3) [OF inv] True by (simp add: buffers_ok_def)
    note pool = pool_push_law [OF env_okD(3) [OF env] this, of b]
    let ?w = "w\<lparr>pool_read := snd (tn_buffer_pool_push E (pool_read w) b), events := snd (tn_event_list_free_push E (events w) e)\<rparr>"
    have "release_event E e w = Some ?w" using True b by (simp add: release_event_def is_read_def)
    moreover have "io_inv E V ne nb nc writes ?w"
      using True inv ev push pool by (simp add: io_inv_def links_inv_def buffers_ok_def)
    ultimately show ?thesis using push by (simp add: main_part_def)
  qed
qed

lemma release_events_inv:
  assumes env: "env_ok E V"
    and "io_inv E V (ne + length es) (nb + length (filter is_read es)) nc writes w"
    and "\<forall>e \<in> set es. is_read e \<longrightarrow> ev_priv e \<noteq> None"
    and "i + length es \<le> length (event_updates w)" and "\<forall>j < length es. event_updates w ! (i + j) = Some (es ! j)"
  shows "\<exists>w'. release_events E (length es) i w = Some w' \<and> io_inv E V ne nb nc writes w' \<and> main_part w' = main_part w \<and>
    ev_ready V (events w') = ev_ready V (events w)"
  using assms(2-)
proof (induction es arbitrary: i w)
  case Nil
  then show ?case by simp
next
  case (Cons e es)
  from Cons.prems(1) have "io_inv E V (Suc (ne + length es)) ((nb + length (filter is_read es)) + length (filter is_read [e])) nc writes w"
    by (simp split: if_splits)
  from release_event_inv [OF env _ this] Cons.prems(2) obtain w1 where
    w1: "release_event E e w = Some w1" "io_inv E V (ne + length es) (nb + length (filter is_read es)) nc writes w1"
      "main_part w1 = main_part w" "ev_ready V (events w1) = ev_ready V (events w)" by auto
  from w1(3) have eu: "event_updates w1 = event_updates w" by (simp add: main_part_def)
  have nth: "\<forall>j < length es. event_updates w1 ! (Suc i + j) = Some (es ! j)"
    using Cons.prems(4) eu by (auto dest: spec [of _ "Suc _"])
  from Cons.IH [OF w1(2) _ _ nth] Cons.prems(2,3) eu obtain w' where
    w': "release_events E (length es) (Suc i) w1 = Some w'" "io_inv E V ne nb nc writes w'" "main_part w' = main_part w1"
    "ev_ready V (events w') = ev_ready V (events w1)" by auto
  have "event_updates w ! i = Some e" using Cons.prems(4) by force
  with w' w1 Cons.prems(3) show ?case by simp
qed

end
