(* ===== verification/Transition.thy ===== *)
theory Transition
  imports Main
begin

text \<open>
  Transition systems and their invariants.  The running service and the life cycle of the IO thread
  are both instances: \<open>init\<close> tells the states a run starts in, \<open>step\<close> relates a state to the next
  one, and \<open>inv\<close> is a property that holds at the start and is kept by every step.
\<close>

inductive run :: "('s \<Rightarrow> bool) \<Rightarrow> ('s \<Rightarrow> 's \<Rightarrow> bool) \<Rightarrow> 's \<Rightarrow> bool" for init step where
  run_init: "init s \<Longrightarrow> run init step s"
| run_step: "run init step s \<Longrightarrow> step s s' \<Longrightarrow> run init step s'"

inductive steps :: "('s \<Rightarrow> 's \<Rightarrow> bool) \<Rightarrow> 's \<Rightarrow> 's \<Rightarrow> bool" for step where
  steps_refl: "steps step s s"
| steps_next: "steps step s t \<Longrightarrow> step t u \<Longrightarrow> steps step s u"

lemma run_steps: "steps step s t \<Longrightarrow> run init step s \<Longrightarrow> run init step t"
proof (induction rule: steps.induct)
  case (steps_next s t u)
  from steps_next.IH [OF steps_next.prems] steps_next.hyps(2) show ?case by (rule run_step)
qed

locale invariant =
  fixes init :: "'s \<Rightarrow> bool" and step :: "'s \<Rightarrow> 's \<Rightarrow> bool" and inv :: "'s \<Rightarrow> bool"
  assumes at_start: "init s \<Longrightarrow> inv s"
    and kept: "inv s \<Longrightarrow> step s s' \<Longrightarrow> inv s'"
begin

lemma holds: "run init step s \<Longrightarrow> inv s"
proof (induction rule: run.induct)
  case (run_init s)
  then show ?case by (rule at_start)
next
  case (run_step s s')
  from run_step.IH run_step.hyps(2) show ?case by (rule kept)
qed

lemma holds_later: "run init step s \<Longrightarrow> steps step s t \<Longrightarrow> inv t"
  by (rule holds, rule run_steps)

end

section \<open>Simulation\<close>

text \<open>
  A system is refined by another if every step of the second, from a state that it can reach, is
  matched by steps of the first between related states.
\<close>

locale simulation =
  fixes cinit :: "'c \<Rightarrow> bool" and cstep :: "'c \<Rightarrow> 'c \<Rightarrow> bool"
    and ainit :: "'a \<Rightarrow> bool" and astep :: "'a \<Rightarrow> 'a \<Rightarrow> bool"
    and rel :: "'c \<Rightarrow> 'a \<Rightarrow> bool"
  assumes start_related: "cinit s \<Longrightarrow> \<exists>a. ainit a \<and> rel s a"
    and step_related: "run cinit cstep s \<Longrightarrow> rel s a \<Longrightarrow> cstep s s' \<Longrightarrow> \<exists>a'. steps astep a a' \<and> rel s' a'"
begin

lemma simulates: "run cinit cstep s \<Longrightarrow> \<exists>a. run ainit astep a \<and> rel s a"
proof (induction rule: run.induct)
  case (run_init s)
  then show ?case using start_related run.run_init by metis
next
  case (run_step s s')
  then obtain a where a: "run ainit astep a" "rel s a" by blast
  from step_related [OF run_step.hyps(1) a(2) run_step.hyps(2)] obtain a' where "steps astep a a'" "rel s' a'" by blast
  with run_steps [OF _ a(1)] show ?case by blast
qed

text \<open>An invariant of the abstract system carries over.\<close>

lemma transports:
  assumes "invariant ainit astep good" and "run cinit cstep s"
  shows "\<exists>a. rel s a \<and> good a"
  using simulates [OF assms(2)] invariant.holds [OF assms(1)] by blast

end

end
