(* ===== verification/Svl_System.thy ===== *)
theory Svl_System
  imports Svl_Api Transition
begin

text \<open>
  The running service: the main thread calls its API while libuv runs the callbacks of the IO thread.

  The two threads share the command list, the event list and the state word, which are the
  synchronised objects of the tn library; everything else belongs to one of them.  So a run is a
  sequence of steps, each of them one call of the API or one callback, in any order.  What libuv may
  call is read off the log: \<^verbatim>\<open>on_recv_alloc_cb\<close> followed by \<^verbatim>\<open>on_recv_cb\<close> on a handle that is being read from,
  \<^verbatim>\<open>on_outbound_connection_cb\<close> for a connect request under way, \<^verbatim>\<open>on_send_cb\<close> for a write request it was
  given, and the close callback of a handle that is closing.
\<close>

section \<open>Steps\<close>

text \<open>
  \<open>holding\<close> tells whether the main thread has acquired events and not released them; \<open>writes\<close> are
  the write requests that libuv was given and has not completed.
\<close>

record 't sys =
  world_of :: "'t world"
  holding :: bool
  writes_of :: "nat list"

text \<open>The events the main thread holds.\<close>

definition held_events :: "'t sys \<Rightarrow> 't tn_event list" where
  "held_events s =
     (if holding s
      then map the (take (unat (event_updates_count (world_of s))) (event_updates (world_of s)))
      else [])"

text \<open>
  One read: libuv asks for a buffer and then reports.  Without a buffer it reports an error; with a
  buffer of \<open>n\<close> bytes it reports an error, nothing, or at most \<open>n\<close> bytes.
\<close>

definition read_result :: "u64 option \<Rightarrow> int \<Rightarrow> u8 list option \<Rightarrow> bool" where
  "read_result room nread buf \<longleftrightarrow>
     (case room of
        None \<Rightarrow> nread < 0
      | Some n \<Rightarrow> nread \<le> 0 \<or> (\<exists>bytes. buf = Some bytes \<and> int (length bytes) = nread \<and> length bytes \<le> unat n))"

definition recv_cbs :: "'t ext \<Rightarrow> handle \<Rightarrow> (u64 option \<Rightarrow> int \<times> u8 list option) \<Rightarrow> 't world \<Rightarrow> 't world option" where
  "recv_cbs E h answer w =
     (case on_recv_alloc_cb E h w of
        None \<Rightarrow> None
      | Some (room, w) \<Rightarrow> (case answer room of (nread, buf) \<Rightarrow> on_recv_cb E h nread buf w))"

text \<open>The write requests that a callback has handed to libuv: those that were free before it.\<close>

definition started_writes :: "'t view \<Rightarrow> 't world \<Rightarrow> 't world \<Rightarrow> nat list" where
  "started_writes V w w' =
     filter (\<lambda>q. q \<notin> set (list_elems V (send_req_list (priv_data w')))) (list_elems V (send_req_list (priv_data w)))"

inductive main_step :: "'t ext \<Rightarrow> 't sys \<Rightarrow> 't sys \<Rightarrow> bool" for E where
  acquire_events:
    "\<not> holding s \<Longrightarrow> svl_service_events_acquire E (world_of s) = Some (r, out, n, w) \<Longrightarrow>
       main_step E s (s\<lparr>world_of := w, holding := True\<rparr>)"
| release_events:
    "holding s \<Longrightarrow> svl_service_events_release E (world_of s) = Some (r, w) \<Longrightarrow>
       main_step E s (s\<lparr>world_of := w, holding := False\<rparr>)"
| cmd_open:
    "svl_service_cmd_open E ep (world_of s) = Some (r, i, w) \<Longrightarrow> main_step E s (s\<lparr>world_of := w\<rparr>)"
| cmd_close:
    "svl_service_cmd_close E cid (world_of s) = Some (r, i, w) \<Longrightarrow> main_step E s (s\<lparr>world_of := w\<rparr>)"
| cmd_send:
    "n \<noteq> 0 \<Longrightarrow> svl_service_cmd_send E cid msg n (world_of s) = Some (r, i, w) \<Longrightarrow> main_step E s (s\<lparr>world_of := w\<rparr>)"
| stop_signal:
    "main_step E s (s\<lparr>world_of := snd (svl_service_stop_signal (world_of s))\<rparr>)"

inductive io_step :: "'t ext \<Rightarrow> 't view \<Rightarrow> 't sys \<Rightarrow> 't sys \<Rightarrow> bool" for E V where
  inbound:
    "on_inbound_connection_cb E st (world_of s) = Some w \<Longrightarrow> io_step E V s (s\<lparr>world_of := w\<rparr>)"
| outbound:
    "pending (log (world_of s)) q = Some h \<Longrightarrow> on_outbound_connection_cb E q h st (world_of s) = Some w \<Longrightarrow>
       io_step E V s (s\<lparr>world_of := w\<rparr>)"
| receive:
    "reading (log (world_of s)) h \<Longrightarrow> (\<And>room. read_result room (fst (answer room)) (snd (answer room))) \<Longrightarrow>
       recv_cbs E h answer (world_of s) = Some w \<Longrightarrow> io_step E V s (s\<lparr>world_of := w\<rparr>)"
| sent:
    "q \<in> set (writes_of s) \<Longrightarrow> on_send_cb E q st (world_of s) = Some w \<Longrightarrow>
       io_step E V s (s\<lparr>world_of := w, writes_of := remove1 q (writes_of s)\<rparr>)"
| closed_link:
    "status (log (world_of s)) h = Closing (Some On_close_link_cb) \<Longrightarrow> on_close_link_cb E h (world_of s) = Some w \<Longrightarrow>
       io_step E V s (s\<lparr>world_of := w\<rparr>)"
| closed_handle:
    "status (log (world_of s)) h = Closing (Some On_close_handle_cb) \<Longrightarrow>
       io_step E V s (s\<lparr>world_of := on_close_handle_cb h (world_of s)\<rparr>)"
| timer: "io_step E V s (s\<lparr>world_of := on_timer_cb E (world_of s)\<rparr>)"
| prepare: "io_step E V s (s\<lparr>world_of := on_prep_cb (world_of s)\<rparr>)"
| check:
    "on_check_cb E (world_of s) = Some w \<Longrightarrow>
       io_step E V s (s\<lparr>world_of := w, writes_of := started_writes V (world_of s) w @ writes_of s\<rparr>)"
| sigint: "io_step E V s (s\<lparr>world_of := on_sigint_cb sig (world_of s)\<rparr>)"

definition sys_step :: "'t ext \<Rightarrow> 't view \<Rightarrow> 't sys \<Rightarrow> 't sys \<Rightarrow> bool" where
  "sys_step E V s s' \<longleftrightarrow> main_step E s s' \<or> io_step E V s s'"

section \<open>The invariant\<close>

definition sys_inv :: "'t ext \<Rightarrow> 't view \<Rightarrow> 't sys \<Rightarrow> bool" where
  "sys_inv E V s \<longleftrightarrow>
     io_inv E V (length (held_events s)) (length (filter is_read (held_events s))) 0 (writes_of s) (world_of s) \<and>
     unat (buffer_count (world_of s)) \<le> length (event_updates (world_of s)) \<and>
     (holding s \<longrightarrow>
        unat (event_updates_count (world_of s)) \<le> length (event_updates (world_of s)) \<and>
        take (unat (event_updates_count (world_of s))) (event_updates (world_of s)) = map Some (held_events s)) \<and>
     (\<forall>e \<in> set (held_events s). is_read e \<longrightarrow> ev_priv e \<noteq> None)"

text \<open>A callback, or a call of the API that leaves the events alone, keeps what the main thread holds.\<close>

lemma held_events_main:
  "main_part w = main_part (world_of s) \<Longrightarrow> held_events (s\<lparr>world_of := w, writes_of := ws\<rparr>) = held_events s"
  by (simp add: held_events_def main_part_def)

lemma sys_inv_callback:
  assumes "sys_inv E V s"
    and "io_inv E V (length (held_events s)) (length (filter is_read (held_events s))) 0 ws w"
    and "main_part w = main_part (world_of s)"
  shows "sys_inv E V (s\<lparr>world_of := w, writes_of := ws\<rparr>)"
  using assms held_events_main [OF assms(3), of ws] by (simp add: sys_inv_def main_part_def)

lemma sys_inv_callback':
  assumes "sys_inv E V s"
    and "io_inv E V (length (held_events s)) (length (filter is_read (held_events s))) 0 (writes_of s) w"
    and "main_part w = main_part (world_of s)"
  shows "sys_inv E V (s\<lparr>world_of := w\<rparr>)"
  using sys_inv_callback [OF assms] by simp

lemma sys_invD:
  assumes "sys_inv E V s"
  shows "io_inv E V (length (held_events s)) (length (filter is_read (held_events s))) 0 (writes_of s) (world_of s)"
    and "unat (buffer_count (world_of s)) \<le> length (event_updates (world_of s))"
  using assms by (simp_all add: sys_inv_def)

lemma acquire_step_inv:
  assumes env: "env_ok E V" and inv: "sys_inv E V s" and nh: "\<not> holding s"
  shows "\<exists>r out n w. svl_service_events_acquire E (world_of s) = Some (r, out, n, w) \<and>
    sys_inv E V (s\<lparr>world_of := w, holding := True\<rparr>)"
proof -
  from nh have none: "held_events s = []" by (simp add: held_events_def)
  from events_acquire_result [OF env sys_invD [OF inv]] obtain r out w es where
    acq: "svl_service_events_acquire E (world_of s) = Some (r, out, of_nat (length es), w)"
    and es: "take (length es) (event_updates w) = map Some es" "event_updates_count w = of_nat (length es)"
      "length es \<le> unat (buffer_count (world_of s))" "length (event_updates w) = length (event_updates (world_of s))"
      "buffer_count w = buffer_count (world_of s)"
    and inv0: "io_inv E V (length (held_events s) + length es)
      (length (filter is_read (held_events s)) + length (filter is_read es)) 0 (writes_of s) w"
    and priv: "\<forall>e \<in> set es. is_read e \<longrightarrow> ev_priv e \<noteq> None"
    by blast
  from inv0 none have inv': "io_inv E V (length es) (length (filter is_read es)) 0 (writes_of s) w" by simp
  have "unat (of_nat (length es) :: u64) = length es"
    using es(3) by (metis le_unat_uoi)
  with es inv' priv sys_invD(2) [OF inv] have "sys_inv E V (s\<lparr>world_of := w, holding := True\<rparr>)"
    by (auto simp: sys_inv_def held_events_def)
  with acq show ?thesis by blast
qed

lemma release_step_inv:
  assumes env: "env_ok E V" and inv: "sys_inv E V s" and h: "holding s"
  shows "\<exists>w. svl_service_events_release E (world_of s) = Some (TN_SUCCESS, w) \<and>
    sys_inv E V (s\<lparr>world_of := w, holding := False\<rparr>) \<and> ev_ready V (events w) = ev_ready V (events (world_of s))"
proof -
  let ?es = "held_events s" and ?w = "world_of s"
  let ?n = "unat (event_updates_count ?w)"
  from inv h have n: "?n \<le> length (event_updates ?w)" and es: "take ?n (event_updates ?w) = map Some ?es"
    and priv: "\<forall>e \<in> set ?es. is_read e \<longrightarrow> ev_priv e \<noteq> None" by (simp_all add: sys_inv_def)
  from n es have len: "length ?es = ?n" by (metis length_map length_take min.absorb2)
  have nth: "\<forall>j < length ?es. event_updates ?w ! (0 + j) = Some (?es ! j)"
    using es len by (metis add_0 nth_map nth_take)
  have "io_inv E V (0 + length ?es) (0 + length (filter is_read ?es)) 0 (writes_of s) ?w" using sys_invD(1) [OF inv] by simp
  from release_events_inv [OF env this priv _ nth] len n obtain w' where
    w': "release_events E ?n 0 ?w = Some w'" "io_inv E V 0 0 0 (writes_of s) w'" "main_part w' = main_part ?w"
      "ev_ready V (events w') = ev_ready V (events ?w)"
    by auto
  have "sys_inv E V (s\<lparr>world_of := w', holding := False\<rparr>)"
    using w'(2,3) sys_invD(2) [OF inv] by (simp add: sys_inv_def held_events_def main_part_def)
  moreover have "svl_service_events_release E ?w = Some (TN_SUCCESS, w')" using w'(1) by (simp add: svl_service_events_release_def)
  ultimately show ?thesis using w'(4) by blast
qed

lemma queue_step_inv:
  assumes env: "env_ok E V" and inv: "sys_inv E V s" and "\<And>c. cmd_id (fill c) = cmd_id c"
  shows "\<exists>r i w. queue_cmd E ty fill (world_of s) = Some (r, i, w) \<and> sys_inv E V (s\<lparr>world_of := w\<rparr>)"
  using queue_cmd_inv [OF env sys_invD(1) [OF inv] assms(3)] sys_inv_callback' [OF inv] by blast

text \<open>Each of the three command functions queues a command or leaves the world as it is.\<close>

lemma cmd_open_step_inv:
  assumes "env_ok E V" and "sys_inv E V s"
  shows "\<exists>r i w. svl_service_cmd_open E ep (world_of s) = Some (r, i, w) \<and> sys_inv E V (s\<lparr>world_of := w\<rparr>)"
  using queue_step_inv [OF assms, of "\<lambda>c. c\<lparr>cmd_endpoint := ep\<rparr>"] assms(2) by (simp add: svl_service_cmd_open_def)

lemma cmd_close_step_inv:
  assumes "env_ok E V" and "sys_inv E V s"
  shows "\<exists>r i w. svl_service_cmd_close E cid (world_of s) = Some (r, i, w) \<and> sys_inv E V (s\<lparr>world_of := w\<rparr>)"
  using queue_step_inv [OF assms, of "\<lambda>c. c\<lparr>cmd_client_id := cid\<rparr>"] assms(2) by (simp add: svl_service_cmd_close_def)

lemma cmd_send_step_inv:
  assumes "env_ok E V" and "sys_inv E V s" and "n \<noteq> 0"
  shows "\<exists>r i w. svl_service_cmd_send E cid msg n (world_of s) = Some (r, i, w) \<and> sys_inv E V (s\<lparr>world_of := w\<rparr>)"
proof -
  obtain r req where peek: "tn_queue_spsc_peek E (write_reqs_free (world_of s)) = (r, req)" by fastforce
  show ?thesis
    using queue_step_inv [OF assms(1,2), of "\<lambda>c. c\<lparr>cmd_client_id := cid, cmd_buffer := msg, cmd_len := n, cmd_priv := req\<rparr>"]
      assms(2,3) peek by (simp add: svl_service_cmd_send_def)
qed

section \<open>The callbacks\<close>

lemma recv_step_inv:
  assumes env: "env_ok E V" and inv: "sys_inv E V s" and h: "reading (log (world_of s)) h"
    and answer: "\<And>room. read_result room (fst (answer room)) (snd (answer room))"
  shows "\<exists>w. recv_cbs E h answer (world_of s) = Some w \<and> sys_inv E V (s\<lparr>world_of := w\<rparr>)"
proof -
  let ?w = "world_of s"
  from on_recv_alloc_cb_inv [OF env sys_invD(1) [OF inv] h] obtain room w1 where
    alloc: "on_recv_alloc_cb E h ?w = Some (room, w1)"
    and inv1: "io_inv E V (length (held_events s)) (length (filter is_read (held_events s))) 0 (writes_of s) w1"
    and same: "log w1 = log ?w" "handle_data w1 = handle_data ?w"
    and room: "room \<noteq> None \<longrightarrow> (\<exists>i b. handle_data ?w h = Some i \<and> i < length (client_map (link_list w1)) \<and>
       read_buffer (client_map (link_list w1) ! i) = Some b \<and> room = Some (TN_BUFLEN_CAST E (tn_buffer_remaining E b)))"
    by blast
  obtain nread buf where nb: "answer room = (nread, buf)" by fastforce
  have buf: "read_buffer (client_map (link_list w1) ! i) \<noteq> None"
    if "0 < nread" "buf = Some bytes" "handle_data w1 h = Some i" for bytes i
    using room answer [of room] nb that same(2) by (cases room) (auto simp: read_result_def)
  have h1: "reading (log w1) h" using h same(1) by simp
  have "\<exists>w'. on_recv_cb E h nread buf w1 = Some w' \<and>
      io_inv E V (length (held_events s)) (length (filter is_read (held_events s))) 0 (writes_of s) w'"
    by (rule on_recv_cb_inv [OF env inv1 h1]) (rule buf)
  then obtain w2 where
    w2: "on_recv_cb E h nread buf w1 = Some w2"
      "io_inv E V (length (held_events s)) (length (filter is_read (held_events s))) 0 (writes_of s) w2" by blast
  have "main_part w2 = main_part ?w" using on_recv_keep [OF w2(1)] on_recv_alloc_keep [OF alloc] by simp
  from sys_inv_callback' [OF inv w2(2) this] alloc nb w2(1) show ?thesis by (simp add: recv_cbs_def)
qed

lemma reqs_ok_same_set:
  "reqs_ok V writes p m \<Longrightarrow> set writes' = set writes \<Longrightarrow> distinct writes' \<Longrightarrow> reqs_ok V writes' p m"
  by (simp add: reqs_ok_def slots_ok_def)

lemma check_step_inv:
  assumes env: "env_ok E V" and inv: "sys_inv E V s"
  shows "\<exists>w. on_check_cb E (world_of s) = Some w \<and> cmd_ready V (cmds w) = [] \<and>
    sys_inv E V (s\<lparr>world_of := w, writes_of := started_writes V (world_of s) w @ writes_of s\<rparr>)"
proof -
  note inv0 = sys_invD(1) [OF inv]
  from on_check_cb_inv [OF env inv0] obtain w ws where
    w: "on_check_cb E (world_of s) = Some w" "main_part w = main_part (world_of s)" "cmd_ready V (cmds w) = []"
    and len: "length (send_req (priv_data w)) = length (send_req (priv_data (world_of s)))"
    and inv1: "io_inv E V (length (held_events s)) (length (filter is_read (held_events s))) 0 (ws @ writes_of s) w" by blast
  let ?fr = "list_elems V (send_req_list (priv_data (world_of s)))" and ?fr' = "list_elems V (send_req_list (priv_data w))"
  from io_invD(5) [OF inv0] have a: "distinct ?fr" "distinct (writes_of s)" "set ?fr \<inter> set (writes_of s) = {}"
    "set ?fr \<union> set (writes_of s) = {..<length (send_req (priv_data (world_of s)))}"
    by (simp_all add: reqs_ok_def slots_ok_def)
  from io_invD(5) [OF inv1] have b: "set ?fr' \<inter> set (ws @ writes_of s) = {}" "distinct (ws @ writes_of s)"
    "set ?fr' \<union> set (ws @ writes_of s) = {..<length (send_req (priv_data w))}"
    by (simp_all add: reqs_ok_def slots_ok_def)
  let ?N = "{..<length (send_req (priv_data w))}"
  have "set ?fr = ?N - set (writes_of s)" using a(3,4) len by auto
  moreover have "set ?fr' = ?N - (set ws \<union> set (writes_of s))" using b(1,3) by auto
  moreover have "set ws \<subseteq> ?N - set (writes_of s)" using b(2,3) by auto
  ultimately have "set (started_writes V (world_of s) w @ writes_of s) = set (ws @ writes_of s)"
    by (auto simp: started_writes_def)
  moreover have "distinct (started_writes V (world_of s) w @ writes_of s)"
    using a by (auto simp: started_writes_def)
  ultimately have "reqs_ok V (started_writes V (world_of s) w @ writes_of s) (priv_data w) (client_map (link_list w))"
    by (intro reqs_ok_same_set [OF io_invD(5) [OF inv1]])
  with inv1 have "io_inv E V (length (held_events s)) (length (filter is_read (held_events s))) 0
      (started_writes V (world_of s) w @ writes_of s) w" by (simp add: io_inv_def)
  from sys_inv_callback [OF inv this w(2)] w show ?thesis by blast
qed

lemma main_step_inv:
  assumes env: "env_ok E V" and inv: "sys_inv E V s" and step: "main_step E s s'"
  shows "sys_inv E V s'"
  using step
proof cases
  case (acquire_events r out n w)
  with acquire_step_inv [OF env inv acquire_events(2)] show ?thesis by auto
next
  case (release_events r w)
  with release_step_inv [OF env inv release_events(2)] show ?thesis by auto
next
  case (cmd_open ep r i w)
  with cmd_open_step_inv [OF env inv, of ep] show ?thesis by auto
next
  case (cmd_close cid r i w)
  with cmd_close_step_inv [OF env inv, of cid] show ?thesis by auto
next
  case (cmd_send n cid msg r i w)
  with cmd_send_step_inv [OF env inv cmd_send(2), of cid msg] show ?thesis by auto
next
  case stop_signal
  have "main_part (snd (svl_service_stop_signal (world_of s))) = main_part (world_of s)"
    by (simp add: svl_service_stop_signal_def svl_service_set_state_def Let_def main_part_def)
  moreover have "io_inv E V (length (held_events s)) (length (filter is_read (held_events s))) 0 (writes_of s)
      (snd (svl_service_stop_signal (world_of s)))"
    using sys_invD(1) [OF inv] by (simp add: svl_service_stop_signal_def svl_service_set_state_def Let_def io_inv_state)
  ultimately show ?thesis using sys_inv_callback' [OF inv] stop_signal by blast
qed

lemma io_step_inv:
  assumes env: "env_ok E V" and inv: "sys_inv E V s" and step: "io_step E V s s'"
  shows "sys_inv E V s'"
  using step
proof cases
  note inv0 = sys_invD(1) [OF inv] and cb = sys_inv_callback' [OF inv]
  case (inbound st w)
  with on_inbound_connection_cb_inv [OF env inv0, of st] on_inbound_keep [OF inbound(2)] show ?thesis
    using cb by auto
next
  note inv0 = sys_invD(1) [OF inv] and cb = sys_inv_callback' [OF inv]
  case (outbound q h st w)
  then have "st = TN_SUCCESS" by (auto simp: on_outbound_connection_cb_def split: option.splits if_splits)
  with outbound on_outbound_connection_cb_inv [OF env inv0 outbound(2)] on_outbound_keep [OF outbound(3)] show ?thesis
    using cb by auto
next
  case (receive h answer w)
  with recv_step_inv [OF env inv receive(2,3)] show ?thesis by auto
next
  case (sent q st w)
  with on_send_cb_inv [OF env sys_invD(1) [OF inv] sent(2), of st] on_send_keep [OF sent(3)] show ?thesis
    using sys_inv_callback [OF inv] by auto
next
  case (closed_link h w)
  with on_close_link_cb_inv [OF env sys_invD(1) [OF inv] closed_link(2)] on_close_link_keep [OF closed_link(3)] show ?thesis
    using sys_inv_callback' [OF inv] by auto
next
  case (closed_handle h)
  with on_close_handle_cb_inv [OF sys_invD(1) [OF inv] closed_handle(2)] show ?thesis
    using sys_inv_callback' [OF inv] by (simp add: on_close_handle_cb_def)
next
  case timer
  with on_timer_cb_inv [OF env sys_invD(1) [OF inv]] sys_inv_callback' [OF inv] show ?thesis by (simp add: on_timer_keep)
next
  case prepare
  with inv show ?thesis by (simp add: on_prep_cb_def)
next
  case (check w)
  with check_step_inv [OF env inv] show ?thesis by auto
next
  case (sigint sig)
  have "main_part (on_sigint_cb sig (world_of s)) = main_part (world_of s)"
    by (simp add: on_sigint_cb_def svl_service_stop_signal_def svl_service_set_state_def Let_def main_part_def)
  with on_sigint_cb_inv [OF sys_invD(1) [OF inv]] sys_inv_callback' [OF inv] sigint show ?thesis by blast
qed

section \<open>Starting up\<close>

text \<open>
  What the program does before the loop runs: \<^verbatim>\<open>svl_service_setup\<close>, \<^verbatim>\<open>svl_service_listen\<close> if an address was
  given, \<^verbatim>\<open>svl_service_start\<close>, and in the IO thread everything up to \<^verbatim>\<open>uv_run\<close>.
\<close>

definition boot ::
  "'t ext \<Rightarrow> svl_service_write_req \<Rightarrow> svl_service_write_req \<Rightarrow> u64 \<Rightarrow> tn_endpoint_t option \<Rightarrow> 't world \<Rightarrow> 't sys option" where
  "boot E junk junk' n ep w =
     (case svl_service_setup E junk n w of
        Some (TN_SUCCESS, w) \<Rightarrow>
          let w = (case ep of None \<Rightarrow> w | Some a \<Rightarrow> snd (svl_service_listen a w)) in
          (case svl_service_start E w of
             (TN_SUCCESS, w) \<Rightarrow>
               (case guards (io_setup_stmts E junk' (buffer_count w))
                       (enter_io (set_priv (\<lambda>p. p\<lparr>uv_loop := None, tcp_handle := None, uv_accept_timer := None,
                          uv_prep := None, uv_check := None\<rparr>) w)) of
                  Some (TN_SUCCESS, f) \<Rightarrow>
                    Some \<lparr>world_of = svl_service_set_state SVL_SERVICE_STARTED (leave_io f), holding = False, writes_of = []\<rparr>
                | _ \<Rightarrow> None)
           | _ \<Rightarrow> None)
      | _ \<Rightarrow> None)"

definition sys_init :: "'t ext \<Rightarrow> 't view \<Rightarrow> 't sys \<Rightarrow> bool" where
  "sys_init E V s \<longleftrightarrow>
     (\<exists>junk junk' n ep w. sizes_ok E n \<and> log w = [] \<and> boot E junk junk' n ep w = Some s)"

lemma service_ready_start:
  assumes "service_ready E V w" and "log_ok lg" and "calm lg"
  shows "service_ready E V (w\<lparr>service_state := st, log := lg\<rparr>)"
  using assms by (simp add: service_ready_def)

lemma case_success: "(case x of TN_SUCCESS \<Rightarrow> a | _ \<Rightarrow> b) = (if x = TN_SUCCESS then a else b)"
  by (cases x) auto

lemma sys_init_start:
  assumes env: "env_ok E V" and init: "sys_init E V s"
  shows "sys_inv E V s \<and> ev_ready V (events (world_of s)) = [] \<and> \<not> holding s \<and>
    set (link_free V (link_list (world_of s))) = {..<length (client_map (link_list (world_of s)))}"
proof -
  from init obtain junk junk' n ep w where sz: "sizes_ok E n" and l: "log w = []" and boot: "boot E junk junk' n ep w = Some s"
    by (auto simp: sys_init_def)
  from boot obtain w1 w3 f where
    prep: "svl_service_setup E junk n w = Some (TN_SUCCESS, w1)" and
    start: "svl_service_start E (case ep of None \<Rightarrow> w1 | Some a \<Rightarrow> snd (svl_service_listen a w1)) = (TN_SUCCESS, w3)" and
    io: "guards (io_setup_stmts E junk' (buffer_count w3)) (enter_io (set_priv (\<lambda>p. p\<lparr>uv_loop := None, tcp_handle := None,
      uv_accept_timer := None, uv_prep := None, uv_check := None\<rparr>) w3)) = Some (TN_SUCCESS, f)" and
    s: "s = \<lparr>world_of = svl_service_set_state SVL_SERVICE_STARTED (leave_io f), holding = False, writes_of = []\<rparr>"
    by (auto simp: boot_def Let_def case_success split: option.splits prod.splits if_splits)
  from service_setup_ready [OF env sz _ _ prep] l have
    ready: "service_ready E V w1" and st: "service_state w1 = SVL_SERVICE_NEW" and buf: "unat (buffer_count w1) = 4 * unat n"
    and eu: "event_updates w1 = replicate (4 * unat n) None"
    by (auto simp: calm_def)
  let ?w2 = "case ep of None \<Rightarrow> w1 | Some a \<Rightarrow> snd (svl_service_listen a w1)"
  have w2: "service_ready E V ?w2" "service_state ?w2 = SVL_SERVICE_NEW" "buffer_count ?w2 = buffer_count w1"
    "event_updates ?w2 = event_updates w1"
    using ready st by (simp_all add: svl_service_listen_def svl_service_state_def service_ready_def split: option.splits)
  from start w2(2) have w3: "w3 = ?w2\<lparr>service_state := SVL_SERVICE_STARTING, log := (Thread_launch, TN_SUCCESS) # log ?w2\<rparr>"
    by (simp add: svl_service_start_def svl_service_state_def svl_service_set_state_def Let_def split: if_splits)
  have "log_ok ((Thread_launch, TN_SUCCESS) # log ?w2)" "calm ((Thread_launch, TN_SUCCESS) # log ?w2)"
    using w2(1) by (auto simp: service_ready_def calm_def)
  from service_ready_start [OF w2(1) this] have ready3: "service_ready E V w3" unfolding w3 .
  have buf3: "buffer_count w3 = n * 4" "event_updates w3 = replicate (4 * unat n) None"
    using w2(3,4) buf eu sizes_ok_buffers(1) [OF sz] by (simp_all add: w3) (simp add: word_unat_eq_iff)
  have "array_len E Blk_write_req (buffer_count w3) = unat (buffer_count w3)"
    using sizes_ok_buffers [OF sz] by (simp add: buf3)
  from io_setup_establishes_inv [OF env ready3 this io] have
    inv: "io_inv E V 0 0 0 [] (leave_io f)" and mp: "main_part (leave_io f) = main_part w3"
    and ev: "events (leave_io f) = events w3" and links: "link_list (leave_io f) = link_list w3" by auto
  from mp have "buffer_count (leave_io f) = n * 4" "event_updates (leave_io f) = replicate (4 * unat n) None"
    using buf3 by (simp_all add: main_part_def)
  moreover have "ev_ready V (events (leave_io f)) = []"
    and "set (link_free V (link_list (leave_io f))) = {..<length (client_map (link_list (leave_io f)))}"
    using ready3 ev links by (simp_all add: service_ready_def)
  ultimately show ?thesis
    using inv sizes_ok_buffers(1) [OF sz]
    by (simp add: s sys_inv_def held_events_def svl_service_set_state_def io_inv_state)
qed

lemma sys_init_inv: "env_ok E V \<Longrightarrow> sys_init E V s \<Longrightarrow> sys_inv E V s"
  using sys_init_start by blast

interpretation service: invariant "sys_init E V" "sys_step E V" "\<lambda>s. env_ok E V \<longrightarrow> sys_inv E V s"
  for E :: "'t ext" and V :: "'t view"
proof (unfold_locales, goal_cases)
  case (1 s)
  then show ?case using sys_init_inv by blast
next
  case (2 s s')
  then show ?case using main_step_inv io_step_inv by (auto simp: sys_step_def)
qed

end
