(* ===== verification/Svl_Reference_Run.thy ===== *)
theory Svl_Reference_Run
  imports Svl_System
begin

text \<open>
  A run of the service on the concrete environment of \<^verbatim>\<open>Tn_Reference\<close>: a service for one client is
  set up and started, then a client connects.  The witnesses of the properties of a running
  service are evaluated on the states of this run.
\<close>

section \<open>Evaluation\<close>

definition ref_req :: svl_service_write_req where
  "ref_req = \<lparr>wr_base = [], wr_len = 0, wr_link = None, wr_id = 0, wr_cmd_id = 0\<rparr>"

definition ref_world :: "robj world" where
  "ref_world = \<lparr>service_priv = None, host_listen = zero_endpoint, link_list = zero_link_list ref_ext,
     pool_read = RZero, pool_write = RZero, cmds = RZero, events = RZero, event_updates_ptr = None, event_updates = [],
     event_updates_count = 0, client_count_max = 0, buffer_count = 0, write_reqs_ptr = None, write_reqs = [],
     write_reqs_free = RZero, write_reqs_ready = RZero, service_state = SVL_SERVICE_NEW,
     priv_data = zero_priv ref_ext, handle_data = (\<lambda>_. None), req_data = (\<lambda>_. None),
     stats = \<lparr>send_msgs = 0, send_bytes = 0, recv_msgs = 0, recv_bytes = 0\<rparr>, log = []\<rparr>"

text \<open>Functions with \<open>Suc\<close> patterns, unfolded on numerals.\<close>

lemmas numeral_unfold =
  setup_write_reqs.simps(2) [where k = "pred_numeral k" for k, folded numeral_eq_Suc]
  fill_send_reqs.simps(2) [where k = "pred_numeral k" for k, folded numeral_eq_Suc]
  replicate_Suc [where n = "pred_numeral k" for k, folded numeral_eq_Suc]
  ref_ev_pop.simps(1) [where n = "pred_numeral k" for k, folded numeral_eq_Suc]
  ref_cmd_pop.simps(1) [where n = "pred_numeral k" for k, folded numeral_eq_Suc]
  ref_pool_pop.simps(1) [where n = "pred_numeral k" for k, folded numeral_eq_Suc]

lemmas setup_eval =
  svl_service_setup_def setup_stmts_def uv_do_def acquire_def setup_obj_def assign_def zero_service_def
  zero_priv_def release_mem_def svl_service_set_state_def svl_service_state_def SVL_SERVICE_MAX_RECV_def
  link_list_setup_stmt_def svl_link_list_setup_def ref_world_def zero_link_list_def set_link_def Let_def
  world.defs svl_service_start_def array_len_def array_bytes_def zero_endpoint_def

lemmas io_setup_eval =
  io_setup_stmts_def acquire_stmts_def uv_start_stmts_def listen_stmt_def listen_stmts_def io_uv_def
  set_priv_def enter_io_def leave_io_def io_frame.defs

lemmas inbound_eval =
  on_inbound_connection_cb_def inbound_stmts_def enter_def leave_def frame.defs with_handle_def
  with_link_def open_link_def svl_link_list_open_def set_handle_data_def init_inbound_link_def
  getpeername_def getsockname_def convert_remote_def pop_open_evt_def fill_open_evt_def
  push_open_evt_def upd_link_def deref_link_def ref_event_def

lemmas ref_eval = boot_def setup_eval io_setup_eval inbound_eval numeral_unfold

section \<open>The states of the run\<close>

definition ref_booted :: "robj sys" where
  "ref_booted = the (boot ref_ext ref_req ref_req 1 None ref_world)"

definition ref_connected :: "robj sys" where
  "ref_connected =
     ref_booted\<lparr>world_of := the (on_inbound_connection_cb ref_ext TN_SUCCESS (world_of ref_booted))\<rparr>"

lemma ref_env: "env_ok ref_ext ref_view"
  using ref_laws by (simp add: env_ok_def)

lemma ref_boot: "boot ref_ext ref_req ref_req 1 None ref_world = Some ref_booted"
proof -
  have "\<exists>s. boot ref_ext ref_req ref_req 1 None ref_world = Some s" by (simp add: ref_eval)
  then show ?thesis by (auto simp: ref_booted_def)
qed

lemma ref_init: "sys_init ref_ext ref_view ref_booted"
proof -
  have "sizes_ok ref_ext 1" by (simp add: sizes_ok_def)
  moreover have "log ref_world = []" by (simp add: ref_world_def)
  ultimately show ?thesis using ref_boot unfolding sys_init_def by blast
qed

lemma ref_connect:
  "on_inbound_connection_cb ref_ext TN_SUCCESS (world_of ref_booted) = Some (world_of ref_connected)"
proof -
  note inv = sys_invD(1) [OF sys_init_inv [OF ref_env ref_init]]
  from on_inbound_connection_cb_inv [OF ref_env inv, of TN_SUCCESS]
  have "\<exists>w. on_inbound_connection_cb ref_ext TN_SUCCESS (world_of ref_booted) = Some w" by blast
  then show ?thesis by (auto simp: ref_connected_def)
qed

lemma ref_run_booted: "run (sys_init ref_ext ref_view) (sys_step ref_ext ref_view) ref_booted"
  using ref_init by (rule run_init)

lemma ref_run_connected: "run (sys_init ref_ext ref_view) (sys_step ref_ext ref_view) ref_connected"
proof -
  have "sys_step ref_ext ref_view ref_booted (ref_booted\<lparr>world_of := world_of ref_connected\<rparr>)"
    using io_step.inbound [OF ref_connect] by (simp add: sys_step_def)
  moreover have "ref_booted\<lparr>world_of := world_of ref_connected\<rparr> = ref_connected" by (simp add: ref_connected_def)
  ultimately show ?thesis using run_step [OF ref_run_booted] by metis
qed

text \<open>
  What the state after the connection looks like: one link, which is open, and an open event, which
  carries the local address of the socket.
\<close>

lemma ref_connected_world:
  "Option.bind (boot ref_ext ref_req ref_req 1 None ref_world) (\<lambda>s. on_inbound_connection_cb ref_ext TN_SUCCESS (world_of s))
     = Some (world_of ref_connected)"
  by (simp add: ref_boot ref_connect)

lemma ref_connected_link:
  "length (client_map (link_list (world_of ref_connected))) = 1"
  "link_state (client_map (link_list (world_of ref_connected)) ! 0) = SVL_LINK_OPEN"
  "link_priv (client_map (link_list (world_of ref_connected)) ! 0) = Some 12"
  "link_service (client_map (link_list (world_of ref_connected)) ! 0)"
  "read_buffer (client_map (link_list (world_of ref_connected)) ! 0) = None"
  "handle_data (world_of ref_connected) 12 = Some 0"
  "reading (log (world_of ref_connected)) 12"
  using ref_connected_world [symmetric] by (simp_all add: ref_eval)

lemma ref_connected_service:
  "service_state (world_of ref_connected) = SVL_SERVICE_STARTED"
  "events (world_of ref_connected) =
     REvents 4 3 [flat ((ref_event TN_EVENT_CLIENT_OPEN)\<lparr>ev_host := ref_endpoint\<lparr>ep_addr := [2]\<rparr>\<rparr>)]"
  "cmds (world_of ref_connected) = RCmds 4 4 []"
  "pool_read (world_of ref_connected) = RPool 4 4 65535"
  "buffer_count (world_of ref_connected) = 4"
  "client_list_free (link_list (world_of ref_connected)) = RList 1 []"
  "send_req_list (priv_data (world_of ref_connected)) = RList 4 [0, 1, 2, 3]"
  "send_req (priv_data (world_of ref_connected)) \<noteq> []"
  "write_reqs_free (world_of ref_connected) = RQueue [0, 1, 2, 3]"
  using ref_connected_world [symmetric] by (simp_all add: ref_eval)

lemma boot_main: "boot E junk junk' n ep w = Some s \<Longrightarrow> holding s = False \<and> writes_of s = []"
  by (auto simp: boot_def Let_def case_success split: option.splits prod.splits if_splits)

lemma ref_connected_main: "holding ref_connected = False" "writes_of ref_connected = []"
  using boot_main [OF ref_boot] by (simp_all add: ref_connected_def)

section \<open>An outbound connection\<close>

lemmas cmd_open_eval =
  svl_service_cmd_open_def queue_cmd_def ref_cmd_def handle_cmd_def handle_cmd_open_def cmd_open_stmts_def
  init_outbound_link_def set_req_data_def tcp_connect_def

lemma ref_dial:
  "\<exists>w. Option.bind (boot ref_ext ref_req ref_req 1 None ref_world)
     (\<lambda>s. Option.bind (svl_service_cmd_open ref_ext ref_endpoint (world_of s)) (\<lambda>(r, i, w). on_check_cb ref_ext w)) = Some w \<and>
     pending (log w) 13 = Some 12"
  apply (simp add: ref_eval cmd_open_eval)
  apply (subst on_check_cb.simps)
  apply (simp add: ref_eval cmd_open_eval)
  apply (subst on_check_cb.simps)
  apply (simp add: ref_eval cmd_open_eval)
  done

text \<open>A state in which a connect request is under way.\<close>

lemma ref_run_dialing:
  "\<exists>s. run (sys_init ref_ext ref_view) (sys_step ref_ext ref_view) s \<and> pending (log (world_of s)) 13 = Some 12"
proof -
  from ref_dial obtain r i w1 w where
    w1: "svl_service_cmd_open ref_ext ref_endpoint (world_of ref_booted) = Some (r, i, w1)"
    and w: "on_check_cb ref_ext w1 = Some w" "pending (log w) 13 = Some 12"
    by (auto simp: ref_boot bind_eq_Some_conv)
  let ?s1 = "ref_booted\<lparr>world_of := w1\<rparr>"
  have "sys_step ref_ext ref_view ref_booted ?s1" using main_step.cmd_open [OF w1] by (simp add: sys_step_def)
  note run1 = run_step [OF ref_run_booted this]
  have "on_check_cb ref_ext (world_of ?s1) = Some w" using w(1) by simp
  from io_step.check [OF this, of ref_view] have "sys_step ref_ext ref_view ?s1
      (?s1\<lparr>world_of := w, writes_of := started_writes ref_view (world_of ?s1) w @ writes_of ?s1\<rparr>)"
    by (simp add: sys_step_def)
  from run_step [OF run1 this] w(2) show ?thesis by force
qed

end
