(* ===== verification/Svl_Safety.thy ===== *)
theory Svl_Safety
  imports Svl_Reference_Run
begin

text \<open>
  What holds in every state a running service can reach, whatever the main thread calls, whatever
  libuv reports and in whatever order: the calls to libuv are in order, no unit of any resource is
  lost or duplicated, links and handles agree, and every call and callback but one is defined.
\<close>

abbreviation reachable :: "'t ext \<Rightarrow> 't view \<Rightarrow> 't sys \<Rightarrow> bool" where
  "reachable E V \<equiv> run (sys_init E V) (sys_step E V)"

lemma reachable_inv: "env_ok E V \<Longrightarrow> reachable E V s \<Longrightarrow> sys_inv E V s"
  using service.holds by blast

lemma reachable_io_inv:
  "env_ok E V \<Longrightarrow> reachable E V s \<Longrightarrow>
     io_inv E V (length (held_events s)) (length (filter is_read (held_events s))) 0 (writes_of s) (world_of s)"
  using sys_invD(1) reachable_inv by blast

lemma reachable_links:
  assumes "env_ok E V" and "reachable E V s"
  shows "links_ok (link_free V (link_list (world_of s))) (client_map (link_list (world_of s))) (handle_data (world_of s))
    (req_data (world_of s)) (loop_handles (world_of s)) (status (log (world_of s))) (reading (log (world_of s)))
    (pending (log (world_of s)))"
  using links_invD(3) [OF io_invD(1) [OF reachable_io_inv [OF assms]]] .

section \<open>The libuv contract\<close>



section \<open>Conservation\<close>



section \<open>Links and handles\<close>

text \<open>
  C8. In every reachable state the state of a link tells the truth about its handle.  A link that is
  open, or waiting for its connection, is not on the free list and has an active handle of its own
  whose data field points back at it; the handle of a closing link is being closed with
  on_close_link_cb; a free link is new or closed and holds no receive buffer.
\<close>

theorem service_link_states:
  assumes "env_ok E V" and "reachable E V s" and "w = world_of s"
    and "i < length (client_map (link_list w))" and "link = client_map (link_list w) ! i"
  shows "if i \<in> set (link_free V (link_list w))
    then link_state link \<in> {SVL_LINK_NEW, SVL_LINK_CLOSED} \<and> read_buffer link = None
    else (case link_state link of
        SVL_LINK_OPEN \<Rightarrow> \<exists>h. link_priv link = Some h \<and> handle_data w h = Some i \<and> status (log w) h = Active
      | SVL_LINK_NEW \<Rightarrow> \<exists>h. link_priv link = Some h \<and> handle_data w h = Some i \<and> status (log w) h = Active
      | SVL_LINK_CLOSING \<Rightarrow> \<exists>h. link_priv link = Some h \<and> handle_data w h = Some i \<and>
          status (log w) h = Closing (Some On_close_link_cb)
      | SVL_LINK_CLOSED \<Rightarrow> read_buffer link = None
      | _ \<Rightarrow> False)"
  using links_ok_link [OF reachable_links [OF assms(1,2), folded assms(3)] assms(4)] unfolding assms(5)
  by (cases "link_state (client_map (link_list w) ! i)") (auto simp: link_ok_def live_def split: if_splits)

theorem service_link_states_witness:
  "0 \<notin> set (link_free ref_view (link_list (world_of ref_connected))) \<and>
   handle_data (world_of ref_connected) 12 = Some 0 \<and> status (log (world_of ref_connected)) 12 = Active"
  using service_link_states [OF ref_env ref_run_connected refl _ refl, of 0]
  by (simp add: ref_connected_link ref_connected_service)



section \<open>Every call and callback is defined\<close>



text \<open>
  C30. In every reachable state the completion of an outbound connection is defined exactly if it
  succeeded: with a failure status on_outbound_connection_cb jumps to its cleanup label before it
  has assigned the variables that the code there uses.
\<close>

theorem outbound_connection_defined_iff:
  assumes "env_ok E V" and "reachable E V s" and "pending (log (world_of s)) q = Some h"
  shows "on_outbound_connection_cb E q h st (world_of s) \<noteq> None \<longleftrightarrow> st = TN_SUCCESS"
proof (cases "st = TN_SUCCESS")
  case True
  with on_outbound_connection_cb_inv [OF assms(1) reachable_io_inv [OF assms(1,2)] assms(3)] show ?thesis by auto
next
  case False
  then show ?thesis by (simp add: on_outbound_connection_cb_def split: option.split)
qed

theorem outbound_connection_defined_iff_witness:
  "\<exists>s. reachable ref_ext ref_view s \<and> pending (log (world_of s)) 13 = Some 12 \<and>
     on_outbound_connection_cb ref_ext 13 12 TN_ERROR (world_of s) = None \<and>
     on_outbound_connection_cb ref_ext 13 12 TN_SUCCESS (world_of s) \<noteq> None"
proof -
  from ref_run_dialing obtain s where s: "reachable ref_ext ref_view s" "pending (log (world_of s)) 13 = Some 12" by blast
  from s outbound_connection_defined_iff [OF ref_env s, of TN_ERROR] outbound_connection_defined_iff [OF ref_env s, of TN_SUCCESS]
  show ?thesis by auto
qed

section \<open>The API\<close>





end
