(* ===== verification/Event_Channel.thy ===== *)
theory Event_Channel
  imports Transition
begin

text \<open>
  What the event list promises its two users, without links, buffers or free lists: a queue that
  the IO thread appends to and that the main thread takes prefixes from, one at a time.  The two
  histories record everything that was ever put in and taken out.
\<close>

record 'e chan =
  queue :: "'e list"
  taken :: "'e list option"
  produced :: "'e list"
  delivered :: "'e list"

definition chan_init :: "'e chan \<Rightarrow> bool" where
  "chan_init c \<longleftrightarrow> queue c = [] \<and> taken c = None \<and> produced c = [] \<and> delivered c = []"

inductive chan_step :: "'e chan \<Rightarrow> 'e chan \<Rightarrow> bool" where
  put: "chan_step c (c\<lparr>queue := queue c @ [e], produced := produced c @ [e]\<rparr>)"
| take_prefix: "taken c = None \<Longrightarrow> queue c = es @ rest \<Longrightarrow>
     chan_step c (c\<lparr>queue := rest, taken := Some es, delivered := delivered c @ es\<rparr>)"
| give_back: "taken c = Some es \<Longrightarrow> chan_step c (c\<lparr>taken := None\<rparr>)"

lemma put_many:
  "steps chan_step c (c\<lparr>queue := queue c @ es, produced := produced c @ es\<rparr>)"
proof (induction es rule: rev_induct)
  case Nil
  show ?case by (simp add: steps_refl)
next
  case (snoc e es)
  from steps_next [OF snoc.IH put [of _ e]] show ?case by simp
qed

text \<open>Everything that was put in is taken out or still there, in the same order.\<close>

definition chan_fifo :: "'e chan \<Rightarrow> bool" where
  "chan_fifo c \<longleftrightarrow> produced c = delivered c @ queue c"

interpretation channel: invariant chan_init chan_step chan_fifo
proof (unfold_locales, goal_cases)
  case (1 c)
  then show ?case by (simp add: chan_init_def chan_fifo_def)
next
  case (2 c c')
  from 2(2,1) show ?case by cases (simp_all add: chan_fifo_def)
qed

end
