(* ===== verification/Svl_Delivery.thy ===== *)
theory Svl_Delivery
  imports Svl_Safety Event_Channel
begin

text \<open>
  The running service refines the event channel: whatever the two threads do, the main thread gets
  exactly the events that the callbacks produced, in the order in which they produced them.
\<close>

section \<open>Callbacks append events\<close>

definition appends :: "'t view \<Rightarrow> ('t, 'x) world_scheme \<Rightarrow> ('t, 'y) world_scheme \<Rightarrow> bool" where
  "appends V w w' \<longleftrightarrow> (\<exists>es. ev_ready V (events w') = ev_ready V (events w) @ es)"

lemma appends_same: "events w' = events w \<Longrightarrow> appends V w w'"
  by (auto simp: appends_def)

lemma appends_trans: "appends V w w' \<Longrightarrow> appends V w' w'' \<Longrightarrow> appends V w w''"
  by (auto simp: appends_def)

lemma event_push_appends:
  "event_laws E V \<Longrightarrow> tn_event_list_ready_push E l e = (r, l') \<Longrightarrow> \<exists>es. ev_ready V l' = ev_ready V l @ es"
  unfolding event_laws_def by (metis append_Nil2)

lemma event_push_appends':
  "event_laws E V \<Longrightarrow> \<exists>es. ev_ready V (snd (tn_event_list_ready_push E l e)) = ev_ready V l @ es"
  by (metis event_push_appends prod.collapse)

text \<open>A sequence of guarded statements stays within a relation that is reflexive and transitive.\<close>

lemma guards_within:
  assumes "\<And>s. R s s" and "\<And>s t u. R s t \<Longrightarrow> R t u \<Longrightarrow> R s u"
    and "\<And>p s r s'. p \<in> set ps \<Longrightarrow> p s = Some (r, s') \<Longrightarrow> R s s'"
    and "guards ps s = Some (r, s')"
  shows "R s s'"
  using assms(3,4)
proof (induction ps arbitrary: s)
  case Nil
  then show ?case using assms(1) by simp
next
  case (Cons p ps)
  from Cons.prems(2) obtain r1 s1 where p: "p s = Some (r1, s1)" by (auto split: option.splits)
  have R1: "R s s1" using Cons.prems(1) [of p s r1 s1] p by simp
  have "R s1 s'" if "r1 = TN_SUCCESS"
    using that p Cons.prems(2) Cons.IH [of s1] Cons.prems(1) by auto
  with R1 p Cons.prems(2) show ?case using assms(2) by (cases "r1 = TN_SUCCESS") auto
qed

lemma events_simps [simp]:
  "events (enter oh oq j w) = events w" "events (leave f) = events f"
  "events (upd_link i g w) = events w" "events (uv_close h cb w) = events w" "events (release_mem p w) = events w"
  by (simp_all add: enter_def leave_def world.defs frame.defs upd_link_def uv_close_def release_mem_def)

lemma pop_open_evt_appends: "event_laws E V \<Longrightarrow> pop_open_evt E s = Some (r, s') \<Longrightarrow> appends V s s'"
  using event_pop_law(2) by (fastforce simp: pop_open_evt_def appends_def split: prod.splits)

lemma push_open_evt_appends: "event_laws E V \<Longrightarrow> push_open_evt E s = Some (r, s') \<Longrightarrow> appends V s s'"
  using event_push_appends by (fastforce simp: push_open_evt_def appends_def split: prod.splits option.splits)

lemma inbound_stmts_appends:
  assumes "event_laws E V" and "p \<in> set (inbound_stmts E)" and "p s = Some (r, s')"
  shows "appends V s s'"
proof (cases "p = pop_open_evt E \<or> p = push_open_evt E")
  case True
  then show ?thesis using assms pop_open_evt_appends push_open_evt_appends by blast
next
  case False
  with assms(2,3) have "events s' = events s"
    unfolding inbound_stmts_def
    by (auto simp: acquire_def uv_do_def with_handle_def with_link_def assign_def open_link_def set_handle_data_def
        init_inbound_link_def getpeername_def getsockname_def convert_remote_def fill_open_evt_def Let_def
        split: option.splits prod.splits if_splits)
  then show ?thesis by (rule appends_same)
qed

lemma outbound_stmts_appends:
  assumes "event_laws E V" and "p \<in> set (outbound_stmts E)" and "p s = Some (r, s')"
  shows "appends V s s'"
proof (cases "p = pop_open_evt E \<or> p = push_open_evt E")
  case True
  then show ?thesis using assms pop_open_evt_appends push_open_evt_appends by blast
next
  case False
  with assms(2,3) have "events s' = events s"
    unfolding outbound_stmts_def
    by (auto simp: uv_do_def with_handle_def with_link_def getpeername_def getsockname_def convert_remote_def
        fill_open_evt_def Let_def split: option.splits prod.splits if_splits)
  then show ?thesis by (rule appends_same)
qed

lemma on_inbound_appends:
  assumes "event_laws E V" and "on_inbound_connection_cb E st w = Some w'"
  shows "appends V w w'"
proof -
  have "appends V (enter None None None w) f" if "guards (inbound_stmts E) (enter None None None w) = Some (r, f)" for r f
    using appends_same [OF refl] appends_trans inbound_stmts_appends [OF assms(1)] that
    by (rule guards_within [where R = "appends V" and ps = "inbound_stmts E"])
  moreover have "events (inbound_cleanup f) = events f" for f :: "'a frame"
    by (simp add: inbound_cleanup_def split: option.splits)
  ultimately show ?thesis
    using assms(2) by (fastforce simp: on_inbound_connection_cb_def appends_def split: if_splits option.splits)
qed

lemma on_outbound_appends:
  assumes "event_laws E V" and "on_outbound_connection_cb E q h st w = Some w'"
  shows "appends V w w'"
proof -
  have "appends V (enter (Some h) (Some q) (Some i) w) f"
    if "guards (outbound_stmts E) (enter (Some h) (Some q) (Some i) w) = Some (r, f)" for r f i
    using appends_same [OF refl] appends_trans outbound_stmts_appends [OF assms(1)] that
    by (rule guards_within [where R = "appends V" and ps = "outbound_stmts E"])
  then show ?thesis
    using assms(2) by (fastforce simp: on_outbound_connection_cb_def appends_def split: if_splits option.splits)
qed

lemma on_close_link_appends:
  assumes "event_laws E V" and "on_close_link_cb E h w = Some w'"
  shows "appends V w w'"
proof -
  have "appends V (w\<lparr>events := l\<rparr>) (w\<lparr>events := snd (tn_event_list_ready_push E l e)\<rparr>)" for l e
    using event_push_appends' [OF assms(1)] by (simp add: appends_def)
  then show ?thesis
    using assms(2) event_pop_law(2) [OF assms(1)]
    by (auto simp: on_close_link_cb_def Let_def appends_def split: option.splits prod.splits if_splits) metis+
qed

lemma events_recv_cleanup [simp]: "events (recv_cleanup E h i r cl w) = events w"
  by (simp add: recv_cleanup_def Let_def)

lemma on_recv_appends:
  assumes "event_laws E V" and "on_recv_cb E h nread buf w = Some w'"
  shows "appends V w w'"
  using assms(2) event_pop_law(2) [OF assms(1)] event_push_appends [OF assms(1)]
  by (auto simp: on_recv_cb_def Let_def appends_def split: option.splits prod.splits if_splits) metis+

lemma recv_cbs_appends:
  assumes "event_laws E V" and "recv_cbs E h answer w = Some w'"
  shows "appends V w w'"
proof -
  have "events w1 = events w" if "on_recv_alloc_cb E h w = Some (out, w1)" for out w1
    using that by (auto simp: on_recv_alloc_cb_def Let_def split: option.splits prod.splits if_splits)
  then show ?thesis
    using assms(2) on_recv_appends [OF assms(1)]
    by (auto simp: recv_cbs_def appends_def split: option.splits prod.splits) metis
qed

text \<open>Handling commands produces no event.\<close>

lemma handle_cmd_events: "handle_cmd E c w = Some w' \<Longrightarrow> events w' = events w"
proof -
  have open_cmd: "events f = events w" if "guards (cmd_open_stmts E c) (enter None None None w) = Some (r, f)" for r f
  proof -
    have "events t = events s" if "p \<in> set (cmd_open_stmts E c)" "p s = Some (r, t)" for p s r t
      using that unfolding cmd_open_stmts_def
      by (auto simp: acquire_def uv_do_def with_handle_def with_link_def assign_def open_link_def set_handle_data_def
          init_outbound_link_def set_req_data_def tcp_connect_def Let_def split: option.splits prod.splits if_splits)
    from guards_keep [where K = events, OF this that] show ?thesis by simp
  qed
  have clean: "events (cmd_open_cleanup E f) = events f" for f :: "'a frame"
    by (auto simp: cmd_open_cleanup_def Let_def split: option.splits)
  assume "handle_cmd E c w = Some w'"
  then show ?thesis
    using open_cmd clean
    by (auto simp: handle_cmd_def handle_cmd_open_def handle_cmd_close_def handle_cmd_send_def Let_def
        split: tn_cmd_type_t.splits option.splits prod.splits if_splits)
qed

lemma on_check_events:
  assumes "on_check_cb E w = Some w'"
  shows "events w' = events w"
proof (rule on_check_cb.raw_induct [OF _ assms], goal_cases)
  case (1 check E w w')
  obtain r out l where pop: "tn_cmd_list_ready_pop_back E (cmds w) = (r, out, l)"
    by (cases "tn_cmd_list_ready_pop_back E (cmds w)") auto
  show ?case
  proof (cases "r = TN_SUCCESS")
    case False
    with 1(2) pop show ?thesis by auto
  next
    case True
    with 1(2) pop obtain c w1 where w1: "handle_cmd E c (w\<lparr>cmds := l\<rparr>) = Some w1"
      and rec: "check E (w1\<lparr>cmds := snd (tn_cmd_list_free_push E (cmds w1) c)\<rparr>) = Some w'"
      by (auto simp: Let_def split: option.splits)
    from 1(1) [OF rec] handle_cmd_events [OF w1] show ?thesis by simp
  qed
qed

section \<open>Histories\<close>

text \<open>The events that wait for the main thread, in the order in which they were produced.\<close>

abbreviation waiting :: "'t view \<Rightarrow> 't sys \<Rightarrow> 't tn_event list" where
  "waiting V s \<equiv> ev_ready V (events (world_of s))"

text \<open>
  A run with its history: the events that callbacks have queued so far and the events that
  \<^verbatim>\<open>svl_service_events_acquire\<close> has returned so far.
\<close>

type_synonym 't history = "'t sys \<times> 't tn_event list \<times> 't tn_event list"

definition hist_init :: "'t ext \<Rightarrow> 't view \<Rightarrow> 't history \<Rightarrow> bool" where
  "hist_init E V x \<longleftrightarrow> (case x of (s, made, got) \<Rightarrow> sys_init E V s \<and> made = [] \<and> got = [])"

inductive hist_step :: "'t ext \<Rightarrow> 't view \<Rightarrow> 't history \<Rightarrow> 't history \<Rightarrow> bool" for E V where
  main: "main_step E s s' \<Longrightarrow>
     hist_step E V (s, made, got) (s', made, if holding s then got else got @ held_events s')"
| io: "io_step E V s s' \<Longrightarrow>
     hist_step E V (s, made, got) (s', made @ drop (length (waiting V s)) (waiting V s'), got)"

lemma history_run: "run (hist_init E V) (hist_step E V) x \<Longrightarrow> reachable E V (fst x)"
proof (induction rule: run.induct)
  case (run_init x)
  then show ?case by (auto simp: hist_init_def intro: run.run_init)
next
  case (run_step x y)
  from run_step.hyps(2) have "sys_step E V (fst x) (fst y)" by cases (simp_all add: sys_step_def)
  with run_step.IH show ?case by (rule run.run_step)
qed

text \<open>Every run of the service has a history.\<close>

lemma run_history: "reachable E V s \<Longrightarrow> \<exists>made got. run (hist_init E V) (hist_step E V) (s, made, got)"
proof (induction rule: run.induct)
  case (run_init s)
  then have "hist_init E V (s, [], [])" by (simp add: hist_init_def)
  from run.run_init [of "hist_init E V", OF this] show ?case by blast
next
  case (run_step s s')
  from run_step.IH obtain made got where h: "run (hist_init E V) (hist_step E V) (s, made, got)" by blast
  from run_step.hyps(2) have "main_step E s s' \<or> io_step E V s s'" by (simp add: sys_step_def)
  then show ?case
  proof
    assume "main_step E s s'"
    from run.run_step [OF h hist_step.main [OF this]] show ?thesis by blast
  next
    assume "io_step E V s s'"
    from run.run_step [OF h hist_step.io [OF this]] show ?thesis by blast
  qed
qed

section \<open>Refinement\<close>

definition chan_rel :: "'t view \<Rightarrow> 't history \<Rightarrow> 't tn_event chan \<Rightarrow> bool" where
  "chan_rel V x c \<longleftrightarrow>
     (case x of (s, made, got) \<Rightarrow>
        queue c = waiting V s \<and> taken c = (if holding s then Some (held_events s) else None) \<and>
        produced c = made \<and> delivered c = got)"

lemma held_events_same:
  "main_part w = main_part (world_of s) \<Longrightarrow> held_events (s\<lparr>world_of := w\<rparr>) = held_events s"
  by (simp add: held_events_def main_part_def)

lemma io_step_keeps_held:
  assumes "io_step E V s s'"
  shows "holding s' = holding s \<and> held_events s' = held_events s"
  using assms
proof cases
  case (receive h answer w)
  then show ?thesis
    by (auto simp: recv_cbs_def held_events_def main_part_def
        dest!: on_recv_keep on_recv_alloc_keep split: option.splits prod.splits)
next
  case (check w)
  have "main_part w = main_part (world_of s)"
  proof (rule on_check_cb.raw_induct [OF _ check(2), where P = "\<lambda>E w w'. main_part w' = main_part w"], goal_cases)
    case (1 check E w w')
    then show ?case
      by (auto simp: Let_def main_part_def dest!: handle_cmd_keep split: prod.splits if_splits option.splits)
  qed
  then show ?thesis using check(1) by (simp add: held_events_def main_part_def)
next
  case (sent q st w)
  then show ?thesis by (auto simp: held_events_def main_part_def dest: on_send_keep)
qed (auto simp: held_events_same on_timer_keep on_sigint_cb_def svl_service_stop_signal_def svl_service_set_state_def Let_def
      on_prep_cb_def on_close_handle_cb_def main_part_def [of "_\<lparr>service_state := _\<rparr>"] main_part_def [of "world_of s"]
      dest!: on_inbound_keep on_outbound_keep on_close_link_keep)

lemma io_step_appends:
  assumes "event_laws E V" and "io_step E V s s'"
  shows "appends V (world_of s) (world_of s')"
  using assms(2)
proof cases
  case (timer)
  have "events (safe_close_uv_handle E p w) = events w" for p and w :: "'a world"
    by (simp add: safe_close_uv_handle_def split: option.splits)
  then show ?thesis using timer by (intro appends_same) (simp add: on_timer_cb_def Let_def)
next
  case (sent q st w)
  then show ?thesis
    by (intro appends_same) (auto simp: on_send_cb_def Let_def split: option.splits if_splits)
next
  case (check w)
  then show ?thesis by (intro appends_same) (auto dest: on_check_events)
next
  case (closed_handle h)
  then show ?thesis by (intro appends_same) (simp add: on_close_handle_cb_def)
next
  case prepare
  then show ?thesis by (intro appends_same) (simp add: on_prep_cb_def)
next
  case (sigint sig)
  then show ?thesis
    by (intro appends_same) (simp add: on_sigint_cb_def svl_service_stop_signal_def svl_service_set_state_def Let_def)
qed (use assms(1) in \<open>auto intro: on_inbound_appends on_outbound_appends recv_cbs_appends on_close_link_appends\<close>)

lemma main_part_state: "main_part (w\<lparr>service_state := st\<rparr>) = main_part w"
  by (simp add: main_part_def)

lemma queue_cmd_keep: "queue_cmd E ty fill w = Some (r, i, w') \<Longrightarrow> main_part w' = main_part w \<and> events w' = events w"
  by (auto simp: queue_cmd_def Let_def main_part_def split: prod.splits option.splits if_splits)

lemma cmd_keep:
  "svl_service_cmd_open E ep w = Some (r, i, w') \<Longrightarrow> main_part w' = main_part w \<and> events w' = events w"
  "svl_service_cmd_close E cid w = Some (r, i, w') \<Longrightarrow> main_part w' = main_part w \<and> events w' = events w"
  "svl_service_cmd_send E cid msg n w = Some (r, i, w') \<Longrightarrow> main_part w' = main_part w \<and> events w' = events w"
  "main_part (snd (svl_service_stop_signal w)) = main_part w \<and> events (snd (svl_service_stop_signal w)) = events w"
  by (auto simp: svl_service_cmd_open_def svl_service_cmd_close_def svl_service_cmd_send_def svl_service_stop_signal_def
      svl_service_set_state_def Let_def main_part_state dest: queue_cmd_keep split: if_splits prod.splits)

lemma main_step_channel:
  assumes "env_ok E V" and "reachable E V s" and "main_step E s s'" and "chan_rel V (s, made, got) c"
  shows "\<exists>c'. steps chan_step c c' \<and> chan_rel V (s', made, if holding s then got else got @ held_events s') c'"
proof -
  note inv = reachable_inv [OF assms(1,2)]
  have stutter: ?thesis if "s' = s\<lparr>world_of := w\<rparr>" "main_part w = main_part (world_of s) \<and> events w = events (world_of s)" for w
  proof (intro exI conjI)
    show "steps chan_step c c" by (rule steps_refl)
    have "held_events s' = held_events s" using held_events_same that by blast
    then show "chan_rel V (s', made, if holding s then got else got @ held_events s') c"
      using assms(4) that by (cases "holding s") (simp_all add: chan_rel_def, simp add: held_events_def)
  qed
  from assms(3) show ?thesis
  proof cases
    case (acquire_events r out n w)
    from events_acquire_result [OF assms(1) sys_invD [OF inv]] obtain r' out' w' es where
      acq: "svl_service_events_acquire E (world_of s) = Some (r', out', of_nat (length es), w')"
      and pre: "es = (if r' = TN_SUCCESS then take (unat (buffer_count (world_of s))) (waiting V s) else [])"
      and es': "ev_ready V (events w') = drop (length es) (waiting V s)" "take (length es) (event_updates w') = map Some es"
      "event_updates_count w' = of_nat (length es)" "length es \<le> unat (buffer_count (world_of s))" by blast
    from acq acquire_events(3) have "w' = w" by simp
    note es'' = es' [unfolded this]
    from pre have "take (length es) (waiting V s) = es" by (auto simp: min_def split: if_splits)
    then have es: "waiting V s = es @ ev_ready V (events w)" unfolding es''(1) by (metis append_take_drop_id)
    have "unat (of_nat (length es) :: u64) = length es" using es''(4) by (metis le_unat_uoi)
    with es'' have held: "held_events s' = es" "holding s'" by (simp_all add: acquire_events(1) held_events_def)
    have "chan_step c (c\<lparr>queue := ev_ready V (events w), taken := Some es, delivered := delivered c @ es\<rparr>)"
      using assms(4) acquire_events(2) es by (intro take_prefix) (simp_all add: chan_rel_def)
    from steps_next [where step = chan_step, OF steps_refl this] show ?thesis
      using assms(4) held acquire_events(1,2) by (intro exI conjI) (auto simp: chan_rel_def)
  next
    case (release_events r w)
    from release_step_inv [OF assms(1) inv release_events(2)] release_events(1,3) have "waiting V s' = waiting V s" by auto
    moreover have "chan_step c (c\<lparr>taken := None\<rparr>)"
      using assms(4) release_events(2) by (intro give_back) (simp add: chan_rel_def)
    ultimately show ?thesis
      using steps_next [OF steps_refl, of chan_step c] assms(4) release_events(1,2)
      by (intro exI [of _ "c\<lparr>taken := None\<rparr>"]) (simp add: chan_rel_def)
  qed (rule stutter, assumption, erule cmd_keep | rule stutter, assumption, rule cmd_keep)+
qed

lemma io_step_channel:
  assumes "env_ok E V" and "io_step E V s s'" and "chan_rel V (s, made, got) c"
  shows "\<exists>c'. steps chan_step c c' \<and> chan_rel V (s', made @ drop (length (waiting V s)) (waiting V s'), got) c'"
proof -
  from io_step_appends [OF env_okD(4) [OF assms(1)] assms(2)] obtain es where es: "waiting V s' = waiting V s @ es"
    by (auto simp: appends_def)
  with put_many [of c es] assms(3) io_step_keeps_held [OF assms(2)] show ?thesis
    by (intro exI [of _ "c\<lparr>queue := queue c @ es, produced := produced c @ es\<rparr>"]) (simp add: chan_rel_def)
qed

definition empty_chan :: "'e chan" where
  "empty_chan = \<lparr>queue = [], taken = None, produced = [], delivered = []\<rparr>"

lemma hist_init_channel: "env_ok E V \<Longrightarrow> hist_init E V x \<Longrightarrow> chan_rel V x empty_chan"
  using sys_init_start by (fastforce simp: hist_init_def chan_rel_def empty_chan_def)

lemma hist_step_channel:
  assumes env: "env_ok E V" and x: "run (hist_init E V) (hist_step E V) x" and c: "chan_rel V x c" and step: "hist_step E V x y"
  shows "\<exists>c'. steps chan_step c c' \<and> chan_rel V y c'"
  using step
proof cases
  case (main s s' made got)
  from history_run [OF x] main(1) have "reachable E V s" by simp
  from main_step_channel [OF env this main(3)] c main(1,2) show ?thesis by blast
next
  case (io s s' made got)
  from io_step_channel [OF env io(3)] c io(1,2) show ?thesis by blast
qed

interpretation delivery: simulation "hist_init E V" "hist_step E V" chan_init chan_step "\<lambda>x c. env_ok E V \<longrightarrow> chan_rel V x c"
  for E :: "'t ext" and V :: "'t view"
proof (unfold_locales, goal_cases)
  case (1 x)
  have "chan_init empty_chan" by (simp add: chan_init_def empty_chan_def)
  with 1 hist_init_channel show ?case by blast
next
  case (2 x c y)
  then show ?case using hist_step_channel [OF _ 2(1) _ 2(3)] steps_refl by metis
qed

text \<open>
  C3. The service refines the event channel: for every run with its history there is a run of the
  channel in which the same events wait, the main thread holds the same events, and the same events
  have been produced and delivered so far.
\<close>

theorem service_refines_event_channel:
  assumes "env_ok E V" and "run (hist_init E V) (hist_step E V) (s, made, got)"
  shows "\<exists>c. run chan_init chan_step c \<and> queue c = ev_ready V (events (world_of s)) \<and>
    taken c = (if holding s then Some (held_events s) else None) \<and> produced c = made \<and> delivered c = got"
  using delivery.simulates [OF assms(2)] assms(1) by (auto simp: chan_rel_def)

theorem service_refines_event_channel_witness:
  "\<exists>made got (c :: robj tn_event chan).
     run (hist_init ref_ext ref_view) (hist_step ref_ext ref_view) (ref_connected, made, got) \<and>
     run chan_init chan_step c \<and> length (queue c) = 1 \<and> taken c = None \<and> produced c = made \<and> delivered c = got"
proof -
  from run_history [OF ref_run_connected] obtain made got where
    h: "run (hist_init ref_ext ref_view) (hist_step ref_ext ref_view) (ref_connected, made, got)" by blast
  from service_refines_event_channel [OF ref_env h] obtain c where
    "run chan_init chan_step c" "queue c = ev_ready ref_view (events (world_of ref_connected))" "taken c = None"
    "produced c = made" "delivered c = got" by (auto simp: ref_connected_main)
  moreover from this(2) have "length (queue c) = 1" by (simp add: ref_connected_service)
  ultimately show ?thesis using h by blast
qed



end
