(* ===== verification/Svl_Traffic.thy ===== *)
theory Svl_Traffic
  imports Svl_Safety
begin

text \<open>
  What the callbacks do with the data: received bytes reach the main thread unchanged, in order and
  for the right client; a send command hands its message to libuv once; closing a link reports the
  client and frees the link.
\<close>

section \<open>Received bytes\<close>

text \<open>
  \<^verbatim>\<open>TN_BUFLEN_CAST\<close> converts a \<^verbatim>\<open>size_t\<close> to the length type of \<^verbatim>\<open>uv_buf_t\<close>, which has at least 32 bits: it
  keeps what fits and never makes a length larger.
\<close>

definition buflen_laws :: "'t ext \<Rightarrow> bool" where
  "buflen_laws E \<longleftrightarrow>
     (\<forall>n. unat n < 2 ^ 32 \<longrightarrow> TN_BUFLEN_CAST E n = n) \<and> (\<forall>n. unat (TN_BUFLEN_CAST E n) \<le> unat n)"

text \<open>The bytes a read event carries, and the bytes of a link that no event carries yet.\<close>

definition payload :: "'t tn_event \<Rightarrow> u8 list" where
  "payload e = take (unat (ev_len e)) (ev_buffer e)"

definition leftover :: "'t view \<Rightarrow> 't svl_link \<Rightarrow> u8 list" where
  "leftover V l = (case read_buffer l of None \<Rightarrow> [] | Some b \<Rightarrow> buf_bytes V b)"

text \<open>The bytes received for the link \<open>i\<close> that the main thread has not taken yet, in order.\<close>

definition link_stream :: "'t view \<Rightarrow> nat \<Rightarrow> 't world \<Rightarrow> u8 list" where
  "link_stream V i w =
     concat (map payload (filter (\<lambda>e. is_read e \<and> ev_client_id e = of_nat i) (ev_ready V (events w)))) @
     leftover V (client_map (link_list w) ! i)"

lemma link_stream_update:
  assumes "i < length (client_map (link_list w))" and "events w = l"
  shows "link_stream V j (upd_link i f (w\<lparr>events := l'\<rparr>)) =
    concat (map payload (filter (\<lambda>e. is_read e \<and> ev_client_id e = of_nat j) (ev_ready V l'))) @
    leftover V (if j = i then f (client_map (link_list w) ! i) else client_map (link_list w) ! j)"
  using assms by (simp add: link_stream_def upd_link_def)

lemma link_stream_same:
  "events w' = events w \<Longrightarrow> leftover V (client_map (link_list w') ! j) = leftover V (client_map (link_list w) ! j) \<Longrightarrow>
     link_stream V j w' = link_stream V j w"
  by (simp add: link_stream_def)

text \<open>Handing out a buffer changes no stream.\<close>

lemma recv_alloc_stream:
  assumes env: "env_ok E V" and alloc: "on_recv_alloc_cb E h w = Some (Some n, w1)" and h: "handle_data w h = Some i"
  shows "i < length (client_map (link_list w1)) \<and>
    (\<exists>b. read_buffer (client_map (link_list w1) ! i) = Some b \<and> n = TN_BUFLEN_CAST E (tn_buffer_remaining E b)) \<and>
    (\<forall>j. link_stream V j w1 = link_stream V j w) \<and> events w1 = events w"
proof -
  let ?m = "client_map (link_list w)"
  from alloc h have il: "i < length ?m" by (auto simp: on_recv_alloc_cb_def deref_link_def split: if_splits)
  then have deref: "deref_link w i = Some (?m ! i)" by (simp add: deref_link_def)
  show ?thesis
  proof (cases "read_buffer (?m ! i)")
    case (Some b)
    with alloc h deref il show ?thesis by (simp add: on_recv_alloc_cb_def)
  next
    case None
    obtain r out p where pop: "tn_buffer_pool_pop_back E (pool_read w) None = (r, out, p)"
      by (cases "tn_buffer_pool_pop_back E (pool_read w) None") auto
    from alloc h deref None pop have r: "r = TN_SUCCESS" by (auto simp: on_recv_alloc_cb_def Let_def split: if_splits)
    from pool_pop_law(5) [OF env_okD(3) [OF env] pop r] obtain b where b: "out = Some b" "buf_bytes V b = []" by blast
    with alloc h deref None pop r have w1: "w1 = upd_link i (\<lambda>l. l\<lparr>read_buffer := Some b\<rparr>) (w\<lparr>pool_read := p\<rparr>)"
      and n: "n = TN_BUFLEN_CAST E (tn_buffer_remaining E b)"
      by (auto simp: on_recv_alloc_cb_def Let_def split: if_splits)
    have "leftover V (client_map (link_list w1) ! j) = leftover V (?m ! j)" for j
      using il b(2) None by (auto simp: w1 upd_link_def leftover_def nth_list_update)
    then have "link_stream V j w1 = link_stream V j w" for j
      by (intro link_stream_same) (simp_all add: w1 upd_link_def)
    then show ?thesis using il n by (simp add: w1 upd_link_def)
  qed
qed

lemma link_ids_differ:
  assumes "link_list_inv E V list" and "i < length (client_map list)" and "j < length (client_map list)"
  shows "(of_nat i :: u64) = of_nat j \<longleftrightarrow> i = j"
proof -
  have "unat (of_nat k :: u64) = k" if "k < length (client_map list)" for k
    using that assms(1) by (metis le_unat_uoi less_imp_le link_list_inv_def)
  with assms(2,3) show ?thesis by metis
qed

lemma unat_length:
  assumes "length xs < 2 ^ 32"
  shows "unat (of_nat (length xs) :: u64) = length xs" and "unat (ucast (of_nat (length xs) :: u64) :: u32) = length xs"
  using assms by (simp_all add: unsigned_of_nat unsigned_ucast_eq take_bit_nat_eq_self)

text \<open>
  One read of \<open>bytes\<close>, which fit into the buffer the link has: the bytes are appended to the stream of
  the link, whether or not an event was available, and to no other stream.
\<close>

lemma on_recv_stream:
  assumes env: "env_ok E V" and bl: "buflen_laws E" and ev: "events_ok V k (events w)"
    and li: "link_list_inv E V (link_list w)" and h: "handle_data w h = Some i"
    and i: "i < length (client_map (link_list w))" "link_service (client_map (link_list w) ! i)"
    and b: "read_buffer (client_map (link_list w) ! i) = Some b"
    and bytes: "bytes \<noteq> []" "length bytes \<le> buf_room V b" "length (buf_bytes V b) + length bytes < 2 ^ 32"
  shows "\<exists>w'. on_recv_cb E h (int (length bytes)) (Some bytes) w = Some w' \<and>
    (\<forall>j < length (client_map (link_list w)). link_stream V j w' = link_stream V j w @ (if j = i then bytes else [])) \<and>
    log w' = log w \<and> handle_data w' = handle_data w \<and>
    length (client_map (link_list w')) = length (client_map (link_list w)) \<and>
    length (leftover V (client_map (link_list w') ! i)) \<le> length (buf_bytes V b) + length bytes"
proof -
  let ?m = "client_map (link_list w)" and ?n = "of_nat (length bytes) :: u64"
  let ?w0 = "w\<lparr>stats := (stats w)\<lparr>recv_msgs := recv_msgs (stats w) + 1, recv_bytes := recv_bytes (stats w) + ?n\<rparr>\<rparr>"
  have deref: "deref_link w i = Some (?m ! i)" using i by (simp add: deref_link_def)
  have n: "unat ?n = length bytes" using bytes(3) by (intro unat_length) simp
  obtain r b' where add: "tn_buffer_add_length E (kernel_store E b bytes) ?n = (r, b')" by fastforce
  from env_okD(2) [OF env] add n bytes(2) have r: "r = TN_SUCCESS" and b': "buf_bytes V b' = buf_bytes V b @ bytes"
    unfolding buffer_laws_def by (metis (full_types))+
  obtain r1 out l where pop: "tn_event_list_free_pop E TN_EVENT_CLIENT_READ (events w) = (r1, out, l)"
    by (cases "tn_event_list_free_pop E TN_EVENT_CLIENT_READ (events w)") auto
  note evl = events_ok_pop [OF env_okD(4) [OF env] pop ev]
  have left: "leftover V (?m ! i) = buf_bytes V b" by (simp add: leftover_def b)
  show ?thesis
  proof (cases "r1 = TN_SUCCESS")
    case False
    let ?w' = "recv_cleanup E h i TN_RECV_EVTPOP False (upd_link i (\<lambda>l. l\<lparr>read_buffer := Some b'\<rparr>) (?w0\<lparr>events := l\<rparr>))"
    have "on_recv_cb E h (int (length bytes)) (Some bytes) w = Some ?w'"
      using False h deref bytes(1) b add r i(2) pop by (simp add: on_recv_cb_def Let_def upd_link_commute)
    moreover have "link_stream V j ?w' = link_stream V j w @ (if j = i then bytes else [])" for j
      using i(1) evl(3) left b' by (simp add: link_stream_def recv_cleanup_def upd_link_def leftover_def)
    moreover have "log ?w' = log w \<and> handle_data ?w' = handle_data w \<and> length (client_map (link_list ?w')) = length ?m \<and>
        length (leftover V (client_map (link_list ?w') ! i)) \<le> length (buf_bytes V b) + length bytes"
      using i(1) b' by (simp add: recv_cleanup_def upd_link_def leftover_def)
    ultimately show ?thesis by blast
  next
    case True
    with evl obtain e where e: "out = Some e" "ev_type e = TN_EVENT_CLIENT_READ" and ev': "events_ok V (Suc k) l" by blast
    let ?e = "e\<lparr>ev_client_id := link_id (?m ! i), ev_priv := Some b', ev_buffer := tn_buffer_read_ptr E b',
      ev_len := ucast (TN_BUFLEN_CAST E (tn_buffer_read_length E b'))\<rparr>"
    obtain r2 l2 where push: "tn_event_list_ready_push E l ?e = (r2, l2)" by fastforce
    have pr: "is_read ?e \<Longrightarrow> ev_priv ?e \<noteq> None" by simp
    note evp = events_ok_push [OF env_okD(4) [OF env] push ev' pr]
    let ?w' = "upd_link i (\<lambda>l. l\<lparr>read_buffer := None\<rparr>) (?w0\<lparr>events := l2\<rparr>)"
    have "on_recv_cb E h (int (length bytes)) (Some bytes) w = Some ?w'"
      using True h deref bytes(1) b add r i(2) pop e push evp(1)
      by (simp add: on_recv_cb_def Let_def upd_link_commute upd_link_twice comp_def)
    moreover have "link_stream V j ?w' = link_stream V j w @ (if j = i then bytes else [])" if "j < length ?m" for j
    proof -
      have lenb': "length (buf_bytes V b') < 2 ^ 32" using b' bytes(3) by simp
      from env_okD(2) [OF env] obtain more where ptr: "tn_buffer_read_ptr E b' = buf_bytes V b' @ more"
        and len: "tn_buffer_read_length E b' = of_nat (length (buf_bytes V b'))" unfolding buffer_laws_def by metis
      have "TN_BUFLEN_CAST E (of_nat (length (buf_bytes V b'))) = of_nat (length (buf_bytes V b'))"
        using bl unat_length(1) [OF lenb'] lenb' by (simp add: buflen_laws_def)
      with ptr len unat_length(2) [OF lenb'] have pay: "payload ?e = buf_bytes V b @ bytes"
        by (simp add: payload_def b')
      have "link_id (?m ! i) = of_nat i" using li i(1) by (simp add: link_list_inv_def)
      with link_ids_differ [OF li i(1) that] i(1) evp(3) evl(3) left pay e(2) show ?thesis
        by (simp add: link_stream_def upd_link_def leftover_def is_read_def)
    qed
    moreover have "log ?w' = log w \<and> handle_data ?w' = handle_data w \<and> length (client_map (link_list ?w')) = length ?m \<and>
        length (leftover V (client_map (link_list ?w') ! i)) \<le> length (buf_bytes V b) + length bytes"
      using i(1) by (simp add: upd_link_def leftover_def)
    ultimately show ?thesis by blast
  qed
qed

text \<open>A read with the buffer that \<^verbatim>\<open>on_recv_alloc_cb\<close> has handed out.\<close>

lemma recv_stream_step:
  assumes env: "env_ok E V" and bl: "buflen_laws E" and inv: "io_inv E V ne nb nc writes w"
    and rd: "reading (log w) h" and h: "handle_data w h = Some i"
    and alloc: "on_recv_alloc_cb E h w = Some (Some n, w1)"
    and bytes: "bytes \<noteq> []" "length bytes \<le> unat n"
      "length (leftover V (client_map (link_list w) ! i)) + length bytes < 2 ^ 32"
  shows "\<exists>w2. on_recv_cb E h (int (length bytes)) (Some bytes) w1 = Some w2 \<and> io_inv E V ne nb nc writes w2 \<and>
    (\<forall>j < length (client_map (link_list w)). link_stream V j w2 = link_stream V j w @ (if j = i then bytes else [])) \<and>
    log w2 = log w \<and> handle_data w2 = handle_data w \<and>
    length (client_map (link_list w2)) = length (client_map (link_list w)) \<and>
    length (leftover V (client_map (link_list w2) ! i)) \<le> length (leftover V (client_map (link_list w) ! i)) + length bytes"
proof -
  from recv_alloc_stream [OF env alloc h] obtain b where i: "i < length (client_map (link_list w1))"
    and b: "read_buffer (client_map (link_list w1) ! i) = Some b" and n: "n = TN_BUFLEN_CAST E (tn_buffer_remaining E b)"
    and str: "\<And>j. link_stream V j w1 = link_stream V j w" and evs: "events w1 = events w" by blast
  from on_recv_alloc_cb_inv [OF env inv rd] alloc have inv1: "io_inv E V ne nb nc writes w1" "log w1 = log w"
    "handle_data w1 = handle_data w" by auto
  have left: "leftover V (client_map (link_list w) ! i) = buf_bytes V b"
    using str [of i] evs b by (simp add: link_stream_def leftover_def)
  from rd inv1(2) have rd1: "reading (log w1) h" by simp
  from links_ok_reading [OF links_invD(3) [OF io_invD(1) [OF inv1(1)]] rd1] h inv1(3)
  have sv: "link_service (client_map (link_list w1) ! i)" by (auto simp: live_def)
  have "length bytes \<le> buf_room V b"
  proof -
    have "unat n \<le> unat (tn_buffer_remaining E b)" using bl unfolding buflen_laws_def n by blast
    also have "\<dots> = unat (of_nat (buf_room V b) :: u64)" using env_okD(2) [OF env] by (simp add: buffer_laws_def)
    also have "\<dots> \<le> buf_room V b" by (simp add: unsigned_of_nat)
    finally show ?thesis using bytes(2) by simp
  qed
  from on_recv_stream [OF env bl io_invD(2) [OF inv1(1)] links_invD(1) [OF io_invD(1) [OF inv1(1)]] _ i sv b bytes(1) this]
    h inv1(3) bytes(3) left obtain w2 where
    w2: "on_recv_cb E h (int (length bytes)) (Some bytes) w1 = Some w2"
    and res: "\<forall>j < length (client_map (link_list w1)). link_stream V j w2 = link_stream V j w1 @ (if j = i then bytes else [])"
    "log w2 = log w1" "handle_data w2 = handle_data w1" "length (client_map (link_list w2)) = length (client_map (link_list w1))"
    "length (leftover V (client_map (link_list w2) ! i)) \<le> length (buf_bytes V b) + length bytes" by auto
  have "\<exists>w'. on_recv_cb E h (int (length bytes)) (Some bytes) w1 = Some w' \<and> io_inv E V ne nb nc writes w'"
    by (rule on_recv_cb_inv [OF env inv1(1) rd1]) (use h inv1(3) b in auto)
  with w2 have "io_inv E V ne nb nc writes w2" by simp
  moreover have "length (client_map (link_list w1)) = length (client_map (link_list w))"
    using alloc by (auto simp: on_recv_alloc_cb_def Let_def upd_link_def split: option.splits prod.splits if_splits)
  ultimately show ?thesis using w2 res str inv1(2,3) left by auto
qed

text \<open>
  C7. Received bytes are neither lost nor reordered nor given to another client: when libuv reports
  bytes that fit into the buffer it was given, they are appended to what the main thread will be
  handed for that client, and nothing changes for the other clients.
\<close>

theorem received_bytes_appended:
  assumes "env_ok E V" and "buflen_laws E" and "reachable E V s" and "w = world_of s"
    and "reading (log w) h" and "handle_data w h = Some i" and "on_recv_alloc_cb E h w = Some (Some n, w1)"
    and "bytes \<noteq> []" and "length bytes \<le> unat n"
    and "length (leftover V (client_map (link_list w) ! i)) + length bytes < 2 ^ 32"
  shows "\<exists>w2. on_recv_cb E h (int (length bytes)) (Some bytes) w1 = Some w2 \<and>
    (\<forall>j < length (client_map (link_list w)). link_stream V j w2 = link_stream V j w @ (if j = i then bytes else []))"
  using recv_stream_step [OF assms(1,2) reachable_io_inv [OF assms(1,3), folded assms(4)] assms(5-10)] by blast

lemma ref_buflen: "buflen_laws ref_ext"
  by (simp add: buflen_laws_def ref_ext_def)

lemma ref_alloc: "\<exists>w1. on_recv_alloc_cb ref_ext 12 (world_of ref_connected) = Some (Some 65535, w1)"
  using ref_connected_link ref_connected_service by (simp add: on_recv_alloc_cb_def deref_link_def Let_def numeral_unfold)

theorem received_bytes_appended_witness:
  "\<exists>w1 w2. on_recv_alloc_cb ref_ext 12 (world_of ref_connected) = Some (Some 65535, w1) \<and>
     on_recv_cb ref_ext 12 2 (Some [7, 8]) w1 = Some w2 \<and>
     link_stream ref_view 0 w2 = link_stream ref_view 0 (world_of ref_connected) @ [7, 8]"
proof -
  from ref_alloc obtain w1 where w1: "on_recv_alloc_cb ref_ext 12 (world_of ref_connected) = Some (Some 65535, w1)" by blast
  from received_bytes_appended [OF ref_env ref_buflen ref_run_connected refl ref_connected_link(7,6) w1, of "[7, 8]"] w1
  show ?thesis by (auto simp: ref_connected_link leftover_def)
qed

section \<open>Commands on a link\<close>

text \<open>
  What a command finds: the identifier names a link, which is usable exactly if its state is open.
\<close>

lemma get_link:
  assumes "link_list_inv E V (link_list w)"
  shows "svl_link_list_get (link_list w) cid =
    (if unat cid < length (client_map (link_list w)) then (TN_SUCCESS, Some (unat cid)) else (TN_ERROR, None))"
  using assms by (auto simp: svl_link_list_get_def link_list_inv_def word_less_nat_alt word_le_nat_alt not_le)

lemma link_usable_iff:
  assumes env: "env_ok E V" and inv: "io_inv E V ne nb nc writes w" and i: "i < length (client_map (link_list w))"
  shows "link_unusable E (client_map (link_list w) ! i) w \<longleftrightarrow> link_state (client_map (link_list w) ! i) \<noteq> SVL_LINK_OPEN"
    and "link_state (client_map (link_list w) ! i) = SVL_LINK_OPEN \<Longrightarrow>
      \<exists>h. link_priv (client_map (link_list w) ! i) = Some h \<and> status (log w) h = Active"
proof -
  have h: "\<exists>h. link_priv (client_map (link_list w) ! i) = Some h \<and> status (log w) h = Active"
    if "link_state (client_map (link_list w) ! i) = SVL_LINK_OPEN"
    using links_ok_link [OF links_invD(3) [OF io_invD(1) [OF inv]] i] that by (auto simp: link_ok_def live_def split: if_splits)
  then show "link_state (client_map (link_list w) ! i) = SVL_LINK_OPEN \<Longrightarrow>
      \<exists>h. link_priv (client_map (link_list w) ! i) = Some h \<and> status (log w) h = Active" .
  show "link_unusable E (client_map (link_list w) ! i) w \<longleftrightarrow> link_state (client_map (link_list w) ! i) \<noteq> SVL_LINK_OPEN"
    using h uv_is_closing_status [OF env_okD(6) [OF env]] by (auto simp: link_unusable_def split: option.splits)
qed

text \<open>
  C14. A send command for an open link, with a write request free, calls uv_write exactly once, on
  the handle of that link and with the bytes of the message; the request remembers the link and the
  command if the call succeeds and is free again if it fails.  In every other case libuv is not
  called and no request is used.
\<close>

theorem send_command_writes_once:
  assumes "env_ok E V" and "reachable E V s" and "w = world_of s" and "i = unat (cmd_client_id c)"
    and "free = list_elems V (send_req_list (priv_data w))"
  shows "\<exists>w'. handle_cmd_send E c w = Some w' \<and>
    (if i < length (client_map (link_list w)) \<and> link_state (client_map (link_list w) ! i) = SVL_LINK_OPEN \<and> free \<noteq> []
     then \<exists>h r. link_priv (client_map (link_list w) ! i) = Some h \<and>
       log w' = (Uv_write (last free) h (take (unat (TN_BUFLEN_CAST E (cmd_len c))) (cmd_buffer c)), r) # log w \<and>
       (if r = TN_SUCCESS
        then list_elems V (send_req_list (priv_data w')) = butlast free \<and>
          wr_link (send_req (priv_data w') ! last free) = Some i \<and> wr_cmd_id (send_req (priv_data w') ! last free) = cmd_id c
        else list_elems V (send_req_list (priv_data w')) = free)
     else log w' = log w \<and> list_elems V (send_req_list (priv_data w')) = free)"
proof -
  note inv = reachable_io_inv [OF assms(1,2), folded assms(3)]
  note get = get_link [OF links_invD(1) [OF io_invD(1) [OF inv]], of "cmd_client_id c", folded assms(4)]
  let ?m = "client_map (link_list w)" and ?p = "priv_data w"
  show ?thesis
  proof (cases "i < length ?m \<and> link_state (?m ! i) = SVL_LINK_OPEN")
    case False
    with get link_usable_iff(1) [OF assms(1) inv] show ?thesis
      by (auto simp: handle_cmd_send_def deref_link_def assms(5))
  next
    case True
    then have i: "i < length ?m" and op: "link_state (?m ! i) = SVL_LINK_OPEN" by auto
    from link_usable_iff [OF assms(1) inv i] op obtain h where h: "link_priv (?m ! i) = Some h" "\<not> link_unusable E (?m ! i) w"
      by blast
    obtain r1 out l where pop: "tn_list_ptr_pop_back E (send_req_list ?p) None = (r1, out, l)"
      by (cases "tn_list_ptr_pop_back E (send_req_list ?p) None") auto
    note start = get i h pop
    show ?thesis
    proof (cases "free = []")
      case True
      with list_pop_empty_law [OF env_okD(1) [OF assms(1)] pop] start show ?thesis
        by (simp add: handle_cmd_send_def deref_link_def Let_def assms(5))
    next
      case False
      note law = list_pop_law [OF env_okD(1) [OF assms(1)] pop False [unfolded assms(5)], folded assms(5)]
      have q: "last free < length (send_req ?p)"
        using io_invD(5) [OF inv] False by (auto simp: reqs_ok_def slots_ok_def assms(5) [symmetric])
      let ?msg = "take (unat (TN_BUFLEN_CAST E (cmd_len c))) (cmd_buffer c)"
      let ?r = "uv_ret E (log w) (Uv_write (last free) h ?msg)"
      obtain r3 l3 where push: "tn_list_ptr_push_back E l (last free) = (r3, l3)" by fastforce
      have "length (list_elems V l) < list_cap V l"
      proof -
        have "length free \<le> list_cap V (send_req_list ?p)"
          using io_invD(5) [OF inv] slots_ok_length by (fastforce simp: reqs_ok_def assms(5) [symmetric])
        with law False show ?thesis by (cases free rule: rev_cases) auto
      qed
      with list_push_law [OF env_okD(1) [OF assms(1)] push] law False have "list_elems V l3 = free" by auto
      with law start q push show ?thesis
        using False op by (cases "?r = TN_SUCCESS") (simp_all add: handle_cmd_send_def deref_link_def Let_def)
    qed
  qed
qed

theorem send_command_writes_once_witness:
  "\<exists>w' r. handle_cmd_send ref_ext ((ref_cmd 0 TN_CMD_CLIENT_SEND)\<lparr>cmd_buffer := [1, 2, 3], cmd_len := 2\<rparr>) (world_of ref_connected) = Some w' \<and>
     log w' = (Uv_write 3 12 [1, 2], r) # log (world_of ref_connected)"
  using send_command_writes_once [OF ref_env ref_run_connected refl refl refl,
      of "(ref_cmd 0 TN_CMD_CLIENT_SEND)\<lparr>cmd_buffer := [1, 2, 3], cmd_len := 2\<rparr>"]
  by (auto simp: ref_connected_link ref_connected_service ref_cmd_def)

text \<open>
  C15. A close command for an open link calls uv_close once, with on_close_link_cb, and makes the link
  closing; the other links keep their state, and a further close command for that client does
  nothing.  A close command for any other client does nothing.
\<close>

theorem close_command_closes_once:
  assumes "env_ok E V" and "reachable E V s" and "w = world_of s" and "i = unat (cmd_client_id c)"
  shows "\<exists>w'. handle_cmd_close E c w = Some w' \<and>
    (if i < length (client_map (link_list w)) \<and> link_state (client_map (link_list w) ! i) = SVL_LINK_OPEN
     then (\<exists>h. link_priv (client_map (link_list w) ! i) = Some h \<and>
         log w' = (Uv_close h (Some On_close_link_cb), TN_SUCCESS) # log w) \<and>
       link_state (client_map (link_list w') ! i) = SVL_LINK_CLOSING \<and>
       cmd_close_id (client_map (link_list w') ! i) = cmd_id c \<and>
       (\<forall>j. j \<noteq> i \<longrightarrow> client_map (link_list w') ! j = client_map (link_list w) ! j) \<and>
       (\<forall>c'. cmd_client_id c' = cmd_client_id c \<longrightarrow> handle_cmd_close E c' w' = Some w')
     else w' = w)"
proof -
  note inv = reachable_io_inv [OF assms(1,2), folded assms(3)]
  note get = get_link [OF links_invD(1) [OF io_invD(1) [OF inv]], of "cmd_client_id c", folded assms(4)]
  let ?m = "client_map (link_list w)"
  show ?thesis
  proof (cases "i < length ?m \<and> link_state (?m ! i) = SVL_LINK_OPEN")
    case False
    with get link_usable_iff(1) [OF assms(1) inv] show ?thesis by (auto simp: handle_cmd_close_def deref_link_def)
  next
    case True
    with link_usable_iff [OF assms(1) inv, of i] obtain h where
      h: "link_priv (?m ! i) = Some h" "\<not> link_unusable E (?m ! i) w" by blast
    let ?w = "uv_close h (Some On_close_link_cb) (upd_link i (\<lambda>l. l\<lparr>cmd_close_id := cmd_id c, link_state := SVL_LINK_CLOSING\<rparr>) w)"
    have "handle_cmd_close E c w = Some ?w"
      using get h True by (simp add: handle_cmd_close_def deref_link_def)
    moreover have "handle_cmd_close E c' ?w = Some ?w" if "cmd_client_id c' = cmd_client_id c" for c'
    proof -
      have "svl_link_list_get (link_list ?w) (cmd_client_id c') = (TN_SUCCESS, Some i)"
        using get True that by (simp add: uv_close_def upd_link_def svl_link_list_get_def)
      then show ?thesis
        using True h(1) by (simp add: handle_cmd_close_def deref_link_def uv_close_def upd_link_def link_unusable_def)
    qed
    ultimately show ?thesis using True h(1) by (auto simp: uv_close_def upd_link_def)
  qed
qed

theorem close_command_closes_once_witness:
  "\<exists>w'. handle_cmd_close ref_ext (ref_cmd 5 TN_CMD_CLIENT_CLOSE) (world_of ref_connected) = Some w' \<and>
     log w' = (Uv_close 12 (Some On_close_link_cb), TN_SUCCESS) # log (world_of ref_connected) \<and>
     handle_cmd_close ref_ext (ref_cmd 6 TN_CMD_CLIENT_CLOSE) w' = Some w'"
  using close_command_closes_once [OF ref_env ref_run_connected refl refl, of "ref_cmd 5 TN_CMD_CLIENT_CLOSE"]
  by (auto simp: ref_connected_link ref_cmd_def)

section \<open>The end of a link\<close>

text \<open>
  C16. When the handle of a link is closed, the link is closed, its receive buffer is returned and the
  memory of the handle is released.  If an event is free, a close event with the identifier of the
  client and of the close command is queued and the link becomes free; if none is free, no event is
  queued and the link does not become free.
\<close>

theorem closed_link_reported:
  assumes "env_ok E V" and "reachable E V s" and "w = world_of s" and "status (log w) h = Closing (Some On_close_link_cb)"
  shows "\<exists>i w'. handle_data w h = Some i \<and> i < length (client_map (link_list w)) \<and> on_close_link_cb E h w = Some w' \<and>
    link_state (client_map (link_list w') ! i) = SVL_LINK_CLOSED \<and> read_buffer (client_map (link_list w') ! i) = None \<and>
    status (log w') h = Absent \<and>
    (if ev_free V (events w) = 0
     then ev_ready V (events w') = ev_ready V (events w) \<and> link_free V (link_list w') = link_free V (link_list w)
     else (\<exists>e. ev_ready V (events w') = ev_ready V (events w) @ [e] \<and> ev_type e = TN_EVENT_CLIENT_CLOSE \<and>
         ev_client_id e = of_nat i \<and> ev_cmd_id e = cmd_close_id (client_map (link_list w) ! i)) \<and>
       link_free V (link_list w') = link_free V (link_list w) @ [i])"
proof -
  note inv = reachable_io_inv [OF assms(1,2), folded assms(3)]
  from links_ok_closing [OF links_invD(3) [OF io_invD(1) [OF inv]] assms(4)] obtain i where
    i: "link_held V w SVL_LINK_CLOSING i" "link_live w i h" by blast
  let ?m = "client_map (link_list w)"
  let ?l = "(?m ! i)\<lparr>link_state := SVL_LINK_CLOSED, read_buffer := None\<rparr>"
  from i have il: "i < length ?m" "i \<notin> set (link_free V (link_list w))" and hd: "handle_data w h = Some i"
    and sv: "link_service (?m ! i)" by (simp_all add: held_def live_def)
  obtain r out l where pop: "tn_event_list_free_pop E TN_EVENT_CLIENT_CLOSE (events w) = (r, out, l)"
    by (cases "tn_event_list_free_pop E TN_EVENT_CLIENT_CLOSE (events w)") auto
  note law = event_pop_law [OF env_okD(4) [OF assms(1)] pop]
  note start = hd il held_deref [OF i(1)] sv pop
  show ?thesis
  proof (cases "r = TN_SUCCESS")
    case False
    with start law show ?thesis
      by (cases "read_buffer (?m ! i)") (simp_all add: on_close_link_cb_def Let_def upd_link_def release_mem_def)
  next
    case True
    with law(6) obtain e where e: "out = Some e" "ev_type e = TN_EVENT_CLIENT_CLOSE" by blast
    let ?e = "e\<lparr>ev_client_id := link_id (?m ! i), ev_error_code := TN_SUCCESS, ev_cmd_id := cmd_close_id (?m ! i)\<rparr>"
    obtain r2 l2 where push: "tn_event_list_ready_push E l ?e = (r2, l2)" by fastforce
    have "length (ev_ready V l) < ev_cap V l" using law True io_invD(2) [OF inv] by (simp add: events_ok_def)
    note law2 = event_ready_push_law [OF env_okD(4) [OF assms(1)] push this]
    note li = links_invD(1) [OF io_invD(1) [OF inv]]
    have list: "link_list_inv E V ((link_list w)\<lparr>client_map := ?m[i := ?l]\<rparr>)"
      using li by (rule link_list_inv_update) simp
    have id: "link_id (?m ! i) = of_nat i" using li il by (simp add: link_list_inv_def)
    have fr: "i < unat (clients_max ((link_list w)\<lparr>client_map := ?m[i := ?l]\<rparr>))"
      "i \<notin> set (link_free V ((link_list w)\<lparr>client_map := ?m[i := ?l]\<rparr>))"
      using il li by (simp_all add: link_list_inv_def)
    from close_result [OF list fr] obtain lf where
      cl: "svl_link_list_close E ((link_list w)\<lparr>client_map := ?m[i := ?l]\<rparr>) i =
        (TN_SUCCESS, (link_list w)\<lparr>client_map := ?m[i := ?l], client_list_free := lf\<rparr>)"
      and lf: "list_elems V lf = link_free V (link_list w) @ [i]" by auto
    have "(?m ! i)\<lparr>link_state := SVL_LINK_CLOSED\<rparr> = ?l" if "read_buffer (?m ! i) = None" using that by (simp add: drop_no_buffer)
    with True start e push law law2 cl lf id show ?thesis
      by (cases "read_buffer (?m ! i)") (simp_all add: on_close_link_cb_def Let_def upd_link_def release_mem_def)
  qed
qed

text \<open>A state in which a link is being closed, after a read has failed.\<close>

lemma ref_run_closing:
  "\<exists>s. reachable ref_ext ref_view s \<and> status (log (world_of s)) 12 = Closing (Some On_close_link_cb)"
proof -
  let ?answer = "\<lambda>room :: u64 option. (-1 :: int, None :: u8 list option)"
  let ?w = "world_of ref_connected"
  have ans: "read_result room (fst (?answer room)) (snd (?answer room))" for room
    by (cases room) (simp_all add: read_result_def)
  note inv = reachable_inv [OF ref_env ref_run_connected]
  from recv_step_inv [OF ref_env inv ref_connected_link(7) ans] obtain w where
    w: "recv_cbs ref_ext 12 ?answer ?w = Some w" by blast
  have "sys_step ref_ext ref_view ref_connected (ref_connected\<lparr>world_of := w\<rparr>)"
    using io_step.receive [OF ref_connected_link(7) ans w] by (simp add: sys_step_def)
  note r = run_step [OF ref_run_connected this]
  have "status (log ?w) 12 = Active"
    using link_usable_iff(2) [OF ref_env sys_invD(1) [OF inv], of 0] by (simp add: ref_connected_link)
  moreover from ref_alloc obtain w1 where w1: "on_recv_alloc_cb ref_ext 12 ?w = Some (Some 65535, w1)" by blast
  moreover have "log w1 = log ?w \<and> handle_data w1 = handle_data ?w \<and> deref_link w1 0 \<noteq> None"
    using on_recv_alloc_cb_inv [OF ref_env sys_invD(1) [OF inv] ref_connected_link(7)] w1
      recv_alloc_stream [OF ref_env w1 ref_connected_link(6)] by (auto simp: deref_link_def)
  ultimately have "status (log w) 12 = Closing (Some On_close_link_cb)"
    using w uv_is_closing_status [OF env_okD(6) [OF ref_env]]
    by (auto simp: recv_cbs_def on_recv_cb_def recv_cleanup_def Let_def uv_close_def ref_connected_link split: option.splits)
  with r show ?thesis by force
qed

theorem closed_link_reported_witness:
  "\<exists>s i w'. reachable ref_ext ref_view s \<and> handle_data (world_of s) 12 = Some i \<and>
     on_close_link_cb ref_ext 12 (world_of s) = Some w' \<and> link_state (client_map (link_list w') ! i) = SVL_LINK_CLOSED"
proof -
  from ref_run_closing obtain s where s: "reachable ref_ext ref_view s"
    "status (log (world_of s)) 12 = Closing (Some On_close_link_cb)" by blast
  from closed_link_reported [OF ref_env s(1) refl s(2)] s(1) show ?thesis by blast
qed

end
