(* ===== verification/Svl_Sessions.thy ===== *)
theory Svl_Sessions
  imports Svl_Delivery Svl_Traffic
begin

text \<open>
  What the main thread can rely on when it looks at the events of one client: they come in sessions.  A
  session starts with an open event, goes on with read events and ends with a close event.  The
  identifier of a client is the index of its link, so a later client may have the same identifier; its
  session starts after the close event of the earlier one.

  A connection that fails while it is being set up (in \<^verbatim>\<open>on_inbound_connection_cb\<close> or
  \<^verbatim>\<open>on_outbound_connection_cb\<close> of \<^verbatim>\<open>src/svlynx/service_internal.c\<close>) may report a close event without an
  open event: nothing else happens between sessions.
\<close>

section \<open>Sessions\<close>

datatype phase = Between | Within

fun hear :: "phase \<Rightarrow> tn_event_type_t \<Rightarrow> phase option" where
  "hear Between TN_EVENT_CLIENT_OPEN = Some Within"
| "hear Within TN_EVENT_CLIENT_READ = Some Within"
| "hear Within TN_EVENT_CLIENT_CLOSE = Some Between"
| "hear Between TN_EVENT_CLIENT_CLOSE = Some Between"
| "hear _ _ = None"

fun phases :: "phase \<Rightarrow> tn_event_type_t list \<Rightarrow> phase option" where
  "phases p [] = Some p"
| "phases p (t # ts) = (case hear p t of None \<Rightarrow> None | Some p \<Rightarrow> phases p ts)"

lemma phases_append: "phases p (ts @ us) = Option.bind (phases p ts) (\<lambda>p. phases p us)"
  by (induction p ts rule: phases.induct) (auto split: option.splits)

definition talk :: "u64 \<Rightarrow> 't tn_event list \<Rightarrow> tn_event_type_t list" where
  "talk cid es = map ev_type (filter (\<lambda>e. ev_client_id e = cid) es)"

lemma talk_simps [simp]: "talk cid [] = []" "talk cid (es @ es') = talk cid es @ talk cid es'"
  by (simp_all add: talk_def)

text \<open>
  The phases a link can be in, from its state: an open link is within a session, one that is free or
  waits for its connection is between two, and one that is closing may be either.
\<close>

definition phase_ok :: "'t view \<Rightarrow> ('t, 'x) world_scheme \<Rightarrow> nat \<Rightarrow> phase \<Rightarrow> bool" where
  "phase_ok V w i p \<longleftrightarrow>
     (if i \<in> set (link_free V (link_list w)) then p = Between
      else case link_state (client_map (link_list w) ! i) of
          SVL_LINK_OPEN \<Rightarrow> p = Within
        | SVL_LINK_NEW \<Rightarrow> p = Between
        | _ \<Rightarrow> True)"

text \<open>Every event is one of the three client events and names a link; a read event carries a buffer.\<close>

definition typed :: "nat \<Rightarrow> 't tn_event \<Rightarrow> bool" where
  "typed n e \<longleftrightarrow>
     ev_type e \<in> {TN_EVENT_CLIENT_OPEN, TN_EVENT_CLIENT_READ, TN_EVENT_CLIENT_CLOSE} \<and>
     (\<exists>i < n. ev_client_id e = of_nat i) \<and> (is_read e \<longrightarrow> ev_priv e \<noteq> None)"

text \<open>
  A step that appends the events \<open>es\<close> takes every link from a phase its state allows to a phase its
  new state allows.
\<close>

definition speaks :: "'t view \<Rightarrow> ('t, 'x) world_scheme \<Rightarrow> 't tn_event list \<Rightarrow> ('t, 'y) world_scheme \<Rightarrow> bool" where
  "speaks V w es w' \<longleftrightarrow>
     ev_ready V (events w') = ev_ready V (events w) @ es \<and>
     length (client_map (link_list w')) = length (client_map (link_list w)) \<and>
     (\<forall>e \<in> set es. typed (length (client_map (link_list w))) e) \<and>
     (\<forall>i < length (client_map (link_list w)). \<forall>p. phase_ok V w i p \<longrightarrow>
        (\<exists>p'. phases p (talk (of_nat i) es) = Some p' \<and> phase_ok V w' i p'))"

lemma speaks_trans:
  assumes "speaks V w es w1" and "speaks V w1 es' w2"
  shows "speaks V w (es @ es') w2"
  unfolding speaks_def
proof (intro conjI allI impI)
  fix i p assume i: "i < length (client_map (link_list w))" and p: "phase_ok V w i p"
  from assms(1) i p obtain p1 where p1: "phases p (talk (of_nat i) es) = Some p1" "phase_ok V w1 i p1"
    unfolding speaks_def by blast
  from assms i p1(2) obtain p2 where "phases p1 (talk (of_nat i) es') = Some p2" "phase_ok V w2 i p2"
    unfolding speaks_def by metis
  with p1(1) show "\<exists>p'. phases p (talk (of_nat i) (es @ es')) = Some p' \<and> phase_ok V w2 i p'"
    by (simp add: phases_append)
qed (use assms in \<open>auto simp: speaks_def\<close>)

lemma speaks_quiet: "speaks V w [] w1 \<Longrightarrow> speaks V w1 es w2 \<Longrightarrow> speaks V w es w2"
  using speaks_trans [of V w "[]" w1 es w2] by simp

text \<open>Silence: no event, and the phases a link may be in are not restricted further.\<close>

lemma speaks_silent:
  assumes "ev_ready V (events w') = ev_ready V (events w)"
    and "length (client_map (link_list w')) = length (client_map (link_list w))"
    and "\<And>i p. i < length (client_map (link_list w)) \<Longrightarrow> phase_ok V w i p \<Longrightarrow> phase_ok V w' i p"
  shows "speaks V w [] w'"
  using assms by (simp add: speaks_def)

lemma speaks_same: "link_list w' = link_list w \<Longrightarrow> events w' = events w \<Longrightarrow> speaks V w [] w'"
  by (intro speaks_silent) (simp_all add: phase_ok_def)

section \<open>Changing one link\<close>

text \<open>
  All links but \<open>i\<close> are as they were, \<open>i\<close> is in use and has kept its identifier, and \<open>es\<close> has been
  appended.
\<close>

definition touched :: "'t view \<Rightarrow> ('t, 'x) world_scheme \<Rightarrow> nat \<Rightarrow> 't tn_event list \<Rightarrow> ('t, 'y) world_scheme \<Rightarrow> bool" where
  "touched V w i es w' \<longleftrightarrow>
     i < length (client_map (link_list w)) \<and> link_id (client_map (link_list w') ! i) = of_nat i \<and>
     i \<notin> set (link_free V (link_list w')) \<and>
     length (client_map (link_list w')) = length (client_map (link_list w)) \<and>
     (\<forall>j. j \<noteq> i \<longrightarrow> (j \<in> set (link_free V (link_list w')) \<longleftrightarrow> j \<in> set (link_free V (link_list w))) \<and>
        link_state (client_map (link_list w') ! j) = link_state (client_map (link_list w) ! j) \<and>
        read_buffer (client_map (link_list w') ! j) = read_buffer (client_map (link_list w) ! j)) \<and>
     ev_ready V (events w') = ev_ready V (events w) @ es"

text \<open>The events a callback appends for one client; the identifiers of different links differ.\<close>

lemma talk_other:
  assumes "link_list_inv E V (link_list w)" and "i < length (client_map (link_list w))"
    and "j < length (client_map (link_list w))" and "\<forall>e \<in> set es. ev_client_id e = of_nat i"
  shows "talk (of_nat j) es = (if j = i then map ev_type es else [])"
proof -
  note id = link_ids_differ [OF assms(1-3)]
  have "filter (\<lambda>e. ev_client_id e = of_nat j) es = (if j = i then es else [])"
    using assms(4) id by (auto simp: filter_empty_conv filter_id_conv)
  then show ?thesis by (simp add: talk_def)
qed

text \<open>A change of one link, with the events it reports.\<close>

lemma one_link_speaks:
  assumes inv: "link_list_inv E V (link_list w)" and i: "i < length (client_map (link_list w))"
    and w': "length (client_map (link_list w')) = length (client_map (link_list w))"
      "\<And>j. j \<noteq> i \<Longrightarrow> link_state (client_map (link_list w') ! j) = link_state (client_map (link_list w) ! j)"
      "\<And>j. j \<noteq> i \<Longrightarrow> j \<in> set (link_free V (link_list w')) \<longleftrightarrow> j \<in> set (link_free V (link_list w))"
      "ev_ready V (events w') = ev_ready V (events w) @ es"
    and es: "\<forall>e \<in> set es. ev_client_id e = of_nat i \<and>
      ev_type e \<in> {TN_EVENT_CLIENT_OPEN, TN_EVENT_CLIENT_READ, TN_EVENT_CLIENT_CLOSE} \<and> (is_read e \<longrightarrow> ev_priv e \<noteq> None)"
    and phase: "\<And>p. phase_ok V w i p \<Longrightarrow> \<exists>p'. phases p (map ev_type es) = Some p' \<and> phase_ok V w' i p'"
  shows "speaks V w es w'"
  unfolding speaks_def
proof (intro conjI allI impI ballI)
  fix j p assume j: "j < length (client_map (link_list w))" and p: "phase_ok V w j p"
  have talk: "talk (of_nat j) es = (if j = i then map ev_type es else [])"
    by (rule talk_other [OF inv i j]) (use es in blast)
  show "\<exists>p'. phases p (talk (of_nat j) es) = Some p' \<and> phase_ok V w' j p'"
  proof (cases "j = i")
    case True
    with phase p talk show ?thesis by simp
  next
    case False
    with w' p have "phase_ok V w' j p" by (simp add: phase_ok_def)
    with False talk show ?thesis by simp
  qed
next
  fix e assume "e \<in> set es"
  with i es show "typed (length (client_map (link_list w))) e" by (auto simp: typed_def)
qed (use w' in auto)

lemma touched_speaks:
  assumes "link_list_inv E V (link_list w)" and "touched V w i es w'"
    and "\<forall>e \<in> set es. ev_client_id e = of_nat i \<and>
      ev_type e \<in> {TN_EVENT_CLIENT_OPEN, TN_EVENT_CLIENT_READ, TN_EVENT_CLIENT_CLOSE} \<and> (is_read e \<longrightarrow> ev_priv e \<noteq> None)"
    and "\<And>p. phase_ok V w i p \<Longrightarrow> \<exists>p'. phases p (map ev_type es) = Some p' \<and> phase_ok V w' i p'"
  shows "speaks V w es w'"
  using assms by (intro one_link_speaks [of E V w i w' es]) (auto simp: touched_def)

section \<open>The bytes of a session\<close>

text \<open>The bytes that the read events of a client carry, from its last open event on; \<open>acc\<close> are earlier ones.\<close>

fun heard :: "u64 \<Rightarrow> u8 list \<Rightarrow> 't tn_event list \<Rightarrow> u8 list" where
  "heard cid acc [] = acc"
| "heard cid acc (e # es) =
     heard cid (if ev_client_id e \<noteq> cid then acc
       else case ev_type e of TN_EVENT_CLIENT_OPEN \<Rightarrow> [] | TN_EVENT_CLIENT_READ \<Rightarrow> acc @ payload e | _ \<Rightarrow> acc) es"

lemma heard_append: "heard cid acc (es @ es') = heard cid (heard cid acc es) es'"
  by (induction cid acc es rule: heard.induct) simp_all

lemma heard_other: "\<forall>e \<in> set es. ev_client_id e \<noteq> cid \<Longrightarrow> heard cid acc es = acc"
  by (induction cid acc es rule: heard.induct) simp_all

lemma heard_reads:
  assumes "\<forall>e \<in> set es. is_read e"
  shows "heard cid acc es = acc @ concat (map payload (filter (\<lambda>e. is_read e \<and> ev_client_id e = cid) es))"
  using assms by (induction cid acc es rule: heard.induct) (auto simp: is_read_def)

definition opened :: "'t view \<Rightarrow> ('t, 'x) world_scheme \<Rightarrow> nat \<Rightarrow> bool" where
  "opened V w i \<longleftrightarrow>
     i \<notin> set (link_free V (link_list w)) \<and> link_state (client_map (link_list w) ! i) = SVL_LINK_OPEN"

definition dialing :: "'t view \<Rightarrow> ('t, 'x) world_scheme \<Rightarrow> nat \<Rightarrow> bool" where
  "dialing V w i \<longleftrightarrow>
     i \<notin> set (link_free V (link_list w)) \<and> link_state (client_map (link_list w) ! i) = SVL_LINK_NEW"

text \<open>
  \<open>rep\<close> are the bytes that libuv has reported for the link in its session, \<open>acc\<close> those that events
  carry: the difference is in the buffer of the link, which is empty while the link waits for its
  connection.
\<close>

definition data_ok :: "'t view \<Rightarrow> ('t, 'x) world_scheme \<Rightarrow> nat \<Rightarrow> u8 list \<Rightarrow> u8 list \<Rightarrow> bool" where
  "data_ok V w i acc rep \<longleftrightarrow>
     (if opened V w i then rep = acc @ leftover V (client_map (link_list w) ! i)
      else rep = [] \<and> (dialing V w i \<longrightarrow> leftover V (client_map (link_list w) ! i) = []))"

text \<open>A step in which libuv reports the bytes \<open>rb i\<close> for the link \<open>i\<close>.\<close>

definition carries ::
  "'t view \<Rightarrow> ('t, 'x) world_scheme \<Rightarrow> (nat \<Rightarrow> u8 list) \<Rightarrow> 't tn_event list \<Rightarrow> ('t, 'y) world_scheme \<Rightarrow> bool" where
  "carries V w rb es w' \<longleftrightarrow>
     (\<forall>i < length (client_map (link_list w)). \<forall>acc rep. data_ok V w i acc rep \<longrightarrow>
        data_ok V w' i (heard (of_nat i) acc es) (if opened V w' i then rep @ rb i else []))"

abbreviation tells :: "'t view \<Rightarrow> ('t, 'x) world_scheme \<Rightarrow> 't tn_event list \<Rightarrow> ('t, 'y) world_scheme \<Rightarrow> bool" where
  "tells V w es w' \<equiv> speaks V w es w' \<and> carries V w (\<lambda>_. []) es w'"

text \<open>A step that opens no link and moves no bytes.\<close>

definition rests :: "'t view \<Rightarrow> ('t, 'x) world_scheme \<Rightarrow> ('t, 'y) world_scheme \<Rightarrow> bool" where
  "rests V w w' \<longleftrightarrow>
     (\<forall>i < length (client_map (link_list w)).
        (opened V w' i \<longrightarrow> opened V w i \<and>
           leftover V (client_map (link_list w') ! i) = leftover V (client_map (link_list w) ! i)) \<and>
        (dialing V w' i \<longrightarrow> leftover V (client_map (link_list w') ! i) = [] \<or>
           dialing V w i \<and> leftover V (client_map (link_list w') ! i) = leftover V (client_map (link_list w) ! i)))"

lemma not_both: "dialing V w i \<Longrightarrow> \<not> opened V w i"
  by (simp add: dialing_def opened_def)

lemma rests_carries: "rests V w w' \<Longrightarrow> carries V w (\<lambda>_. []) [] w'"
  unfolding rests_def carries_def data_ok_def using not_both [of V w] by (simp split: if_splits) metis

lemma rests_trans:
  assumes "rests V w w1" and "rests V w1 w2" and "length (client_map (link_list w1)) = length (client_map (link_list w))"
  shows "rests V w w2"
  using assms unfolding rests_def by metis

lemma rests_same: "link_list w' = link_list w \<Longrightarrow> rests V w w'"
  by (simp add: rests_def opened_def dialing_def)

lemma tells_same: "link_list w' = link_list w \<Longrightarrow> events w' = events w \<Longrightarrow> tells V w [] w'"
  by (simp add: speaks_same rests_carries rests_same)

lemma one_link_carries:
  assumes inv: "link_list_inv E V (link_list w)" and i: "i < length (client_map (link_list w))"
    and w': "\<And>j. j \<noteq> i \<Longrightarrow> link_state (client_map (link_list w') ! j) = link_state (client_map (link_list w) ! j)"
      "\<And>j. j \<noteq> i \<Longrightarrow> read_buffer (client_map (link_list w') ! j) = read_buffer (client_map (link_list w) ! j)"
      "\<And>j. j \<noteq> i \<Longrightarrow> j \<in> set (link_free V (link_list w')) \<longleftrightarrow> j \<in> set (link_free V (link_list w))"
    and es: "\<forall>e \<in> set es. ev_client_id e = of_nat i"
    and own: "\<And>acc rep. data_ok V w i acc rep \<Longrightarrow> data_ok V w' i (heard (of_nat i) acc es) (if opened V w' i then rep else [])"
  shows "carries V w (\<lambda>_. []) es w'"
  unfolding carries_def
proof (intro allI impI)
  fix j acc rep assume j: "j < length (client_map (link_list w))" and d: "data_ok V w j acc rep"
  show "data_ok V w' j (heard (of_nat j) acc es) (if opened V w' j then rep @ [] else [])"
  proof (cases "j = i")
    case True
    with own d show ?thesis by simp
  next
    case False
    have "heard (of_nat j) acc es = acc"
      using es link_ids_differ [OF inv i j] False by (intro heard_other) auto
    moreover have "opened V w' j = opened V w j" "dialing V w' j = dialing V w j"
      "leftover V (client_map (link_list w') ! j) = leftover V (client_map (link_list w) ! j)"
      using w' False by (simp_all add: opened_def dialing_def leftover_def)
    ultimately show ?thesis using d by (simp add: data_ok_def split: if_splits)
  qed
qed

lemma touched_carries:
  assumes "link_list_inv E V (link_list w)" and "touched V w i es w'" and "\<forall>e \<in> set es. ev_client_id e = of_nat i"
    and "\<And>acc rep. data_ok V w i acc rep \<Longrightarrow> data_ok V w' i (heard (of_nat i) acc es) (if opened V w' i then rep else [])"
  shows "carries V w (\<lambda>_. []) es w'"
  using assms by (intro one_link_carries [of E V w i w' es]) (auto simp: touched_def)

text \<open>A step that leaves every open link open.\<close>

definition steady :: "'t view \<Rightarrow> ('t, 'x) world_scheme \<Rightarrow> ('t, 'y) world_scheme \<Rightarrow> bool" where
  "steady V w w' \<longleftrightarrow> (\<forall>i < length (client_map (link_list w)). opened V w i \<longrightarrow> opened V w' i)"

lemma steady_same: "link_list w' = link_list w \<Longrightarrow> steady V w w'"
  by (simp add: steady_def opened_def)

lemma touched_steady: "touched V w i es w' \<Longrightarrow> \<not> opened V w i \<Longrightarrow> steady V w w'"
  by (auto simp: steady_def touched_def opened_def)

text \<open>A link that ends up neither open nor waiting for its connection needs no care.\<close>

lemma data_ok_other: "\<not> opened V w' i \<Longrightarrow> \<not> dialing V w' i \<Longrightarrow> data_ok V w' i acc []"
  by (simp add: data_ok_def)

end
