(* ===== verification/Svl_Talk.thy ===== *)
theory Svl_Talk
  imports Svl_Sessions
begin

text \<open>
  What each callback and each command says to the main thread: the events it appends continue the
  session of the link it is about, and their bytes are those that libuv has reported.
\<close>

section \<open>Connections\<close>

text \<open>
  The local variables of a connection callback hold the link \<open>i\<close>, in state \<open>st\<close>; relative to the
  world \<open>w\<close> the callback started in, it has touched that link only, put nothing into its buffer and
  appended \<open>es\<close>.
\<close>

definition conn :: "'t view \<Rightarrow> 't world \<Rightarrow> nat \<Rightarrow> svl_link_state_t \<Rightarrow> 't tn_event list \<Rightarrow> 't frame \<Rightarrow> bool" where
  "conn V w i st es f \<longleftrightarrow>
     touched V w i es f \<and> link_ptr f = Some i \<and> client_handle f \<noteq> None \<and> link_state (client_map (link_list f) ! i) = st \<and>
     (read_buffer (client_map (link_list f) ! i) = None \<or>
        i \<notin> set (link_free V (link_list w)) \<and>
        read_buffer (client_map (link_list f) ! i) = read_buffer (client_map (link_list w) ! i))"

definition open_of :: "nat \<Rightarrow> 't tn_event \<Rightarrow> bool" where
  "open_of i e \<longleftrightarrow> ev_type e = TN_EVENT_CLIENT_OPEN \<and> ev_client_id e = of_nat i"

text \<open>What a connection callback has reported when it fails: nothing, or the open event.\<close>

definition conn_any :: "'t view \<Rightarrow> 't world \<Rightarrow> nat \<Rightarrow> svl_link_state_t \<Rightarrow> 't frame \<Rightarrow> bool" where
  "conn_any V w i st f \<longleftrightarrow> (\<exists>es. conn V w i st es f \<and> (es = [] \<or> (\<exists>e. open_of i e \<and> es = [e])))"

lemma conn_simps [simp]:
  "conn V w i st es (f\<lparr>log := lg\<rparr>) = conn V w i st es f" "conn V w i st es (f\<lparr>sock_addr := a\<rparr>) = conn V w i st es f"
  "conn V w i st es (f\<lparr>open_evt := e\<rparr>) = conn V w i st es f"
  by (simp_all add: conn_def touched_def)

lemma outcome_query:
  "outcome (conn V w i st es) (getpeername E) (conn V w i st es) (conn V w i st es)"
  "outcome (conn V w i st es) (getsockname E) (conn V w i st es) (conn V w i st es)"
  "outcome (conn V w i st es) (with_handle (\<lambda>h. uv_do E (c h))) (conn V w i st es) (conn V w i st es)"
  unfolding getpeername_def getsockname_def with_handle_def uv_do_def Let_def
  by (rule outcomeI, force split: option.splits)+

lemma outcome_convert: "outcome (conn V w i st es) (convert_remote E) (conn V w i st es) (conn V w i st es)"
proof (rule outcomeI)
  fix f r f' assume c: "conn V w i st es f" and run: "convert_remote E f = Some (r, f')"
  then obtain ep where f': "f' = upd_link i (\<lambda>l. l\<lparr>endpoint_remote := ep\<rparr>) f"
    by (auto simp: convert_remote_def with_link_def conn_def split: option.splits prod.splits if_splits)
  have "conn V w i st es f'" using c by (auto simp: f' conn_def touched_def upd_link_def)
  then show "if r = TN_SUCCESS then conn V w i st es f' else conn V w i st es f'" by simp
qed

lemma outcome_pop_evt:
  assumes "event_laws E V"
  shows "outcome (conn V w i st es) (pop_open_evt E) (conn V w i st es) (conn V w i st es)"
proof (rule outcomeI)
  fix f r f' assume c: "conn V w i st es f" and run: "pop_open_evt E f = Some (r, f')"
  obtain out l where "tn_event_list_free_pop E TN_EVENT_CLIENT_OPEN (events f) = (r, out, l)"
    and f': "f' = f\<lparr>events := l, open_evt := out\<rparr>"
    using run by (auto simp: pop_open_evt_def split: prod.splits)
  from event_pop_law(2) [OF assms this(1)] c have "conn V w i st es f'" by (simp add: f' conn_def touched_def)
  then show "if r = TN_SUCCESS then conn V w i st es f' else conn V w i st es f'" by simp
qed

lemma outcome_fill_evt:
  "outcome (conn V w i st es) (fill_open_evt ob) (\<lambda>f. conn V w i st es f \<and> (\<exists>e. open_evt f = Some e \<and> open_of i e)) R"
proof (rule outcomeI)
  fix f r f' assume c: "conn V w i st es f" and run: "fill_open_evt ob f = Some (r, f')"
  then obtain e where "r = TN_SUCCESS" "f' = f\<lparr>open_evt := Some e\<rparr>" "open_of i e"
    by (auto simp: fill_open_evt_def with_link_def Let_def conn_def touched_def open_of_def split: option.splits if_splits)
  with c show "if r = TN_SUCCESS then conn V w i st es f' \<and> (\<exists>e. open_evt f' = Some e \<and> open_of i e) else R f'"
    by simp
qed

lemma outcome_push_evt:
  assumes "event_laws E V"
  shows "outcome (\<lambda>f. conn V w i st [] f \<and> (\<exists>e. open_evt f = Some e \<and> open_of i e)) (push_open_evt E)
    (\<lambda>f. \<exists>e. open_of i e \<and> conn V w i st [e] f) (conn V w i st [])"
proof (rule outcomeI)
  fix f r f' assume c: "conn V w i st [] f \<and> (\<exists>e. open_evt f = Some e \<and> open_of i e)" and run: "push_open_evt E f = Some (r, f')"
  then obtain e l where e: "open_of i e" and push: "tn_event_list_ready_push E (events f) e = (r, l)" and f': "f' = f\<lparr>events := l\<rparr>"
    by (auto simp: push_open_evt_def split: prod.splits)
  from assms push have "ev_ready V l = (if r = TN_SUCCESS then ev_ready V (events f) @ [e] else ev_ready V (events f))"
    unfolding event_laws_def by metis
  with c have "conn V w i st (if r = TN_SUCCESS then [e] else []) f'" by (auto simp: f' conn_def touched_def)
  with e show "if r = TN_SUCCESS then \<exists>e. open_of i e \<and> conn V w i st [e] f' else conn V w i st [] f'" by auto
qed

lemma outcome_open_event:
  assumes "event_laws E V"
  shows "outcome (conn V w i st []) (guards (open_event_stmts E ob))
    (\<lambda>f. \<exists>e. open_of i e \<and> conn V w i st [e] f) (conn V w i st [])"
  unfolding open_event_stmts_def
  by (rule outcome_guards_Cons, rule outcome_query(1), rule outcome_guards_Cons, rule outcome_convert,
      rule outcome_guards_Cons, rule outcome_query(2), rule outcome_guards_Cons, rule outcome_convert,
      rule outcome_guards_Cons, rule outcome_pop_evt [OF assms], rule outcome_guards_Cons, rule outcome_fill_evt,
      rule outcome_guards_Cons, rule outcome_push_evt [OF assms], rule outcome_guards_Nil)

text \<open>A link that fails during its connection is closed, with or without an open event.\<close>

lemma conn_any_closing:
  assumes inv: "link_list_inv E V (link_list w)" and c: "conn_any V w i st f" and between: "\<And>p. phase_ok V w i p \<Longrightarrow> p = Between"
    and w': "link_list w' = link_list (upd_link i (\<lambda>l. l\<lparr>link_state := SVL_LINK_CLOSING\<rparr>) f)" "events w' = events f"
  shows "\<exists>es. tells V w es w' \<and> touched V w i es w'"
proof -
  from c obtain es where es: "conn V w i st es f" "es = [] \<or> (\<exists>e. open_of i e \<and> es = [e])" by (auto simp: conn_any_def)
  then have t: "touched V w i es w'" by (auto simp: conn_def touched_def w' upd_link_def)
  with es(1) have "phase_ok V w' i p" for p by (auto simp: phase_ok_def w' upd_link_def conn_def touched_def)
  moreover have "\<exists>p'. phases Between (map ev_type es) = Some p'" using es(2) by (auto simp: open_of_def)
  ultimately have "speaks V w es w'"
    using es(2) between by (intro touched_speaks [OF inv t]) (auto simp: open_of_def is_read_def)
  moreover have "\<not> opened V w' i" "\<not> dialing V w' i"
    using es(1) by (auto simp: opened_def dialing_def w' upd_link_def conn_def touched_def)
  then have "carries V w (\<lambda>_. []) es w'"
    using es(2) by (intro touched_carries [OF inv t]) (auto simp: open_of_def data_ok_def)
  ultimately show ?thesis using t by blast
qed

lemma between_cases:
  "i \<in> set (link_free V (link_list w)) \<or> dialing V w i \<Longrightarrow> phase_ok V w i p \<Longrightarrow> p = Between"
  by (auto simp: phase_ok_def dialing_def)

lemma conn_open_tells:
  assumes inv: "link_list_inv E V (link_list w)" and c: "conn V w i SVL_LINK_OPEN [e] f" "open_of i e"
    and st: "i \<in> set (link_free V (link_list w)) \<or> dialing V w i"
    and w': "link_list w' = link_list f" "events w' = events f"
  shows "\<exists>es. tells V w es w' \<and> touched V w i es w'"
proof -
  from c w' have t: "touched V w i [e] w'" by (simp add: conn_def touched_def)
  with c(1) w' have "phase_ok V w' i Within" by (simp add: phase_ok_def conn_def touched_def)
  moreover have "phases p (map ev_type [e]) = Some Within" if "phase_ok V w i p" for p
    using between_cases [OF st that] c(2) by (simp add: open_of_def)
  ultimately have "speaks V w [e] w'" using c(2) by (intro touched_speaks [OF inv t]) (auto simp: open_of_def is_read_def)
  moreover have "carries V w (\<lambda>_. []) [e] w'"
  proof (rule touched_carries [OF inv t])
    fix acc rep assume "data_ok V w i acc rep"
    with st have d: "rep = []" "dialing V w i \<Longrightarrow> leftover V (client_map (link_list w) ! i) = []"
      by (auto simp: data_ok_def opened_def dialing_def)
    from c(1) w' st d(2) have "leftover V (client_map (link_list w') ! i) = []"
      by (auto simp: conn_def leftover_def)
    with d c w' show "data_ok V w' i (heard (of_nat i) acc [e]) (if opened V w' i then rep else [])"
      by (simp add: data_ok_def open_of_def opened_def dialing_def conn_def touched_def)
  qed (use c(2) in \<open>simp add: open_of_def\<close>)
  ultimately show ?thesis using t by blast
qed

subsection \<open>Inbound\<close>

text \<open>Before a link has been taken off the free list, nothing the sessions depend on has changed.\<close>

definition fresh_conn :: "'t view \<Rightarrow> 't world \<Rightarrow> 't frame \<Rightarrow> bool" where
  "fresh_conn V w f \<longleftrightarrow> link_list f = link_list w \<and> events f = events w \<and> link_ptr f = None"

definition no_conn :: "'t view \<Rightarrow> 't world \<Rightarrow> 't frame \<Rightarrow> bool" where
  "no_conn V w f \<longleftrightarrow>
     client_map (link_list f) = client_map (link_list w) \<and> link_free V (link_list f) = link_free V (link_list w) \<and>
     events f = events w \<and> link_ptr f = None"

definition no_change :: "'t view \<Rightarrow> ('t, 'x) world_scheme \<Rightarrow> ('t, 'y) world_scheme \<Rightarrow> bool" where
  "no_change V w w' \<longleftrightarrow>
     client_map (link_list w') = client_map (link_list w) \<and> link_free V (link_list w') = link_free V (link_list w) \<and>
     events w' = events w"

lemma no_change_rests: "no_change V w w' \<Longrightarrow> rests V w w'"
  by (simp add: no_change_def rests_def opened_def dialing_def)

lemma no_change_tells: "no_change V w w' \<Longrightarrow> tells V w [] w'"
  using speaks_silent [of V w' w] by (simp add: no_change_rests rests_carries) (simp add: no_change_def phase_ok_def)

lemma no_change_steady: "no_change V w w' \<Longrightarrow> steady V w w'"
  by (simp add: no_change_def steady_def opened_def)

lemma fresh_no_conn: "fresh_conn V w f \<Longrightarrow> no_conn V w f"
  by (simp add: fresh_conn_def no_conn_def)

lemma outcome_fresh:
  "outcome (fresh_conn V w) (acquire E b n (\<lambda>p f. f\<lparr>client_handle := p\<rparr>)) (fresh_conn V w) (no_conn V w)"
  "outcome (fresh_conn V w) (acquire E b n (\<lambda>p f. f\<lparr>connect_req := p\<rparr>)) (fresh_conn V w) (no_conn V w)"
  "outcome (fresh_conn V w) (with_handle (\<lambda>h. uv_do E (c h))) (fresh_conn V w) (no_conn V w)"
  "outcome (fresh_conn V w) (assign (\<lambda>f. f\<lparr>handle_is_init := True\<rparr>)) (fresh_conn V w) (no_conn V w)"
  by (rule outcomeI; force simp: acquire_def with_handle_def uv_do_def assign_def Let_def fresh_conn_def no_conn_def
      split: option.splits)+

text \<open>Taking a link off the free list: the last one, if there is one.\<close>

lemma open_link_result:
  assumes inv: "link_list_inv E V (link_list w)" and f: "fresh_conn V w f" and run: "open_link E f = Some (r, f')"
  shows "if r = TN_SUCCESS
    then \<exists>i. i \<in> set (link_free V (link_list w)) \<and> touched V w i [] f' \<and> link_ptr f' = Some i \<and>
      client_handle f' = client_handle f \<and> connect_req f' = connect_req f
    else no_conn V w f'"
proof (cases "link_free V (link_list w) = []")
  case True
  from open_empty [OF inv True, of None] f run show ?thesis
    by (auto simp: open_link_def fresh_conn_def no_conn_def True)
next
  case False
  let ?i = "last (link_free V (link_list w))"
  have free: "?i \<in> set (link_free V (link_list w))" "distinct (link_free V (link_list w))"
    "?i < length (client_map (link_list w))" "link_id (client_map (link_list w) ! ?i) = of_nat ?i"
    using inv last_in_set [OF False] by (auto simp: link_list_inv_def)
  from open_nonempty [OF inv False, of None] f run obtain lf where
    f': "r = TN_SUCCESS" "f' = f\<lparr>link_ptr := Some ?i, link_list := (link_list w)
        \<lparr>client_map := (client_map (link_list w))[?i := (client_map (link_list w) ! ?i)
           \<lparr>cmd_open_id := TN_CMD_INVALID E, cmd_close_id := TN_CMD_INVALID E\<rparr>], client_list_free := lf\<rparr>\<rparr>"
    and lf: "list_elems V lf = butlast (link_free V (link_list w))"
    by (auto simp: open_link_def fresh_conn_def)
  have "set (link_free V (link_list w)) = insert ?i (set (list_elems V lf))" using lf set_butlast_last [OF False] by simp
  moreover have "?i \<notin> set (list_elems V lf)" using lf distinct_last_butlast [OF free(2) False] by simp
  ultimately have "touched V w ?i [] f'" using free f by (auto simp: touched_def f' fresh_conn_def)
  with free(1) show ?thesis by (auto simp: f')
qed

lemma outcome_attach_inbound:
  assumes "link_list_inv E V (link_list w)"
  shows "outcome (fresh_conn V w) (guards (attach_inbound_stmts E))
    (\<lambda>f. \<exists>i. i \<in> set (link_free V (link_list w)) \<and> conn V w i SVL_LINK_OPEN [] f) (no_conn V w)"
proof (rule outcomeI)
  fix f r f' assume f: "fresh_conn V w f" and run: "guards (attach_inbound_stmts E) f = Some (r, f')"
  then obtain r1 f1 where o: "open_link E f = Some (r1, f1)" by (auto simp: attach_inbound_stmts_def split: option.splits)
  note res = open_link_result [OF assms f o]
  show "if r = TN_SUCCESS then \<exists>i. i \<in> set (link_free V (link_list w)) \<and> conn V w i SVL_LINK_OPEN [] f' else no_conn V w f'"
  proof (cases "r1 = TN_SUCCESS")
    case False
    with run o have "r = r1" "f' = f1" by (simp_all add: attach_inbound_stmts_def)
    with False res show ?thesis by simp
  next
    case True
    with res obtain i where i: "i \<in> set (link_free V (link_list w))" "touched V w i [] f1" "link_ptr f1 = Some i" by auto
    from run o True obtain h where h: "client_handle f1 = Some h"
      by (auto simp: attach_inbound_stmts_def set_handle_data_def with_handle_def split: option.splits)
    let ?g = "\<lambda>l. l\<lparr>link_priv := Some h, link_service := True, read_state := SVL_LINK_READ_HEADER,
             link_state := SVL_LINK_OPEN, error_code := TN_SUCCESS, read_buffer := None, last_msg_id := 0\<rparr>"
    have "i < length (client_map (link_list f1))" using i(2) by (simp add: touched_def)
    with run o True i(3) h have "r = TN_SUCCESS" "f' = upd_link i ?g (f1\<lparr>handle_data := (handle_data f1)(h := Some i)\<rparr>)"
      by (auto simp: attach_inbound_stmts_def set_handle_data_def init_inbound_link_def with_handle_def with_link_def
          deref_link_def)
    moreover from this(2) have "conn V w i SVL_LINK_OPEN [] f'"
      using i(2,3) h by (auto simp: conn_def touched_def upd_link_def)
    ultimately show ?thesis using i(1) by auto
  qed
qed

lemma free_between: "i \<in> set (link_free V (link_list w)) \<Longrightarrow> phase_ok V w i p \<Longrightarrow> p = Between"
  by (simp add: phase_ok_def)

definition inbound_ends :: "'t view \<Rightarrow> 't world \<Rightarrow> 't frame \<Rightarrow> bool" where
  "inbound_ends V w f \<longleftrightarrow>
     no_conn V w f \<or> (\<exists>i. i \<in> set (link_free V (link_list w)) \<and> conn_any V w i SVL_LINK_OPEN f)"

lemma outcome_inbound:
  assumes ev: "event_laws E V" and inv: "link_list_inv E V (link_list w)"
  shows "outcome (fresh_conn V w) (guards (inbound_stmts E))
    (\<lambda>f. \<exists>i e. i \<in> set (link_free V (link_list w)) \<and> open_of i e \<and> conn V w i SVL_LINK_OPEN [e] f) (inbound_ends V w)"
proof -
  let ?F = "fresh_conn V w" and ?R = "inbound_ends V w" and ?free = "set (link_free V (link_list w))"
  let ?L = "\<lambda>f. \<exists>i. i \<in> ?free \<and> conn V w i SVL_LINK_OPEN [] f"
  let ?D = "\<lambda>f. \<exists>i e. i \<in> ?free \<and> open_of i e \<and> conn V w i SVL_LINK_OPEN [e] f"
  have R: "no_conn V w f \<Longrightarrow> ?R f" "i \<in> ?free \<Longrightarrow> conn V w i SVL_LINK_OPEN [] f \<Longrightarrow> ?R f"
    "i \<in> ?free \<Longrightarrow> open_of i e \<Longrightarrow> conn V w i SVL_LINK_OPEN [e] f \<Longrightarrow> ?R f" for f i e
    by (auto simp: inbound_ends_def conn_any_def)
  have 1: "outcome ?F p ?F ?R" if "outcome ?F p ?F (no_conn V w)" for p
    by (rule outcome_weaken [OF that]) (use R in auto)
  have 2: "outcome ?F (guards (attach_inbound_stmts E)) ?L ?R"
    by (rule outcome_weaken [OF outcome_attach_inbound [OF inv]]) (use R in auto)
  have 3: "outcome ?L (guards (open_event_stmts E False)) ?D ?R"
    by (rule outcome_ex, rule outcome_fact, rule outcome_weaken [OF outcome_open_event [OF ev]]) (use R in auto)
  have 4: "outcome ?D (with_handle (\<lambda>h. uv_do E (Uv_read_start h))) ?D ?R"
    by (rule outcome_ex, rule outcome_ex, rule outcome_fact, rule outcome_fact, rule outcome_weaken [OF outcome_query(3)])
      (use R in auto)
  show ?thesis
    unfolding inbound_stmts_parts
    by (rule outcome_guards_append, rule outcome_guards, (simp only: set_simps insert_iff empty_iff, elim disjE; simp only:),
        (rule 1, rule outcome_fresh)+, simp, rule outcome_guards_append, rule 2, rule outcome_guards_append, rule 3,
        rule outcome_guards_Cons, rule 4, rule outcome_guards_Nil, blast)
qed

lemma link_list_leave [simp]: "link_list (leave f) = link_list f"
  by (simp add: leave_def world.defs)

lemma enter_fresh: "fresh_conn V w (enter None None None w)"
  by (simp add: fresh_conn_def)

lemma on_inbound_tells:
  assumes env: "env_ok E V" and inv: "link_list_inv E V (link_list w)" and run: "on_inbound_connection_cb E st w = Some w'"
  shows "\<exists>es. tells V w es w' \<and> steady V w w'"
proof (cases "st = TN_SUCCESS")
  case False
  with run have "w' = w" by (simp add: on_inbound_connection_cb_def)
  then show ?thesis using tells_same [of w' w V] steady_same [of w' w V] by blast
next
  case True
  with run obtain r f where g: "guards (inbound_stmts E) (enter None None None w) = Some (r, f)"
    and w': "w' = leave (if r = TN_SUCCESS then f else inbound_cleanup f)"
    by (auto simp: on_inbound_connection_cb_def split: if_splits option.splits)
  note res = outcomeD [OF outcome_inbound [OF env_okD(4) [OF env] inv] enter_fresh g]
  show ?thesis
  proof (cases "r = TN_SUCCESS")
    case True
    with res obtain i e where i: "i \<in> set (link_free V (link_list w))" "open_of i e" "conn V w i SVL_LINK_OPEN [e] f" by auto
    have "\<not> opened V w i" using i(1) by (simp add: opened_def)
    moreover have "\<exists>es. tells V w es w' \<and> touched V w i es w'"
      by (rule conn_open_tells [OF inv i(3,2)]) (use i(1) in \<open>simp_all add: w' True\<close>)
    ultimately show ?thesis using touched_steady by blast
  next
    case False
    with res consider "no_conn V w f" | i where "i \<in> set (link_free V (link_list w))" "conn_any V w i SVL_LINK_OPEN f"
      by (auto simp: inbound_ends_def)
    then show ?thesis
    proof cases
      case 1
      with False w' have "no_change V w w'"
        by (auto simp: no_conn_def no_change_def inbound_cleanup_def split: option.splits)
      then show ?thesis using no_change_tells no_change_steady by blast
    next
      case 2
      then obtain h where "client_handle f = Some h" "link_ptr f = Some i" by (auto simp: conn_any_def conn_def)
      with False w' have "\<exists>es. tells V w es w' \<and> touched V w i es w'"
        by (intro conn_any_closing [OF inv 2(2) free_between [OF 2(1)]]) (simp_all add: inbound_cleanup_def)
      moreover have "\<not> opened V w i" using 2(1) by (simp add: opened_def)
      ultimately show ?thesis using touched_steady by blast
    qed
  qed
qed

subsection \<open>Outbound\<close>

lemma held_touched:
  assumes "link_list_inv E V (link_list w)" and "link_held V w st i" and "link_list w' = link_list w"
    and "ev_ready V (events w') = ev_ready V (events w)"
  shows "touched V w i [] w'"
  using assms by (auto simp: touched_def held_def link_list_inv_def)

lemma on_outbound_tells:
  assumes env: "env_ok E V" and inv: "io_inv E V ne nb nc writes w" and q: "pending (log w) q = Some h"
    and run: "on_outbound_connection_cb E q h st w = Some w'"
  shows "\<exists>es. tells V w es w' \<and> steady V w w'"
proof -
  note list = links_invD(1) [OF io_invD(1) [OF inv]] and ok = links_invD(3) [OF io_invD(1) [OF inv]]
  from links_ok_pending [OF ok q] obtain i where i: "link_held V w SVL_LINK_NEW i" "req_data w q = Some i" by blast
  let ?f0 = "enter (Some h) (Some q) (Some i) w"
  from run i held_deref [OF i(1)] obtain r f where g: "guards (outbound_stmts E) ?f0 = Some (r, f)"
    and w': "w' = (if r = TN_SUCCESS then release_mem (Some q) (leave f)
        else uv_close h (Some On_close_link_cb) (upd_link i (\<lambda>l. l\<lparr>link_state := SVL_LINK_CLOSING\<rparr>)
               (release_mem (Some q) (leave f))))"
    by (auto simp: on_outbound_connection_cb_def split: if_splits option.splits)
  let ?C = "conn V w i SVL_LINK_NEW []" and ?R = "\<lambda>f. \<exists>st. conn_any V w i st f"
  let ?D = "\<lambda>st f. \<exists>e. open_of i e \<and> conn V w i st [e] f"
  have between: "p = Between" if "phase_ok V w i p" for p using that i(1) by (simp add: phase_ok_def held_def)
  have closed: "\<not> opened V w i" using i(1) by (simp add: opened_def held_def)
  have R: "?C f \<Longrightarrow> ?R f" "open_of i e \<Longrightarrow> conn V w i st [e] f \<Longrightarrow> ?R f" for f e st
    by (auto simp: conn_any_def)
  have start: "?C ?f0" using held_touched [OF list i(1), of ?f0] i(1) by (simp add: conn_def held_def)
  have 1: "outcome ?C (guards (open_event_stmts E True)) (?D SVL_LINK_NEW) ?R"
    by (rule outcome_weaken [OF outcome_open_event [OF env_okD(4) [OF env]]]) (use R in auto)
  have 2: "outcome (?D SVL_LINK_NEW) (with_link (\<lambda>i f. Some (TN_SUCCESS, upd_link i (\<lambda>l. l\<lparr>link_state := SVL_LINK_OPEN\<rparr>) f)))
      (?D SVL_LINK_OPEN) ?R"
    by (rule outcomeI) (auto simp: with_link_def conn_def touched_def upd_link_def split: if_splits)
  have 3: "outcome (?D SVL_LINK_OPEN) (with_handle (\<lambda>h. uv_do E (Uv_read_start h))) (?D SVL_LINK_OPEN) ?R"
    by (rule outcome_ex, rule outcome_fact, rule outcome_weaken [OF outcome_query(3)]) (use R in auto)
  have "outcome ?C (guards (outbound_stmts E)) (?D SVL_LINK_OPEN) ?R"
    unfolding outbound_stmts_parts
    by (rule outcome_guards_append, rule 1, rule outcome_guards_Cons, rule 2, rule outcome_guards_Cons, rule 3,
        rule outcome_guards_Nil)
  note res = outcomeD [OF this start g]
  show ?thesis
  proof (cases "r = TN_SUCCESS")
    case True
    with res obtain e where e: "open_of i e" "conn V w i SVL_LINK_OPEN [e] f" by auto
    have "\<exists>es. tells V w es w' \<and> touched V w i es w'"
      by (rule conn_open_tells [OF list e(2,1)]) (use i(1) in \<open>simp_all add: w' True dialing_def held_def\<close>)
    with closed show ?thesis using touched_steady by blast
  next
    case False
    with res obtain st where c: "conn_any V w i st f" by auto
    have "\<exists>es. tells V w es w' \<and> touched V w i es w'"
      by (rule conn_any_closing [OF list c between]) (simp_all add: w' False upd_link_def)
    with closed show ?thesis using touched_steady by blast
  qed
qed

section \<open>Reading and closing\<close>

text \<open>A close callback: the link has been closing, so both phases are possible and both end.\<close>

lemma on_close_link_tells:
  assumes env: "env_ok E V" and inv: "io_inv E V ne nb nc writes w"
    and h: "status (log w) h = Closing (Some On_close_link_cb)" and run: "on_close_link_cb E h w = Some w'"
  shows "\<exists>es. tells V w es w' \<and> steady V w w'"
proof -
  note list = links_invD(1) [OF io_invD(1) [OF inv]]
  from links_ok_closing [OF links_invD(3) [OF io_invD(1) [OF inv]] h] obtain i where
    i: "link_held V w SVL_LINK_CLOSING i" "link_live w i h" by blast
  let ?m = "client_map (link_list w)"
  have il: "i < length ?m" "i \<notin> set (link_free V (link_list w))" "link_id (?m ! i) = of_nat i"
    using i(1) list by (auto simp: held_def link_list_inv_def)
  have il': "i < unat (clients_max (link_list w))" using il(1) list by (simp add: link_list_inv_def)
  let ?g = "\<lambda>l. l\<lparr>link_state := SVL_LINK_CLOSED, read_buffer := None\<rparr>"
  obtain r out l where pop: "tn_event_list_free_pop E TN_EVENT_CLIENT_CLOSE (events w) = (r, out, l)"
    by (cases "tn_event_list_free_pop E TN_EVENT_CLIENT_CLOSE (events w)") auto
  note law = event_pop_law [OF env_okD(4) [OF env] pop]
  note evl = events_ok_pop [OF env_okD(4) [OF env] pop io_invD(2) [OF inv]]
  show ?thesis
  proof (cases "r = TN_SUCCESS")
    case False
    from run i il held_deref [OF i(1)] pop False
    have links: "client_map (link_list w') = ?m[i := ?g (?m ! i)] \<and> link_free V (link_list w') = link_free V (link_list w) \<and> events w' = l"
      by (cases "read_buffer (?m ! i)")
        (auto simp: on_close_link_cb_def Let_def live_def upd_link_def drop_no_buffer release_mem_def)
    then have "tells V w [] w'"
      using law(2) il one_link_speaks [OF list il(1), of w' "[]"] one_link_carries [OF list il(1), of w' "[]"]
      by (auto simp: phase_ok_def data_ok_def opened_def dialing_def)
    moreover have "steady V w w'" using links il i(1) by (auto simp: steady_def opened_def held_def nth_list_update)
    ultimately show ?thesis by blast
  next
    case True
    with evl obtain e where e: "out = Some e" "ev_type e = TN_EVENT_CLIENT_CLOSE" and ev': "events_ok V (Suc ne) l" by blast
    let ?e = "e\<lparr>ev_client_id := link_id (?m ! i), ev_error_code := TN_SUCCESS, ev_cmd_id := cmd_close_id (?m ! i)\<rparr>"
    obtain r2 l2 where push: "tn_event_list_ready_push E l ?e = (r2, l2)" by fastforce
    have nr: "\<not> is_read ?e" using e by (simp add: is_read_def)
    note evp = events_ok_push [OF env_okD(4) [OF env] push ev']
    let ?list = "(link_list w)\<lparr>client_map := ?m[i := ?g (?m ! i)]\<rparr>"
    have "link_list_inv E V ?list" using list by (rule link_list_inv_update) simp
    from close_result [OF this, of i] il il' obtain lf where
      cl: "svl_link_list_close E ?list i = (TN_SUCCESS, ?list\<lparr>client_list_free := lf\<rparr>)"
      and lf: "list_elems V lf = link_free V (link_list w) @ [i]" by auto
    from run i il held_deref [OF i(1)] pop True e push cl
    have links: "link_list w' = ?list\<lparr>client_list_free := lf\<rparr> \<and> events w' = l2"
      by (cases "read_buffer (?m ! i)")
        (auto simp: on_close_link_cb_def Let_def live_def upd_link_def drop_no_buffer release_mem_def)
    then have st: "steady V w w'" using lf il i(1) by (auto simp: steady_def opened_def held_def nth_list_update)
    have p': "\<exists>p'. phases p (map ev_type [?e]) = Some p' \<and> p' = Between" for p
      using e(2) by (cases p) simp_all
    from links p' have "speaks V w [?e] w'" and "carries V w (\<lambda>_. []) [?e] w'"
      using evp(3) nr law(2) il lf e(2)
      by (intro one_link_speaks [OF list il(1)] one_link_carries [OF list il(1)];
          auto simp: phase_ok_def data_ok_def opened_def dialing_def)+
    with st show ?thesis by blast
  qed
qed

text \<open>A read: the link is open, so it is within a session; the bytes are reported, or not, or the link is closed.\<close>

lemma on_recv_alloc_links:
  assumes "on_recv_alloc_cb E h w = Some (room, w')"
  shows "events w' = events w" and "link_free V (link_list w') = link_free V (link_list w)"
    and "map link_state (client_map (link_list w')) = map link_state (client_map (link_list w))"
  using assms
  by (auto simp: on_recv_alloc_cb_def Let_def upd_link_def deref_link_def map_update list_update_same_conv
      split: option.splits prod.splits if_splits)

lemma same_states:
  assumes "map link_state m' = map link_state m"
  shows "length m' = length m" and "i < length m \<Longrightarrow> link_state (m' ! i) = link_state (m ! i)"
  using assms by (metis length_map) (metis assms length_map nth_map)

lemma on_recv_alloc_speaks:
  assumes "on_recv_alloc_cb E h w = Some (room, w')"
  shows "speaks V w [] w'"
  using on_recv_alloc_links(1) [OF assms] on_recv_alloc_links(2) [OF assms, of V] same_states [OF on_recv_alloc_links(3) [OF assms]]
  by (intro speaks_silent) (simp_all add: phase_ok_def)

lemma on_recv_alloc_leftover:
  assumes "env_ok E V" and "on_recv_alloc_cb E h w = Some (room, w')"
  shows "leftover V (client_map (link_list w') ! j) = leftover V (client_map (link_list w) ! j)"
proof -
  obtain r out p where pop: "tn_buffer_pool_pop_back E (pool_read w) None = (r, out, p)"
    by (cases "tn_buffer_pool_pop_back E (pool_read w) None") auto
  from pool_pop_law(4,5) [OF env_okD(3) [OF assms(1)] pop] have "case out of None \<Rightarrow> True | Some b \<Rightarrow> buf_bytes V b = []"
    by (cases "r = TN_SUCCESS") auto
  with assms(2) pop show ?thesis
    by (auto simp: on_recv_alloc_cb_def Let_def upd_link_def deref_link_def leftover_def nth_list_update
        split: option.splits if_splits)
qed

lemma on_recv_alloc_rests:
  assumes "env_ok E V" and "on_recv_alloc_cb E h w = Some (room, w')"
  shows "rests V w w'"
  using on_recv_alloc_links(2) [OF assms(2), of V] same_states [OF on_recv_alloc_links(3) [OF assms(2)]]
    on_recv_alloc_leftover [OF assms]
  by (simp add: rests_def opened_def dialing_def)

lemma recv_cleanup_links:
  "client_map (link_list (recv_cleanup E h i ret cl w)) =
     (if i < length (client_map (link_list w))
      then (client_map (link_list w))[i := (client_map (link_list w) ! i)\<lparr>error_code := ret,
          link_state := if cl \<and> \<not> uv_is_closing E (log w) h then SVL_LINK_CLOSING else link_state (client_map (link_list w) ! i)\<rparr>]
      else client_map (link_list w))"
  "link_free V (link_list (recv_cleanup E h i ret cl w)) = link_free V (link_list w)"
proof -
  have "l\<lparr>error_code := ret\<rparr> = l\<lparr>error_code := ret, link_state := link_state l\<rparr>" for l :: "'a svl_link" by simp
  then show "client_map (link_list (recv_cleanup E h i ret cl w)) =
     (if i < length (client_map (link_list w))
      then (client_map (link_list w))[i := (client_map (link_list w) ! i)\<lparr>error_code := ret,
          link_state := if cl \<and> \<not> uv_is_closing E (log w) h then SVL_LINK_CLOSING else link_state (client_map (link_list w) ! i)\<rparr>]
      else client_map (link_list w))"
    by (auto simp: recv_cleanup_def Let_def upd_link_def uv_close_def not_less list_update_beyond)
qed (simp add: recv_cleanup_def Let_def upd_link_def uv_close_def)

lemma on_recv_speaks:
  assumes env: "env_ok E V" and inv: "io_inv E V ne nb nc writes w" and h: "reading (log w) h"
    and run: "on_recv_cb E h nread buf w = Some w'"
  shows "\<exists>es. speaks V w es w' \<and> (\<forall>e \<in> set es. is_read e)"
proof -
  note list = links_invD(1) [OF io_invD(1) [OF inv]]
  from links_ok_reading [OF links_invD(3) [OF io_invD(1) [OF inv]] h] obtain i where
    i: "link_held V w SVL_LINK_OPEN i" "link_live w i h" by blast
  let ?m = "client_map (link_list w)"
  have il: "i < length ?m" "i \<notin> set (link_free V (link_list w))" "link_id (?m ! i) = of_nat i" "link_state (?m ! i) = SVL_LINK_OPEN"
    using i(1) list by (auto simp: held_def link_list_inv_def)
  have within: "p = Within" if "phase_ok V w i p" for p using that il by (simp add: phase_ok_def)
  have silent: ?thesis if "ev_ready V (events w1) = ev_ready V (events w)" "link_free V (link_list w1) = link_free V (link_list w)"
    "client_map (link_list w1) = ?m[i := g (?m ! i)]" "\<And>l. link_state (g l) = link_state l" "w' = recv_cleanup E h i ret cl w1" for w1 g ret cl
  proof -
    have "speaks V w [] w'"
      using that(1-3) il within that(4) [of "?m ! i"]
      by (intro one_link_speaks [OF list il(1)]) (auto simp: that(5) recv_cleanup_links phase_ok_def)
    then show ?thesis by (intro exI [of _ "[]"]) simp
  qed
  note start = run i(2) held_deref [OF i(1)]
  consider (err) "nread < 0" | (none) "\<not> nread < 0" "(if nread = 0 then None else buf) = None"
    | (bytes) bytes where "\<not> nread < 0" "(if nread = 0 then None else buf) = Some bytes" by fastforce
  then show ?thesis
  proof cases
    case err
    with start have "w' = recv_cleanup E h i (Errno nread) True w" by (simp add: on_recv_cb_def live_def)
    with silent [of w "\<lambda>l. l"] show ?thesis by simp
  next
    case none
    with start have "w' = recv_cleanup E h i TN_RECV_ERROR False w" by (simp add: on_recv_cb_def live_def)
    with silent [of w "\<lambda>l. l"] show ?thesis by simp
  next
    case bytes
    let ?w0 = "w\<lparr>stats := (stats w)\<lparr>recv_msgs := recv_msgs (stats w) + 1, recv_bytes := recv_bytes (stats w) + of_int nread\<rparr>\<rparr>"
    from start bytes obtain b where b: "read_buffer (?m ! i) = Some b" by (auto simp: on_recv_cb_def live_def Let_def split: option.splits)
    obtain r b' where add: "tn_buffer_add_length E (kernel_store E b bytes) (of_int nread) = (r, b')" by fastforce
    let ?w1 = "upd_link i (\<lambda>l. l\<lparr>read_buffer := Some b'\<rparr>) ?w0"
    have w1: "ev_ready V (events (?w1\<lparr>events := l\<rparr>)) = ev_ready V l" "link_free V (link_list (?w1\<lparr>events := l\<rparr>)) = link_free V (link_list w)"
      "client_map (link_list (?w1\<lparr>events := l\<rparr>)) = ?m[i := (?m ! i)\<lparr>read_buffer := Some b'\<rparr>]"
      "link_list (?w1\<lparr>events := l\<rparr>) = link_list ?w1" for l
      using il(1) by (simp_all add: upd_link_def)
    show ?thesis
    proof (cases "r = TN_SUCCESS")
      case False
      with start bytes b add have "w' = recv_cleanup E h i TN_RECV_EBUF False ?w1" by (simp add: on_recv_cb_def live_def Let_def)
      with w1 il(1) show ?thesis by (intro silent [of ?w1 "\<lambda>l. l\<lparr>read_buffer := Some b'\<rparr>"]) (simp_all add: upd_link_def)
    next
      case True
      obtain r1 out l where pop: "tn_event_list_free_pop E TN_EVENT_CLIENT_READ (events w) = (r1, out, l)"
        by (cases "tn_event_list_free_pop E TN_EVENT_CLIENT_READ (events w)") auto
      note evl = events_ok_pop [OF env_okD(4) [OF env] pop io_invD(2) [OF inv]]
      show ?thesis
      proof (cases "r1 = TN_SUCCESS")
        case False
        with True start bytes b add pop have "w' = recv_cleanup E h i TN_RECV_EVTPOP False (?w1\<lparr>events := l\<rparr>)"
          by (simp add: on_recv_cb_def live_def Let_def)
        with w1 evl(3) show ?thesis by (intro silent [of "?w1\<lparr>events := l\<rparr>" "\<lambda>l. l\<lparr>read_buffer := Some b'\<rparr>"]) simp_all
      next
        case popped: True
        with evl obtain e where e: "out = Some e" "ev_type e = TN_EVENT_CLIENT_READ" and ev': "events_ok V (Suc ne) l" by blast
        let ?e = "e\<lparr>ev_client_id := link_id (?m ! i), ev_priv := Some b', ev_buffer := tn_buffer_read_ptr E b',
          ev_len := ucast (TN_BUFLEN_CAST E (tn_buffer_read_length E b'))\<rparr>"
        obtain r2 l2 where push: "tn_event_list_ready_push E l ?e = (r2, l2)" by fastforce
        have "is_read ?e \<Longrightarrow> ev_priv ?e \<noteq> None" by simp
        note evp = events_ok_push [OF env_okD(4) [OF env] push ev' this]
        from start bytes b add True pop popped e push evp(1)
        have "w' = upd_link i (\<lambda>l. l\<lparr>read_buffer := None\<rparr>) (?w1\<lparr>events := l2\<rparr>)"
          by (simp add: on_recv_cb_def live_def Let_def)
        then have w': "client_map (link_list w') = ?m[i := (?m ! i)\<lparr>read_buffer := None\<rparr>]"
          "link_free V (link_list w') = link_free V (link_list w)" "ev_ready V (events w') = ev_ready V (events w) @ [?e]"
          using evp(3) evl(3) il(1) by (simp_all add: upd_link_def)
        have "phases Within (map ev_type [?e]) = Some Within" using e(2) by simp
        then have "speaks V w [?e] w'"
          using w' il e(2) within by (intro one_link_speaks [OF list il(1)]) (auto simp: phase_ok_def)
        then show ?thesis using e(2) by (intro exI [of _ "[?e]"]) (simp add: is_read_def)
      qed
    qed
  qed
qed

text \<open>A read of bytes changes the state of no link.\<close>

lemma update_states:
  "link_state l = link_state (m ! i) \<Longrightarrow> map link_state (m[i := l]) = map link_state m"
  "link_state l = link_state (m ! i) \<Longrightarrow> link_state (m[i := l] ! j) = link_state (m ! j)"
proof -
  assume l: "link_state l = link_state (m ! i)"
  then show "map link_state (m[i := l]) = map link_state m"
    by (cases "i < length m") (simp_all add: map_update list_update_same_conv list_update_beyond)
  from l show "link_state (m[i := l] ! j) = link_state (m ! j)"
    by (cases "i < length m"; cases "i = j") (simp_all add: list_update_beyond)
qed

lemma upd_link_free [simp]: "link_free V (link_list (upd_link i f w)) = link_free V (link_list w)"
  by (simp add: upd_link_def)

lemma on_recv_states:
  assumes "on_recv_cb E h nread buf w = Some w'" and "0 \<le> nread"
  shows "map link_state (client_map (link_list w')) = map link_state (client_map (link_list w))"
    and "link_free V (link_list w') = link_free V (link_list w)"
  using assms
  by (auto simp: on_recv_cb_def Let_def recv_cleanup_def upd_link_def update_states split: option.splits prod.splits if_splits)

text \<open>Steps in which only read events are appended: the streams tell what became of the bytes.\<close>

lemma streams_carry:
  assumes es: "ev_ready V (events w') = ev_ready V (events w) @ es" "\<forall>e \<in> set es. is_read e"
    and same: "map link_state (client_map (link_list w')) = map link_state (client_map (link_list w))"
      "link_free V (link_list w') = link_free V (link_list w)"
    and str: "\<And>j. j < length (client_map (link_list w)) \<Longrightarrow> link_stream V j w' = link_stream V j w @ rb j"
    and rb: "\<And>j. \<not> opened V w j \<Longrightarrow> rb j = []"
  shows "carries V w rb es w'"
  unfolding carries_def
proof (intro allI impI)
  fix j acc rep assume j: "j < length (client_map (link_list w))" and d: "data_ok V w j acc rep"
  let ?C = "concat (map payload (filter (\<lambda>e. is_read e \<and> ev_client_id e = of_nat j) es))"
  let ?L = "leftover V (client_map (link_list w) ! j)" and ?L' = "leftover V (client_map (link_list w') ! j)"
  have *: "?C @ ?L' = ?L @ rb j" using str [OF j] es(1) by (simp add: link_stream_def)
  have h: "heard (of_nat j) acc es = acc @ ?C" by (rule heard_reads [OF es(2)])
  have o: "opened V w' j = opened V w j" "dialing V w' j = dialing V w j"
    using same(2) same_states(2) [OF same(1) j] by (simp_all add: opened_def dialing_def)
  show "data_ok V w' j (heard (of_nat j) acc es) (if opened V w' j then rep @ rb j else [])"
    using d * h o rb [of j] by (auto simp: data_ok_def split: if_splits)
qed

text \<open>The bytes that libuv reports in a read, by link.\<close>

definition reported ::
  "'t ext \<Rightarrow> handle \<Rightarrow> (u64 option \<Rightarrow> int \<times> u8 list option) \<Rightarrow> 't world \<Rightarrow> nat \<Rightarrow> u8 list" where
  "reported E h answer w i =
     (if handle_data w h \<noteq> Some i then []
      else case on_recv_alloc_cb E h w of
          None \<Rightarrow> []
        | Some (room, w) \<Rightarrow>
            (case answer room of (nread, buf) \<Rightarrow> if nread \<le> 0 then [] else (case buf of None \<Rightarrow> [] | Some bytes \<Rightarrow> bytes)))"

lemma on_recv_nothing:
  assumes "on_recv_cb E h nread buf w = Some w'" and "nread \<le> 0"
  shows "rests V w w'" and "events w' = events w"
proof -
  from assms obtain i ret cl where w': "w' = recv_cleanup E h i ret cl w"
    by (auto simp: on_recv_cb_def split: option.splits if_splits)
  show "events w' = events w" by (simp add: w')
  show "rests V w w'"
    unfolding w' rests_def opened_def dialing_def leftover_def recv_cleanup_links
    by (auto simp: nth_list_update split: if_splits)
qed

lemma recv_cbs_tells:
  assumes env: "env_ok E V" and bl: "buflen_laws E" and inv: "io_inv E V ne nb nc writes w" and h: "reading (log w) h"
    and answer: "\<And>room. read_result room (fst (answer room)) (snd (answer room))"
    and fits: "\<And>i. i < length (client_map (link_list w)) \<Longrightarrow> length (leftover V (client_map (link_list w) ! i)) + length (reported E h answer w i) < 2 ^ 32"
    and run: "recv_cbs E h answer w = Some w'"
  shows "\<exists>es. speaks V w es w' \<and> carries V w (reported E h answer w) es w'"
proof -
  from run obtain room w1 nread buf where alloc: "on_recv_alloc_cb E h w = Some (room, w1)"
    and nb: "answer room = (nread, buf)" and recv: "on_recv_cb E h nread buf w1 = Some w'"
    by (auto simp: recv_cbs_def split: option.splits prod.splits)
  from on_recv_alloc_cb_inv [OF env inv h] alloc have inv1: "io_inv E V ne nb nc writes w1" "log w1 = log w" by auto
  with h have h1: "reading (log w1) h" by simp
  from on_recv_speaks [OF env inv1(1) h1 recv] obtain es where
    es: "speaks V w1 es w'" "\<forall>e \<in> set es. is_read e" by blast
  note sp = speaks_quiet [OF on_recv_alloc_speaks [OF alloc] es(1)]
  note st1 = on_recv_alloc_links(3) [OF alloc] and fr1 = on_recv_alloc_links(2) [OF alloc, of V]
  show ?thesis
  proof (cases "nread \<le> 0")
    case True
    note no = on_recv_nothing(2) [OF recv True] on_recv_nothing(1) [OF recv True, of V]
    have "es = []" using es(1) no(1) by (simp add: speaks_def)
    moreover have "reported E h answer w = (\<lambda>_. [])" by (simp add: fun_eq_iff reported_def alloc nb True)
    moreover have "rests V w w'" using rests_trans [OF on_recv_alloc_rests [OF env alloc] no(2)] same_states(1) [OF st1] by simp
    ultimately show ?thesis using sp rests_carries by metis
  next
    case False
    with answer [of room] nb obtain n bytes where room: "room = Some n" and bytes: "buf = Some bytes" "int (length bytes) = nread"
      "length bytes \<le> unat n" by (auto simp: read_result_def split: option.splits)
    from links_ok_reading [OF links_invD(3) [OF io_invD(1) [OF inv]] h] obtain i where
      i: "link_held V w SVL_LINK_OPEN i" "link_live w i h" by blast
    have hd: "handle_data w h = Some i" using i(2) by (simp add: live_def)
    have rb: "reported E h answer w j = (if j = i then bytes else [])" for j
      using False by (simp add: reported_def alloc nb hd bytes(1))
    have "i < length (client_map (link_list w))" using i(1) by (simp add: held_def)
    note fits = fits [OF this]
    have "bytes \<noteq> []" using False bytes(2) by auto
    from recv_stream_step [OF env bl inv h hd alloc [unfolded room] this bytes(3)] fits rb [of i] recv bytes(1,2)
    have str: "\<forall>j < length (client_map (link_list w)). link_stream V j w' = link_stream V j w @ reported E h answer w j"
      by (auto simp: rb)
    have "0 \<le> nread" using False by simp
    note st2 = on_recv_states(1) [OF recv this] on_recv_states(2) [OF recv this, of V]
    have "carries V w (reported E h answer w) es w'"
    proof (rule streams_carry [OF _ es(2)])
      show "ev_ready V (events w') = ev_ready V (events w) @ es" using sp by (simp add: speaks_def)
      show "reported E h answer w j = []" if "\<not> opened V w j" for j
        using that i(1) by (auto simp: rb opened_def held_def)
    qed (use st1 st2 fr1 str in simp_all)
    with sp show ?thesis by blast
  qed
qed

lemma recv_cbs_speaks:
  assumes env: "env_ok E V" and inv: "io_inv E V ne nb nc writes w" and h: "reading (log w) h"
    and run: "recv_cbs E h answer w = Some w'"
  shows "\<exists>es. speaks V w es w'"
proof -
  from run obtain room w1 nread buf where alloc: "on_recv_alloc_cb E h w = Some (room, w1)" and recv: "on_recv_cb E h nread buf w1 = Some w'"
    by (auto simp: recv_cbs_def split: option.splits prod.splits)
  from on_recv_alloc_cb_inv [OF env inv h] alloc h have "io_inv E V ne nb nc writes w1" "reading (log w1) h" by auto
  from on_recv_speaks [OF env this recv] obtain es where "speaks V w1 es w'" by blast
  with speaks_trans [OF on_recv_alloc_speaks [OF alloc]] show ?thesis by blast
qed

section \<open>Commands\<close>

text \<open>A command produces no event.  The one that opens a connection takes a free link and may give it back.\<close>

lemma outcome_attach_outbound:
  assumes "link_list_inv E V (link_list w)"
  shows "outcome (fresh_conn V w) (guards (attach_outbound_stmts E c))
    (\<lambda>f. \<exists>i. i \<in> set (link_free V (link_list w)) \<and> conn V w i SVL_LINK_NEW [] f) (no_conn V w)"
proof (rule outcomeI)
  fix f r f' assume f: "fresh_conn V w f" and run: "guards (attach_outbound_stmts E c) f = Some (r, f')"
  then obtain r1 f1 where o: "open_link E f = Some (r1, f1)" by (auto simp: attach_outbound_stmts_def split: option.splits)
  note res = open_link_result [OF assms f o]
  show "if r = TN_SUCCESS then \<exists>i. i \<in> set (link_free V (link_list w)) \<and> conn V w i SVL_LINK_NEW [] f' else no_conn V w f'"
  proof (cases "r1 = TN_SUCCESS")
    case False
    with run o have "r = r1" "f' = f1" by (simp_all add: attach_outbound_stmts_def)
    with False res show ?thesis by simp
  next
    case True
    with res obtain i where i: "i \<in> set (link_free V (link_list w))" "touched V w i [] f1" "link_ptr f1 = Some i" by auto
    then have il: "i < length (client_map (link_list f1))" by (simp add: touched_def)
    let ?g = "\<lambda>l. l\<lparr>link_priv := client_handle f1, link_service := True, read_state := SVL_LINK_READ_HEADER,
             link_state := SVL_LINK_NEW, error_code := TN_SUCCESS, read_buffer := None, cmd_open_id := cmd_id c\<rparr>"
    from run o True i(3) il obtain h q where h: "client_handle f1 = Some h" and r: "r = TN_SUCCESS"
      and f': "f' = upd_link i ?g f1\<lparr>req_data := (req_data f1)(q := Some i), handle_data := (handle_data f1)(h := Some i)\<rparr>"
      by (auto simp: attach_outbound_stmts_def init_outbound_link_def set_req_data_def set_handle_data_def with_handle_def
          with_link_def deref_link_def upd_link_def split: option.splits)
    have "conn V w i SVL_LINK_NEW [] f'"
      using i(2,3) h by (auto simp: f' conn_def touched_def upd_link_def)
    with r i(1) show ?thesis by auto
  qed
qed

definition cmd_open_ends :: "'t view \<Rightarrow> 't world \<Rightarrow> 't frame \<Rightarrow> bool" where
  "cmd_open_ends V w f \<longleftrightarrow>
     no_conn V w f \<or> (\<exists>i. i \<in> set (link_free V (link_list w)) \<and> conn V w i SVL_LINK_NEW [] f)"

lemma outcome_cmd_open:
  assumes inv: "link_list_inv E V (link_list w)"
  shows "outcome (fresh_conn V w) (guards (cmd_open_stmts E c))
    (\<lambda>f. \<exists>i. i \<in> set (link_free V (link_list w)) \<and> conn V w i SVL_LINK_NEW [] f) (cmd_open_ends V w)"
proof -
  let ?F = "fresh_conn V w" and ?R = "cmd_open_ends V w"
  let ?L = "\<lambda>f. \<exists>i. i \<in> set (link_free V (link_list w)) \<and> conn V w i SVL_LINK_NEW [] f"
  have 1: "outcome ?F p ?F ?R" if "outcome ?F p ?F (no_conn V w)" for p
    by (rule outcome_weaken [OF that]) (auto simp: cmd_open_ends_def)
  have 2: "outcome ?F (guards (attach_outbound_stmts E c)) ?L ?R"
    by (rule outcome_weaken [OF outcome_attach_outbound [OF inv]]) (auto simp: cmd_open_ends_def)
  have 3: "outcome ?L (tcp_connect E c) ?L ?R"
  proof (rule outcomeI)
    fix f r f' assume f: "?L f" and run: "tcp_connect E c f = Some (r, f')"
    then have "\<exists>lg. f' = f\<lparr>log := lg\<rparr>"
      by (auto simp: tcp_connect_def with_handle_def uv_do_def Let_def split: option.splits)
    with f have "?L f'" by auto
    then show "if r = TN_SUCCESS then ?L f' else ?R f'" by (simp add: cmd_open_ends_def)
  qed
  show ?thesis
    unfolding cmd_open_stmts_parts
    by (rule outcome_guards_append, rule outcome_guards, (simp only: set_simps insert_iff empty_iff, elim disjE; simp only:),
        (rule 1, rule outcome_fresh)+, rule outcome_guards_append, rule 2,
        rule outcome_guards_Cons, rule 3, rule outcome_guards_Nil)
qed

lemma cmd_open_cleanup_links:
  "client_map (link_list (cmd_open_cleanup E f)) = client_map (link_list f)"
  "link_ptr f = None \<Longrightarrow> link_list (cmd_open_cleanup E f) = link_list f"
  "list_laws E V \<Longrightarrow> link_ptr f = Some i \<Longrightarrow>
     set (link_free V (link_list (cmd_open_cleanup E f))) \<subseteq> insert i (set (link_free V (link_list f))) \<and>
     set (link_free V (link_list f)) \<subseteq> set (link_free V (link_list (cmd_open_cleanup E f)))"
  using list_push_law(2) [of E V "client_list_free (link_list f)" i]
  by (auto simp: cmd_open_cleanup_def Let_def svl_link_list_close_def uv_close_def release_mem_def
      split: option.splits prod.splits if_splits)

lemma cmd_open_cleanup_events [simp]: "events (cmd_open_cleanup E f) = events f"
  by (auto simp: cmd_open_cleanup_def Let_def split: option.splits)

lemma cmd_open_speaks:
  assumes inv: "link_list_inv E V (link_list w)" and run: "handle_cmd_open E c w = Some w'"
  shows "speaks V w [] w'"
proof -
  from run obtain r f where g: "guards (cmd_open_stmts E c) (enter None None None w) = Some (r, f)"
    and w': "w' = leave (if r = TN_SUCCESS then f else cmd_open_cleanup E f)"
    by (auto simp: handle_cmd_open_def split: option.splits)
  have ev: "events w' = events f" by (simp add: w' cmd_open_cleanup_events)
  from outcomeD [OF outcome_cmd_open [OF inv] enter_fresh g] have "cmd_open_ends V w f"
    by (auto simp: cmd_open_ends_def split: if_splits)
  then show ?thesis
    unfolding cmd_open_ends_def
  proof (elim disjE exE conjE)
    assume "no_conn V w f"
    then have "client_map (link_list w') = client_map (link_list w)" "link_free V (link_list w') = link_free V (link_list w)"
      "events w' = events w"
      using ev by (simp_all add: w' no_conn_def cmd_open_cleanup_links)
    then show ?thesis by (intro speaks_silent) (simp_all add: phase_ok_def)
  next
    fix i assume free: "i \<in> set (link_free V (link_list w))" and c: "conn V w i SVL_LINK_NEW [] f"
    from inv have laws: "list_laws E V" by (simp add: link_list_inv_def)
    from c have t: "touched V w i [] f" "link_ptr f = Some i" "link_state (client_map (link_list f) ! i) = SVL_LINK_NEW"
      by (simp_all add: conn_def)
    have m: "client_map (link_list w') = client_map (link_list f)" by (simp add: w' cmd_open_cleanup_links(1))
    have fr: "j \<in> set (link_free V (link_list w')) \<longleftrightarrow> j \<in> set (link_free V (link_list f))" if "j \<noteq> i" for j
      using cmd_open_cleanup_links(3) [OF laws t(2)] that by (auto simp: w')
    show ?thesis
    proof (rule one_link_speaks [OF inv])
      fix p assume "phase_ok V w i p"
      with free have "p = Between" by (rule free_between)
      with t(3) show "\<exists>p'. phases p (map ev_type []) = Some p' \<and> phase_ok V w' i p'" by (simp add: phase_ok_def m)
    qed (use t(1) fr ev in \<open>simp_all add: touched_def m\<close>)
  qed
qed

lemma cmd_close_speaks:
  assumes inv: "link_list_inv E V (link_list w)" and run: "handle_cmd_close E c w = Some w'"
  shows "speaks V w [] w'"
proof (cases "w' = w")
  case True
  then show ?thesis by (simp add: speaks_same)
next
  case False
  with run obtain i where "i < length (client_map (link_list w))"
    and w': "link_list w' = link_list (upd_link i (\<lambda>l. l\<lparr>cmd_close_id := cmd_id c, link_state := SVL_LINK_CLOSING\<rparr>) w)"
      "events w' = events w" and op: "link_state (client_map (link_list w) ! i) = SVL_LINK_OPEN"
    by (auto simp: handle_cmd_close_def deref_link_def link_unusable_def uv_close_def split: option.splits prod.splits if_splits)
  then show ?thesis by (intro one_link_speaks [OF inv, of i]) (auto simp: phase_ok_def upd_link_def)
qed

lemma cmd_send_speaks: "handle_cmd_send E c w = Some w' \<Longrightarrow> speaks V w [] w'"
  by (rule speaks_same) (auto simp: handle_cmd_send_def Let_def split: option.splits prod.splits if_splits)

text \<open>Commands move no bytes either.\<close>

lemma cmd_open_rests:
  assumes inv: "link_list_inv E V (link_list w)" and run: "handle_cmd_open E c w = Some w'"
  shows "rests V w w'"
proof -
  from run obtain r f where g: "guards (cmd_open_stmts E c) (enter None None None w) = Some (r, f)"
    and w': "w' = leave (if r = TN_SUCCESS then f else cmd_open_cleanup E f)"
    by (auto simp: handle_cmd_open_def split: option.splits)
  from outcomeD [OF outcome_cmd_open [OF inv] enter_fresh g] have "cmd_open_ends V w f"
    by (auto simp: cmd_open_ends_def split: if_splits)
  then show ?thesis
    unfolding cmd_open_ends_def
  proof (elim disjE exE conjE)
    assume "no_conn V w f"
    then have "no_change V w w'" by (simp add: w' no_conn_def no_change_def cmd_open_cleanup_links(1,2))
    then show ?thesis by (rule no_change_rests)
  next
    fix i assume free: "i \<in> set (link_free V (link_list w))" and c: "conn V w i SVL_LINK_NEW [] f"
    from inv have laws: "list_laws E V" by (simp add: link_list_inv_def)
    from c have t: "touched V w i [] f" "link_ptr f = Some i" "link_state (client_map (link_list f) ! i) = SVL_LINK_NEW"
      and none: "read_buffer (client_map (link_list f) ! i) = None" using free by (auto simp: conn_def)
    have m: "client_map (link_list w') = client_map (link_list f)" by (simp add: w' cmd_open_cleanup_links(1))
    have fr: "j \<in> set (link_free V (link_list w')) \<longleftrightarrow> j \<in> set (link_free V (link_list f))" if "j \<noteq> i" for j
      using cmd_open_cleanup_links(3) [OF laws t(2)] that by (auto simp: w')
    show ?thesis
      unfolding rests_def
    proof (intro allI impI)
      fix j
      show "(opened V w' j \<longrightarrow> opened V w j \<and>
           leftover V (client_map (link_list w') ! j) = leftover V (client_map (link_list w) ! j)) \<and>
        (dialing V w' j \<longrightarrow> leftover V (client_map (link_list w') ! j) = [] \<or>
           dialing V w j \<and> leftover V (client_map (link_list w') ! j) = leftover V (client_map (link_list w) ! j))"
        using t(1,3) fr [of j] none m by (cases "j = i") (auto simp: opened_def dialing_def leftover_def touched_def)
    qed
  qed
qed

lemma cmd_close_rests:
  assumes "handle_cmd_close E c w = Some w'"
  shows "rests V w w'"
proof (cases "w' = w")
  case True
  then show ?thesis by (simp add: rests_same)
next
  case False
  with assms obtain i where "i < length (client_map (link_list w))"
    and "link_list w' = link_list (upd_link i (\<lambda>l. l\<lparr>cmd_close_id := cmd_id c, link_state := SVL_LINK_CLOSING\<rparr>) w)"
    by (auto simp: handle_cmd_close_def deref_link_def link_unusable_def uv_close_def split: option.splits prod.splits if_splits)
  then have "link_state (client_map (link_list w') ! j) = (if j = i then SVL_LINK_CLOSING else link_state (client_map (link_list w) ! j))"
    and "read_buffer (client_map (link_list w') ! j) = read_buffer (client_map (link_list w) ! j)"
    and "link_free V (link_list w') = link_free V (link_list w)" for j
    by (simp_all add: upd_link_def nth_list_update)
  then show ?thesis by (simp add: rests_def opened_def dialing_def leftover_def)
qed

lemma cmd_send_rests: "handle_cmd_send E c w = Some w' \<Longrightarrow> rests V w w'"
  by (rule rests_same) (auto simp: handle_cmd_send_def Let_def split: option.splits prod.splits if_splits)

lemma handle_cmd_rests:
  "link_list_inv E V (link_list w) \<Longrightarrow> handle_cmd E c w = Some w' \<Longrightarrow> rests V w w'"
  by (auto simp: handle_cmd_def cmd_open_rests cmd_close_rests cmd_send_rests rests_same split: tn_cmd_type_t.splits)

lemma handle_cmd_speaks:
  "link_list_inv E V (link_list w) \<Longrightarrow> handle_cmd E c w = Some w' \<Longrightarrow> speaks V w [] w'"
  by (auto simp: handle_cmd_def cmd_open_speaks cmd_close_speaks cmd_send_speaks speaks_same split: tn_cmd_type_t.splits)

end
