(* ===== verification/Svl_Conversation.thy ===== *)
theory Svl_Conversation
  imports Svl_Talk
begin

text \<open>
  The conversation of the service with each of its clients, over whole runs: the events of every client
  come in sessions, and the state of the link tells where in the session the service is.
\<close>

section \<open>Steps\<close>

text \<open>What the commands that are handled in one go have in common.\<close>

definition quiet :: "'t view \<Rightarrow> 't world \<Rightarrow> 't world \<Rightarrow> bool" where
  "quiet V w w' \<longleftrightarrow> speaks V w [] w' \<and> rests V w w'"

lemma quiet_same: "link_list w' = link_list w \<Longrightarrow> events w' = events w \<Longrightarrow> quiet V w w'"
  by (simp add: quiet_def speaks_same rests_same)

lemma quiet_trans: "quiet V w w1 \<Longrightarrow> quiet V w1 w2 \<Longrightarrow> quiet V w w2"
  unfolding quiet_def using speaks_quiet rests_trans by (metis speaks_def)

lemma quiet_tells: "quiet V w w' \<Longrightarrow> tells V w [] w'"
  by (simp add: quiet_def rests_carries)

lemma on_check_quiet:
  assumes env: "env_ok E V" and inv: "io_inv E V ne nb nc writes w" and run: "on_check_cb E w = Some w'"
  shows "quiet V w w'"
proof -
  have "\<forall>writes. env_ok E V \<longrightarrow> io_inv E V ne nb nc writes w \<longrightarrow> quiet V w w'"
  proof (rule on_check_cb.raw_induct [OF _ run,
        where P = "\<lambda>E w w'. \<forall>writes. env_ok E V \<longrightarrow> io_inv E V ne nb nc writes w \<longrightarrow> quiet V w w'"], intro allI impI, goal_cases)
    case (1 check E w w' writes)
    obtain r out l where pop: "tn_cmd_list_ready_pop_back E (cmds w) = (r, out, l)"
      by (cases "tn_cmd_list_ready_pop_back E (cmds w)") auto
    note law = cmd_ready_pop_law [OF env_okD(5) [OF 1(3)] pop] and cm = io_invD(4) [OF 1(4)]
    have same: "quiet V w (w\<lparr>cmds := l\<rparr>)" by (rule quiet_same) simp_all
    show ?case
    proof (cases "r = TN_SUCCESS")
      case False
      with 1(2) pop same show ?thesis by auto
    next
      case True
      with 1(2) pop law(5) obtain c w1 where c: "out = Some c" and w1: "handle_cmd E c (w\<lparr>cmds := l\<rparr>) = Some w1"
        and rec: "check E (w1\<lparr>cmds := snd (tn_cmd_list_free_push E (cmds w1) c)\<rparr>) = Some w'"
        by (auto simp: Let_def split: option.splits)
      from law(5) True c have "mset (cmd_ready V (cmds w)) = add_mset c (mset (cmd_ready V l))" by simp
      then have "length (cmd_ready V (cmds w)) = Suc (length (cmd_ready V l))" by (metis size_add_mset size_mset)
      with cm law(1,2) have cm1: "cmds_ok V (Suc nc) l" by (simp add: cmds_ok_def)
      note inv1 = io_inv_cmds [OF 1(4) cm1]
      from handle_cmd_inv [OF 1(3) inv1, of c] w1 obtain ws where inv2: "io_inv E V ne nb (Suc nc) (ws @ writes) w1" by auto
      have l: "cmds w1 = l" using handle_cmd_keep [OF w1] by simp
      have "cmd_free V l < cmd_cap V l" using cm1 by (simp add: cmds_ok_def)
      note push = cmd_free_push_law [OF env_okD(5) [OF 1(3)] this, of c]
      let ?w2 = "w1\<lparr>cmds := snd (tn_cmd_list_free_push E l c)\<rparr>"
      have "io_inv E V ne nb nc (ws @ writes) ?w2"
        using inv2 cm1 push by (intro io_inv_cmds) (simp_all add: cmds_ok_def)
      with 1(1) [OF rec] 1(3) l have s2: "quiet V ?w2 w'" by auto
      note list = links_invD(1) [OF io_invD(1) [OF inv1]]
      have "quiet V (w\<lparr>cmds := l\<rparr>) w1"
        using handle_cmd_speaks [OF list w1] handle_cmd_rests [OF list w1] by (simp add: quiet_def)
      from quiet_trans [OF same this] have "quiet V w w1" .
      moreover have "quiet V w1 ?w2" by (rule quiet_same) simp_all
      ultimately have "quiet V w ?w2" by (rule quiet_trans)
      from quiet_trans [OF this s2] show ?thesis .
    qed
  qed
  with env inv show ?thesis by blast
qed

text \<open>Every step of the IO thread but the reads, and the reads.\<close>

definition receives :: "'t ext \<Rightarrow> 't sys \<Rightarrow> handle \<Rightarrow> (u64 option \<Rightarrow> int \<times> u8 list option) \<Rightarrow> 't sys \<Rightarrow> bool" where
  "receives E s h answer s' \<longleftrightarrow>
     reading (log (world_of s)) h \<and> (\<forall>room. read_result room (fst (answer room)) (snd (answer room))) \<and>
     (\<exists>w. recv_cbs E h answer (world_of s) = Some w \<and> s' = s\<lparr>world_of := w\<rparr>)"

lemma receives_io_step: "receives E s h answer s' \<Longrightarrow> io_step E V s s'"
  by (auto simp: receives_def intro: io_step.receive)

lemma other_step_tells:
  assumes env: "env_ok E V" and inv: "sys_inv E V s" and step: "io_step E V s s'"
    and no_read: "\<And>h answer. \<not> receives E s h answer s'"
  shows "\<exists>es. tells V (world_of s) es (world_of s')"
  using step
proof cases
  note inv0 = sys_invD(1) [OF inv]
  case (inbound st w)
  with on_inbound_tells [OF env links_invD(1) [OF io_invD(1) [OF inv0]] inbound(2)] show ?thesis by auto
next
  case (outbound q h st w)
  with on_outbound_tells [OF env sys_invD(1) [OF inv] outbound(2,3)] show ?thesis by auto
next
  case (receive h answer w)
  with no_read [of h answer] show ?thesis by (auto simp: receives_def)
next
  case (sent q st w)
  have "tells V (world_of s) [] w"
    using sent(3) by (intro tells_same) (auto simp: on_send_cb_def Let_def split: option.splits if_splits)
  with sent(1) show ?thesis by auto
next
  case (closed_link h w)
  with on_close_link_tells [OF env sys_invD(1) [OF inv] closed_link(2,3)] show ?thesis by auto
next
  case (closed_handle h)
  have "tells V (world_of s) [] (on_close_handle_cb h (world_of s))"
    by (intro tells_same) (simp_all add: on_close_handle_cb_def release_mem_def)
  with closed_handle(1) show ?thesis by auto
next
  case timer
  have close: "link_list (safe_close_uv_handle E p w) = link_list w" "events (safe_close_uv_handle E p w) = events w"
    for p and w :: "'a world"
    by (simp_all add: safe_close_uv_handle_def uv_close_def split: option.splits)
  have "tells V (world_of s) [] (on_timer_cb E (world_of s))"
    by (intro tells_same) (simp_all add: on_timer_cb_def Let_def close)
  with timer show ?thesis by auto
next
  case prepare
  have "tells V (world_of s) [] (on_prep_cb (world_of s))" by (intro tells_same) (simp_all add: on_prep_cb_def)
  with prepare show ?thesis by auto
next
  case (check w)
  with quiet_tells [OF on_check_quiet [OF env sys_invD(1) [OF inv] check(2)]] show ?thesis by auto
next
  case (sigint sig)
  have "tells V (world_of s) [] (on_sigint_cb sig (world_of s))"
    by (intro tells_same) (simp_all add: on_sigint_cb_def svl_service_stop_signal_def svl_service_set_state_def Let_def)
  with sigint show ?thesis by auto
qed

lemma io_step_speaks:
  assumes env: "env_ok E V" and inv: "sys_inv E V s" and step: "io_step E V s s'"
  shows "\<exists>es. speaks V (world_of s) es (world_of s')"
proof (cases "\<exists>h answer. receives E s h answer s'")
  case True
  with recv_cbs_speaks [OF env sys_invD(1) [OF inv]] show ?thesis by (fastforce simp: receives_def)
next
  case False
  with other_step_tells [OF assms] show ?thesis by blast
qed

text \<open>The calls of the main thread leave the links alone.\<close>

lemma queue_cmd_links: "queue_cmd E ty fill w = Some (r, i, w') \<Longrightarrow> link_list w' = link_list w"
  by (auto simp: queue_cmd_def Let_def split: prod.splits option.splits if_splits)

lemma release_event_links: "release_event E e w = Some w' \<Longrightarrow> link_list w' = link_list w"
  by (auto simp: release_event_def split: option.splits if_splits)

lemma release_events_links: "release_events E k i w = Some w' \<Longrightarrow> link_list w' = link_list w"
proof (induction k arbitrary: i w)
  case (Suc k)
  from Suc.prems obtain e w1 where w1: "release_event E e w = Some w1" "release_events E k (Suc i) w1 = Some w'"
    by (auto split: if_splits option.splits)
  from Suc.IH [OF w1(2)] release_event_links [OF w1(1)] show ?case by simp
qed simp

lemma main_step_links:
  assumes "main_step E s s'"
  shows "link_list (world_of s') = link_list (world_of s)"
  using assms
proof cases
  case (acquire_events r out n w)
  then show ?thesis
    by (auto simp: svl_service_events_acquire_def Let_def split: option.splits prod.splits if_splits)
next
  case (release_events r w)
  then show ?thesis by (auto simp: svl_service_events_release_def dest: release_events_links split: option.splits)
qed (auto simp: svl_service_cmd_open_def svl_service_cmd_close_def svl_service_cmd_send_def svl_service_stop_signal_def
    svl_service_set_state_def Let_def dest: queue_cmd_links split: if_splits prod.splits)

section \<open>The invariant\<close>

definition in_session :: "'t view \<Rightarrow> 't world \<Rightarrow> 't tn_event list \<Rightarrow> bool" where
  "in_session V w es \<longleftrightarrow>
     (\<forall>e \<in> set es. typed (length (client_map (link_list w))) e) \<and>
     (\<forall>i < length (client_map (link_list w)). \<exists>p. phases Between (talk (of_nat i) es) = Some p \<and> phase_ok V w i p)"

lemma in_session_speaks:
  assumes "in_session V w es" and "speaks V w es' w'"
  shows "in_session V w' (es @ es')"
  unfolding in_session_def
proof (intro conjI allI impI)
  fix i assume "i < length (client_map (link_list w'))"
  with assms(2) have i: "i < length (client_map (link_list w))" by (simp add: speaks_def)
  with assms(1) obtain p where p: "phases Between (talk (of_nat i) es) = Some p" "phase_ok V w i p"
    unfolding in_session_def by blast
  from assms(2) i p(2) obtain p' where "phases p (talk (of_nat i) es') = Some p'" "phase_ok V w' i p'"
    unfolding speaks_def by blast
  with p(1) show "\<exists>p. phases Between (talk (of_nat i) (es @ es')) = Some p \<and> phase_ok V w' i p"
    by (simp add: phases_append)
qed (use assms in \<open>auto simp: in_session_def speaks_def\<close>)

lemma in_session_same: "in_session V w es \<Longrightarrow> link_list w' = link_list w \<Longrightarrow> in_session V w' es"
  unfolding in_session_def phase_ok_def by metis

definition session_inv :: "'t ext \<Rightarrow> 't view \<Rightarrow> 't history \<Rightarrow> bool" where
  "session_inv E V x \<longleftrightarrow> (case x of (s, made, got) \<Rightarrow> sys_inv E V s \<and> in_session V (world_of s) made)"

interpretation sessions: invariant "hist_init E V" "hist_step E V" "\<lambda>x. env_ok E V \<longrightarrow> session_inv E V x"
  for E :: "'t ext" and V :: "'t view"
proof (unfold_locales, goal_cases)
  case (1 x)
  then show ?case
    using sys_init_start by (fastforce simp: hist_init_def session_inv_def in_session_def phase_ok_def)
next
  case (2 x y)
  from 2(2) show ?case
  proof cases
    case (main s s' made got)
    with 2(1) main_step_inv [OF _ _ main(3)] in_session_same [OF _ main_step_links [OF main(3)]] show ?thesis
      by (simp add: session_inv_def)
  next
    case (io s s' made got)
    show ?thesis
    proof
      assume env: "env_ok E V"
      with 2(1) io(1) have inv: "sys_inv E V s" "in_session V (world_of s) made" by (simp_all add: session_inv_def)
      from io_step_speaks [OF env inv(1) io(3)] obtain es where es: "speaks V (world_of s) es (world_of s')" ..
      then have "drop (length (waiting V s)) (waiting V s') = es" by (simp add: speaks_def)
      with in_session_speaks [OF inv(2) es] io_step_inv [OF env inv(1) io(3)] io(2) show "session_inv E V y"
        by (simp add: session_inv_def)
    qed
  qed
qed

text \<open>What has been produced is what has been delivered and what still waits.\<close>

lemma history_sessions:
  assumes "env_ok E V" and "run (hist_init E V) (hist_step E V) (s, made, got)"
  shows "made = got @ waiting V s" and "in_session V (world_of s) made"
  using delivery.transports [OF channel.invariant_axioms assms(2)] sessions.holds [OF assms(2)] assms(1)
  by (auto simp: chan_rel_def chan_fifo_def session_inv_def)

lemma talk_outside:
  assumes "\<forall>e \<in> set es. typed n e" and "\<And>i. i < n \<Longrightarrow> cid \<noteq> of_nat i"
  shows "talk cid es = []"
  using assms by (auto simp: talk_def typed_def filter_empty_conv)

lemma in_session_all:
  assumes "in_session V w es"
  shows "phases Between (talk cid es) \<noteq> None"
proof (cases "\<exists>i < length (client_map (link_list w)). cid = of_nat i")
  case True
  with assms show ?thesis unfolding in_session_def by (metis option.distinct(1))
next
  case False
  with assms talk_outside [of es "length (client_map (link_list w))" cid] show ?thesis by (auto simp: in_session_def)
qed

section \<open>Properties\<close>



text \<open>
  C11. Every event that the main thread has been given, and every one that waits for it, is an open, a read
  or a close event, names a client below the configured number, and carries a buffer if it is a read event.
\<close>

theorem delivered_events_typed:
  assumes "env_ok E V" and "run (hist_init E V) (hist_step E V) (s, made, got)"
    and "e \<in> set (got @ ev_ready V (events (world_of s)))"
  shows "ev_type e \<in> {TN_EVENT_CLIENT_OPEN, TN_EVENT_CLIENT_READ, TN_EVENT_CLIENT_CLOSE} \<and>
    unat (ev_client_id e) < unat (clients_max (link_list (world_of s))) \<and> (if is_read e then ev_priv e \<noteq> None else True)"
proof -
  let ?m = "client_map (link_list (world_of s))"
  from history_sessions [OF assms(1,2)] assms(3) have typed: "typed (length ?m) e" by (simp add: in_session_def)
  from history_run [OF assms(2)] have "link_list_inv E V (link_list (world_of s))"
    using links_invD(1) [OF io_invD(1) [OF sys_invD(1) [OF reachable_inv [OF assms(1)]]]] by simp
  then have len: "length ?m = unat (clients_max (link_list (world_of s)))" by (simp add: link_list_inv_def)
  from typed obtain i where i: "i < length ?m" "ev_client_id e = of_nat i" by (auto simp: typed_def)
  with len have "unat (ev_client_id e) = i" by (metis le_unat_uoi less_imp_le)
  with i len typed show ?thesis by (simp add: typed_def)
qed

theorem delivered_events_typed_witness:
  "\<exists>made got e. run (hist_init ref_ext ref_view) (hist_step ref_ext ref_view) (ref_connected, made, got) \<and>
     e \<in> set (got @ ev_ready ref_view (events (world_of ref_connected))) \<and> ev_type e = TN_EVENT_CLIENT_OPEN \<and>
     unat (ev_client_id e) < unat (clients_max (link_list (world_of ref_connected)))"
proof -
  from run_history [OF ref_run_connected] obtain made got where
    h: "run (hist_init ref_ext ref_view) (hist_step ref_ext ref_view) (ref_connected, made, got)" by blast
  let ?e = "(ref_event TN_EVENT_CLIENT_OPEN)\<lparr>ev_host := ref_endpoint\<lparr>ep_addr := [2]\<rparr>\<rparr>"
  have "?e \<in> set (got @ ev_ready ref_view (events (world_of ref_connected)))" by (simp add: ref_connected_service)
  from delivered_events_typed [OF ref_env h this] this h show ?thesis
    by (intro exI [of _ made] exI [of _ got] exI [of _ ?e]) (simp add: ref_event_def)
qed

end
