(* ===== verification/Svl_Stream.thy ===== *)
theory Svl_Stream
  imports Svl_Conversation
begin

text \<open>
  The byte stream of a connection, from the socket to the main thread: what libuv has reported for an
  open link since it was opened is what the read events of its session carry, followed by what is still
  in the buffer of the link.
\<close>

section \<open>Runs with a tape\<close>

text \<open>
  Next to a history, the tape has for every open link the bytes that libuv has reported for it since it
  was opened.  The runs considered here are those in which no buffer holds 4 GiB or more; the buffers of
  the pool have \<open>SVL_SERVICE_MAX_RECV\<close> bytes.
\<close>

type_synonym 't taped = "'t history \<times> (nat \<Rightarrow> u8 list)"

definition tape_init :: "'t ext \<Rightarrow> 't view \<Rightarrow> 't taped \<Rightarrow> bool" where
  "tape_init E V x \<longleftrightarrow> hist_init E V (fst x) \<and> snd x = (\<lambda>_. [])"

definition fits :: "'t ext \<Rightarrow> 't view \<Rightarrow> 't sys \<Rightarrow> handle \<Rightarrow> (u64 option \<Rightarrow> int \<times> u8 list option) \<Rightarrow> bool" where
  "fits E V s h answer \<longleftrightarrow>
     (\<forall>i < length (client_map (link_list (world_of s))). length (leftover V (client_map (link_list (world_of s)) ! i)) +
        length (reported E h answer (world_of s) i) < 2 ^ 32)"

inductive tape_step :: "'t ext \<Rightarrow> 't view \<Rightarrow> 't taped \<Rightarrow> 't taped \<Rightarrow> bool" for E V where
  main:
    "main_step E s s' \<Longrightarrow>
       tape_step E V ((s, made, got), tape) ((s', made, if holding s then got else got @ held_events s'), tape)"
| receive:
    "receives E s h answer s' \<Longrightarrow> fits E V s h answer \<Longrightarrow>
       tape_step E V ((s, made, got), tape)
         ((s', made @ drop (length (waiting V s)) (waiting V s'), got),
          (\<lambda>i. if opened V (world_of s') i then tape i @ reported E h answer (world_of s) i else []))"
| other:
    "io_step E V s s' \<Longrightarrow> (\<And>h answer. \<not> receives E s h answer s') \<Longrightarrow>
       tape_step E V ((s, made, got), tape)
         ((s', made @ drop (length (waiting V s)) (waiting V s'), got),
          (\<lambda>i. if opened V (world_of s') i then tape i else []))"

text \<open>Forgetting the tape gives a history, and every step of a history whose reads fit can be taped.\<close>

lemma tape_step_history: "tape_step E V x y \<Longrightarrow> hist_step E V (fst x) (fst y)"
proof (induction rule: tape_step.induct)
  case (main s s' made got tape)
  from hist_step.main [OF this] show ?case by simp
next
  case (receive s h answer s' made got tape)
  from hist_step.io [OF receives_io_step [OF receive(1)]] show ?case by simp
next
  case (other s s' made got tape)
  from hist_step.io [OF other(1)] show ?case by simp
qed

lemma tape_history: "run (tape_init E V) (tape_step E V) x \<Longrightarrow> run (hist_init E V) (hist_step E V) (fst x)"
proof (induction rule: run.induct)
  case (run_init x)
  then show ?case by (simp add: tape_init_def run.run_init)
next
  case (run_step x y)
  from run_step.IH tape_step_history [OF run_step.hyps(2)] show ?case by (rule run.run_step)
qed

lemma history_tape:
  assumes "hist_step E V x y" and "\<And>h answer. receives E (fst x) h answer (fst y) \<Longrightarrow> fits E V (fst x) h answer"
  shows "\<exists>tape'. tape_step E V (x, tape) (y, tape')"
  using assms(1)
proof cases
  case (main s s' made got)
  from tape_step.main [OF main(3)] main(1,2) show ?thesis by blast
next
  case (io s s' made got)
  show ?thesis
  proof (cases "\<exists>h answer. receives E s h answer s'")
    case True
    then obtain h answer where r: "receives E s h answer s'" by blast
    with assms(2) [of h answer] io(1,2) have "fits E V s h answer" by simp
    from tape_step.receive [OF r this] io(1,2) show ?thesis by blast
  next
    case False
    with io tape_step.other [OF io(3)] show ?thesis by blast
  qed
qed

section \<open>The invariant\<close>

definition tape_inv :: "'t ext \<Rightarrow> 't view \<Rightarrow> 't taped \<Rightarrow> bool" where
  "tape_inv E V x \<longleftrightarrow>
     (case x of ((s, made, got), tape) \<Rightarrow>
        sys_inv E V s \<and>
        (\<forall>i < length (client_map (link_list (world_of s))).
           data_ok V (world_of s) i (heard (of_nat i) [] made) (tape i)))"

lemma tape_inv_carries:
  assumes inv: "tape_inv E V ((s, made, got), tape)" and sys: "sys_inv E V s'"
    and sp: "speaks V (world_of s) es (world_of s')" and ca: "carries V (world_of s) rb es (world_of s')"
  shows "tape_inv E V ((s', made @ drop (length (waiting V s)) (waiting V s'), got),
    (\<lambda>i. if opened V (world_of s') i then tape i @ rb i else []))"
proof -
  from sp have "drop (length (waiting V s)) (waiting V s') = es"
    and "length (client_map (link_list (world_of s'))) = length (client_map (link_list (world_of s)))"
    by (simp_all add: speaks_def)
  with inv sys ca show ?thesis by (simp add: tape_inv_def heard_append carries_def)
qed

lemma data_ok_same: "link_list w' = link_list w \<Longrightarrow> data_ok V w' i acc rep = data_ok V w i acc rep"
  by (simp add: data_ok_def opened_def dialing_def)

interpretation tapes: invariant "tape_init E V" "tape_step E V"
  "\<lambda>x. env_ok E V \<and> buflen_laws E \<longrightarrow> tape_inv E V x"
  for E :: "'t ext" and V :: "'t view"
proof (unfold_locales, goal_cases)
  case (1 x)
  show ?case
  proof
    assume "env_ok E V \<and> buflen_laws E"
    moreover obtain s made got tape where x: "x = ((s, made, got), tape)" by (metis prod.exhaust)
    with 1 have "sys_init E V s" "made = []" "tape = (\<lambda>_. [])" by (auto simp: tape_init_def hist_init_def)
    ultimately show "tape_inv E V x"
      using sys_init_start [of E V s] by (auto simp: x tape_inv_def data_ok_def opened_def dialing_def)
  qed
next
  case (2 x y)
  show ?case
  proof
    assume env: "env_ok E V \<and> buflen_laws E"
    with 2(1) have inv: "tape_inv E V x" by blast
    from 2(2) show "tape_inv E V y"
    proof cases
      case (main s s' made got tape)
      with inv env main_step_inv [OF _ _ main(3)] main_step_links [OF main(3)] show ?thesis
        by (simp add: tape_inv_def data_ok_same [OF main_step_links [OF main(3)]])
    next
      case (receive s h answer s' made got tape)
      from inv have s: "sys_inv E V s" by (simp add: tape_inv_def receive(1))
      from receive(3) obtain w where r: "reading (log (world_of s)) h"
        "\<And>room. read_result room (fst (answer room)) (snd (answer room))"
        "recv_cbs E h answer (world_of s) = Some w" "s' = s\<lparr>world_of := w\<rparr>" by (auto simp: receives_def)
      from recv_cbs_tells [OF _ _ sys_invD(1) [OF s] r(1,2) _ r(3)] env receive(4) obtain es where
        "speaks V (world_of s) es w" "carries V (world_of s) (reported E h answer (world_of s)) es w"
        by (auto simp: fits_def)
      with tape_inv_carries [OF inv [unfolded receive(1)], of s'] io_step_inv [OF _ s receives_io_step [OF receive(3)]] env r(4)
      show ?thesis by (simp add: receive(2))
    next
      case (other s s' made got tape)
      from inv have s: "sys_inv E V s" by (simp add: tape_inv_def other(1))
      from other_step_tells [OF _ s other(3,4)] env obtain es where
        "speaks V (world_of s) es (world_of s')" "carries V (world_of s) (\<lambda>_. []) es (world_of s')" by blast
      from tape_inv_carries [OF inv [unfolded other(1)] _ this] io_step_inv [OF _ s other(3)] env
      show ?thesis by (simp add: other(2) cong: if_cong)
    qed
  qed
qed

section \<open>Property\<close>

text \<open>
  C4. End to end: for every open link, the bytes of the read events that the main thread has been given or
  that wait for it, from the open event of the session on, followed by what is in the buffer of the link,
  are exactly the bytes that libuv has reported for that link since it was opened, in that order.
\<close>

theorem session_bytes_delivered:
  assumes "env_ok E V" and "buflen_laws E" and "run (tape_init E V) (tape_step E V) ((s, made, got), tape)"
    and "i < length (client_map (link_list (world_of s)))" and "opened V (world_of s) i"
  shows "heard (of_nat i) [] (got @ ev_ready V (events (world_of s))) @
    leftover V (client_map (link_list (world_of s)) ! i) = tape i"
proof -
  from tapes.holds [OF assms(3)] assms(1,2,4) have "data_ok V (world_of s) i (heard (of_nat i) [] made) (tape i)"
    by (simp add: tape_inv_def)
  moreover have "made = got @ ev_ready V (events (world_of s))"
    using history_sessions(1) [OF assms(1)] tape_history [OF assms(3)] by simp
  ultimately show ?thesis using assms(5) by (simp add: data_ok_def)
qed

text \<open>A run in which a client connects and two bytes arrive.\<close>

definition two_bytes :: "u64 option \<Rightarrow> int \<times> u8 list option" where
  "two_bytes room =
     (case room of None \<Rightarrow> (- 1, None) | Some n \<Rightarrow> if 2 \<le> unat n then (2, Some [7, 8]) else (0, None))"

lemma ref_booted_tape: "run (tape_init ref_ext ref_view) (tape_step ref_ext ref_view) ((ref_booted, [], []), \<lambda>_. [])"
  by (rule run.run_init) (simp add: tape_init_def hist_init_def ref_init)

lemma ref_booted_quiet: "\<not> receives ref_ext ref_booted h answer s'"
proof
  assume "receives ref_ext ref_booted h answer s'"
  then have "reading (log (world_of ref_booted)) h" by (simp add: receives_def)
  with links_ok_reading [OF links_invD(3) [OF io_invD(1) [OF sys_invD(1) [OF sys_init_inv [OF ref_env ref_init]]]]]
  obtain i where "link_held ref_view (world_of ref_booted) SVL_LINK_OPEN i" by blast
  with sys_init_start [OF ref_env ref_init] show False by (auto simp: held_def)
qed

lemma ref_connected_tape:
  "\<exists>made. run (tape_init ref_ext ref_view) (tape_step ref_ext ref_view) ((ref_connected, made, []), \<lambda>_. [])"
proof -
  have "ref_booted\<lparr>world_of := world_of ref_connected\<rparr> = ref_connected" by (simp add: ref_connected_def)
  with io_step.inbound [OF ref_connect] have "io_step ref_ext ref_view ref_booted ref_connected" by metis
  from run.run_step [OF ref_booted_tape tape_step.other [OF this ref_booted_quiet]] show ?thesis
    unfolding if_cancel by blast
qed

lemma ref_two_bytes:
  "\<exists>w. recv_cbs ref_ext 12 two_bytes (world_of ref_connected) = Some w \<and>
     opened ref_view w 0 \<and> length (client_map (link_list w)) = 1"
proof -
  let ?w = "world_of ref_connected"
  from ref_alloc obtain w1 where w1: "on_recv_alloc_cb ref_ext 12 ?w = Some (Some 65535, w1)" by blast
  have "leftover ref_view (client_map (link_list ?w) ! 0) = []" by (simp add: ref_connected_link leftover_def)
  with recv_stream_step [OF ref_env ref_buflen reachable_io_inv [OF ref_env ref_run_connected] ref_connected_link(7,6) w1, of "[7, 8]"]
  obtain w2 where w2: "on_recv_cb ref_ext 12 2 (Some [7, 8]) w1 = Some w2" by auto
  have "recv_cbs ref_ext 12 two_bytes ?w = Some w2" using w1 w2 by (simp add: recv_cbs_def two_bytes_def)
  moreover have "link_free ref_view (link_list ?w) = []" by (simp add: ref_connected_service(6))
  then have "link_free ref_view (link_list w2) = []"
    using on_recv_states(2) [OF w2, of ref_view] on_recv_alloc_links(2) [OF w1, of ref_view] by (simp del: ref_view_simps)
  moreover have "map link_state (client_map (link_list w2)) = map link_state (client_map (link_list ?w))"
    using on_recv_states(1) [OF w2] on_recv_alloc_links(3) [OF w1] by simp
  ultimately show ?thesis
    using same_states [of "client_map (link_list w2)" "client_map (link_list ?w)"] ref_connected_link(1,2)
    by (simp add: opened_def del: ref_view_simps)
qed

theorem session_bytes_delivered_witness:
  "\<exists>s made got tape. run (tape_init ref_ext ref_view) (tape_step ref_ext ref_view) ((s, made, got), tape) \<and>
     opened ref_view (world_of s) 0 \<and>
     heard 0 [] (got @ ev_ready ref_view (events (world_of s))) @ leftover ref_view (client_map (link_list (world_of s)) ! 0) = [7, 8]"
proof -
  from ref_connected_tape obtain made where
    h: "run (tape_init ref_ext ref_view) (tape_step ref_ext ref_view) ((ref_connected, made, []), \<lambda>_. [])" by blast
  from ref_two_bytes obtain w where w: "recv_cbs ref_ext 12 two_bytes (world_of ref_connected) = Some w"
    "opened ref_view w 0" "length (client_map (link_list w)) = 1" by blast
  let ?s = "ref_connected\<lparr>world_of := w\<rparr>"
  have "read_result room (fst (two_bytes room)) (snd (two_bytes room))" for room
    by (simp add: read_result_def two_bytes_def split: option.split)
  with w(1) ref_connected_link(7) have r: "receives ref_ext ref_connected 12 two_bytes ?s" by (auto simp: receives_def)
  obtain w1 where w1: "on_recv_alloc_cb ref_ext 12 (world_of ref_connected) = Some (Some 65535, w1)" using ref_alloc by blast
  have rb: "reported ref_ext 12 two_bytes (world_of ref_connected) i = (if i = 0 then [7, 8] else [])" for i
    by (simp add: reported_def w1 two_bytes_def ref_connected_link)
  have fit: "fits ref_ext ref_view ref_connected 12 two_bytes"
    by (simp add: fits_def rb ref_connected_link leftover_def)
  from run.run_step [OF h tape_step.receive [OF r fit]] obtain made' where
    run: "run (tape_init ref_ext ref_view) (tape_step ref_ext ref_view) ((?s, made', []),
      \<lambda>i. if opened ref_view (world_of ?s) i then [] @ reported ref_ext 12 two_bytes (world_of ref_connected) i else [])" by blast
  from session_bytes_delivered [OF ref_env ref_buflen this, of 0] w(2,3) rb [of 0]
  have "heard 0 [] ([] @ ev_ready ref_view (events (world_of ?s))) @ leftover ref_view (client_map (link_list (world_of ?s)) ! 0) = [7, 8]"
    by simp
  moreover from w(2) have "opened ref_view (world_of ?s) 0" by simp
  ultimately show ?thesis using run by blast
qed

end
