(* ===== verification/Svl_Replies.thy ===== *)
theory Svl_Replies
  imports Svl_Conversation
begin

text \<open>
  Close commands and close events, over whole runs: a close event carries the identifier of a close command
  that the main thread has queued for this client (\<^verbatim>\<open>svl_service_cmd_close\<close>, \<^verbatim>\<open>handle_cmd_close\<close>,
  \<^verbatim>\<open>on_close_link_cb\<close>), and no command is answered twice, although links are used again.
\<close>

section \<open>The identifier kept in a link\<close>

definition is_close :: "'t tn_event \<Rightarrow> bool" where
  "is_close e \<longleftrightarrow> ev_type e = TN_EVENT_CLIENT_CLOSE"

text \<open>
  Compared with the world \<open>w\<close>, no link has been marked with a close command and no close event has been
  produced; a link that was free and is in use now has been reset.
\<close>

definition unmarked :: "'t ext \<Rightarrow> 't view \<Rightarrow> ('t, 'x) world_scheme \<Rightarrow> ('t, 'y) world_scheme \<Rightarrow> bool" where
  "unmarked E V w f \<longleftrightarrow>
     length (client_map (link_list f)) = length (client_map (link_list w)) \<and>
     (\<forall>j < length (client_map (link_list w)). j \<notin> set (link_free V (link_list f)) \<longrightarrow>
        cmd_close_id (client_map (link_list f) ! j) = TN_CMD_INVALID E \<or>
        j \<notin> set (link_free V (link_list w)) \<and>
          cmd_close_id (client_map (link_list f) ! j) = cmd_close_id (client_map (link_list w) ! j)) \<and>
     filter is_close (ev_ready V (events f)) = filter is_close (ev_ready V (events w))"

lemma unmarked_same: "link_list w' = link_list w \<Longrightarrow> events w' = events w \<Longrightarrow> unmarked E V w w'"
  by (simp add: unmarked_def)

lemma unmarked_cong:
  "link_list f' = link_list f \<Longrightarrow> events f' = events f \<Longrightarrow> unmarked E V w f' = unmarked E V w f"
  by (simp add: unmarked_def)

lemma unmarked_upd:
  assumes "\<And>l. cmd_close_id (g l) = cmd_close_id l"
  shows "unmarked E V w (upd_link i g f) = unmarked E V w f"
proof -
  have "cmd_close_id ((client_map (link_list f))[i := g (client_map (link_list f) ! i)] ! j) = cmd_close_id (client_map (link_list f) ! j)"
    if "j < length (client_map (link_list f))" for j
    using that assms by (cases "i = j") simp_all
  then show ?thesis by (auto simp: unmarked_def upd_link_def)
qed

text \<open>Taking a link off the free list resets the identifier; putting it back forgets it.\<close>

lemma unmarked_open:
  assumes laws: "list_laws E V" and f: "unmarked E V w f"
    and run: "svl_link_list_open E (link_list f) out = Some (r, out', l)"
  shows "unmarked E V w (f\<lparr>link_list := l\<rparr>)"
proof -
  obtain q p lf where pop: "tn_list_ptr_pop_back E (client_list_free (link_list f)) out = (q, p, lf)"
    by (cases "tn_list_ptr_pop_back E (client_list_free (link_list f)) out") auto
  show ?thesis
  proof (cases "link_free V (link_list f) = []")
    case True
    from list_pop_empty_law [OF laws pop True] run pop have "l = (link_list f)\<lparr>client_list_free := lf\<rparr>" "list_elems V lf = []"
      by (auto simp: svl_link_list_open_def Let_def)
    with True f show ?thesis by (simp add: unmarked_def)
  next
    case False
    let ?i = "last (link_free V (link_list f))" and ?m = "client_map (link_list f)"
    from list_pop_law [OF laws pop False] run pop have l: "client_map l = ?m[?i := (?m ! ?i)
          \<lparr>cmd_open_id := TN_CMD_INVALID E, cmd_close_id := TN_CMD_INVALID E\<rparr>]" "client_list_free l = lf"
      and lf: "list_elems V lf = butlast (link_free V (link_list f))"
      by (auto simp: svl_link_list_open_def Let_def set_link_def split: if_splits)
    have "set (link_free V (link_list f)) = insert ?i (set (list_elems V lf))" using lf set_butlast_last [OF False] by simp
    then have "j \<notin> set (link_free V (link_list f))" if "j \<notin> set (link_free V l)" "j \<noteq> ?i" for j
      using that l(2) by auto
    moreover have "cmd_close_id (client_map l ! j) = (if j = ?i then TN_CMD_INVALID E else cmd_close_id (?m ! j))" if "j < length ?m" for j
      using that by (cases "j = ?i") (simp_all add: l)
    ultimately show ?thesis using f by (auto simp: unmarked_def l(1))
  qed
qed

lemma unmarked_close:
  assumes laws: "list_laws E V" and f: "unmarked E V w f"
  shows "unmarked E V w (f\<lparr>link_list := snd (svl_link_list_close E (link_list f) i)\<rparr>)"
proof -
  obtain r l where push: "tn_list_ptr_push_back E (client_list_free (link_list f)) i = (r, l)" by fastforce
  from f list_push_law(2) [OF laws push] show ?thesis
    by (auto simp: unmarked_def svl_link_list_close_def push Let_def)
qed

section \<open>Connections\<close>

definition conn_unmarked :: "'t ext \<Rightarrow> 't view \<Rightarrow> 't world \<Rightarrow> 't frame \<Rightarrow> bool" where
  "conn_unmarked E V w f \<longleftrightarrow> unmarked E V w f \<and> (\<forall>e. open_evt f = Some e \<longrightarrow> ev_type e = TN_EVENT_CLIENT_OPEN)"

lemma conn_unmarked_simps [simp]:
  "conn_unmarked E V w (f\<lparr>log := lg\<rparr>) = conn_unmarked E V w f"
  "conn_unmarked E V w (f\<lparr>handle_data := hd'\<rparr>) = conn_unmarked E V w f"
  "conn_unmarked E V w (f\<lparr>req_data := rd\<rparr>) = conn_unmarked E V w f"
  "conn_unmarked E V w (f\<lparr>client_handle := h\<rparr>) = conn_unmarked E V w f"
  "conn_unmarked E V w (f\<lparr>connect_req := q\<rparr>) = conn_unmarked E V w f"
  "conn_unmarked E V w (f\<lparr>handle_is_init := b\<rparr>) = conn_unmarked E V w f"
  "conn_unmarked E V w (f\<lparr>link_ptr := i\<rparr>) = conn_unmarked E V w f"
  "conn_unmarked E V w (f\<lparr>sock_addr := a\<rparr>) = conn_unmarked E V w f"
  by (simp_all add: conn_unmarked_def unmarked_def)

lemma outcome_conn:
  assumes "\<And>f r f'. conn_unmarked E V w f \<Longrightarrow> p f = Some (r, f') \<Longrightarrow> conn_unmarked E V w f'"
  shows "outcome (conn_unmarked E V w) p (conn_unmarked E V w) (unmarked E V w)"
proof (rule outcomeI)
  fix f r f' assume "conn_unmarked E V w f" and "p f = Some (r, f')"
  from assms [OF this] show "if r = TN_SUCCESS then conn_unmarked E V w f' else unmarked E V w f'"
    by (simp add: conn_unmarked_def)
qed

text \<open>The statements that change neither links nor events.\<close>

lemma outcome_conn_other:
  "outcome (conn_unmarked E V w) (acquire E b n (\<lambda>p f. f\<lparr>client_handle := p\<rparr>)) (conn_unmarked E V w) (unmarked E V w)"
  "outcome (conn_unmarked E V w) (acquire E b n (\<lambda>p f. f\<lparr>connect_req := p\<rparr>)) (conn_unmarked E V w) (unmarked E V w)"
  "outcome (conn_unmarked E V w) (assign (\<lambda>f. f\<lparr>handle_is_init := True\<rparr>)) (conn_unmarked E V w) (unmarked E V w)"
  "outcome (conn_unmarked E V w) (with_handle (\<lambda>h. uv_do E (c h))) (conn_unmarked E V w) (unmarked E V w)"
  "outcome (conn_unmarked E V w) (getpeername E) (conn_unmarked E V w) (unmarked E V w)"
  "outcome (conn_unmarked E V w) (getsockname E) (conn_unmarked E V w) (unmarked E V w)"
  "outcome (conn_unmarked E V w) set_handle_data (conn_unmarked E V w) (unmarked E V w)"
  "outcome (conn_unmarked E V w) set_req_data (conn_unmarked E V w) (unmarked E V w)"
  "outcome (conn_unmarked E V w) (tcp_connect E cmd) (conn_unmarked E V w) (unmarked E V w)"
  by (rule outcome_conn; auto simp: acquire_def assign_def with_handle_def uv_do_def getpeername_def getsockname_def
      set_handle_data_def set_req_data_def tcp_connect_def Let_def split: option.splits)+

text \<open>Those that assign to the link.\<close>

lemma open_evt_upd_link: "open_evt (upd_link i g f) = open_evt f"
  by (simp add: upd_link_def)

lemma outcome_conn_link:
  assumes "\<And>f l. cmd_close_id (g f l) = cmd_close_id l"
  shows "outcome (conn_unmarked E V w) (with_link (\<lambda>i f. Some (TN_SUCCESS, upd_link i (g f) f))) (conn_unmarked E V w) (unmarked E V w)"
  using assms
  by (intro outcome_conn) (auto simp: with_link_def conn_unmarked_def unmarked_upd open_evt_upd_link
      split: option.splits if_splits)

lemma outcome_conn_convert:
  "outcome (conn_unmarked E V w) (convert_remote E) (conn_unmarked E V w) (unmarked E V w)"
  by (rule outcome_conn)
    (auto simp: convert_remote_def with_link_def conn_unmarked_def unmarked_upd open_evt_upd_link
      split: option.splits if_splits prod.splits)

lemma outcome_conn_init:
  "outcome (conn_unmarked E V w) init_inbound_link (conn_unmarked E V w) (unmarked E V w)"
  "outcome (conn_unmarked E V w) (init_outbound_link c) (conn_unmarked E V w) (unmarked E V w)"
  "outcome (conn_unmarked E V w) (with_link (\<lambda>i f. Some (TN_SUCCESS, upd_link i (\<lambda>l. l\<lparr>link_state := st\<rparr>) f)))
     (conn_unmarked E V w) (unmarked E V w)"
  unfolding init_inbound_link_def init_outbound_link_def by (rule outcome_conn_link, simp)+

lemma outcome_conn_open_link:
  assumes "list_laws E V"
  shows "outcome (conn_unmarked E V w) (open_link E) (conn_unmarked E V w) (unmarked E V w)"
proof (rule outcome_conn)
  fix f r f' assume f: "conn_unmarked E V w f" and run: "open_link E f = Some (r, f')"
  then obtain out l where "svl_link_list_open E (link_list f) (link_ptr f) = Some (r, out, l)" "f' = f\<lparr>link_list := l\<rparr>\<lparr>link_ptr := out\<rparr>"
    by (auto simp: open_link_def split: option.splits)
  with f unmarked_open [OF assms _ this(1), of w] show "conn_unmarked E V w f'"
    by (simp only: conn_unmarked_simps) (simp add: conn_unmarked_def)
qed

text \<open>Those that fetch and queue the event.\<close>

lemma outcome_conn_event:
  assumes laws: "event_laws E V"
  shows "outcome (conn_unmarked E V w) (pop_open_evt E) (conn_unmarked E V w) (unmarked E V w)"
    and "outcome (conn_unmarked E V w) (fill_open_evt ob) (conn_unmarked E V w) (unmarked E V w)"
    and "outcome (conn_unmarked E V w) (push_open_evt E) (conn_unmarked E V w) (unmarked E V w)"
proof -
  show "outcome (conn_unmarked E V w) (pop_open_evt E) (conn_unmarked E V w) (unmarked E V w)"
  proof (rule outcomeI)
    fix f r f' assume f: "conn_unmarked E V w f" and run: "pop_open_evt E f = Some (r, f')"
    then obtain out l where pop: "tn_event_list_free_pop E TN_EVENT_CLIENT_OPEN (events f) = (r, out, l)"
      and f': "f' = f\<lparr>events := l, open_evt := out\<rparr>" by (auto simp: pop_open_evt_def split: prod.splits)
    have "unmarked E V w f'" using f event_pop_law(2) [OF laws pop] by (simp add: f' conn_unmarked_def unmarked_def)
    then show "if r = TN_SUCCESS then conn_unmarked E V w f' else unmarked E V w f'"
      using event_pop_law(6) [OF laws pop] by (auto simp: conn_unmarked_def f')
  qed
  show "outcome (conn_unmarked E V w) (fill_open_evt ob) (conn_unmarked E V w) (unmarked E V w)"
    by (rule outcome_conn) (auto simp: fill_open_evt_def with_link_def Let_def conn_unmarked_def unmarked_def
        split: option.splits if_splits)
  show "outcome (conn_unmarked E V w) (push_open_evt E) (conn_unmarked E V w) (unmarked E V w)"
  proof (rule outcome_conn)
    fix f r f' assume f: "conn_unmarked E V w f" and run: "push_open_evt E f = Some (r, f')"
    then obtain e l where e: "open_evt f = Some e" and push: "tn_event_list_ready_push E (events f) e = (r, l)"
      and f': "f' = f\<lparr>events := l\<rparr>" by (auto simp: push_open_evt_def split: option.splits prod.splits)
    from laws push have "ev_ready V l = (if r = TN_SUCCESS then ev_ready V (events f) @ [e] else ev_ready V (events f))"
      unfolding event_laws_def by metis
    with f e show "conn_unmarked E V w f'" by (simp add: f' conn_unmarked_def unmarked_def is_close_def)
  qed
qed

lemmas outcome_conn_all = outcome_conn_other outcome_conn_convert outcome_conn_init outcome_conn_open_link outcome_conn_event

lemma enter_unmarked: "conn_unmarked E V w (enter h q i w)"
  by (simp add: enter_def conn_unmarked_def unmarked_def world.defs frame.defs)

lemma leave_unmarked: "unmarked E V w (leave f) = unmarked E V w f"
  by (simp add: leave_def unmarked_def world.defs)

lemma guards_unmarked:
  assumes "\<And>p. p \<in> set ps \<Longrightarrow> outcome (conn_unmarked E V w) p (conn_unmarked E V w) (unmarked E V w)"
    and "guards ps (enter h q i w) = Some (r, f)"
  shows "unmarked E V w f"
  using outcomeD [OF outcome_guards [OF assms(1)] enter_unmarked assms(2)]
  by (simp add: conn_unmarked_def split: if_splits)

lemma inbound_unmarked:
  assumes env: "env_ok E V" and run: "on_inbound_connection_cb E st w = Some w'"
  shows "unmarked E V w w'"
proof (cases "st = TN_SUCCESS")
  case False
  with run show ?thesis by (simp add: on_inbound_connection_cb_def unmarked_same)
next
  case True
  with run obtain r f where g: "guards (inbound_stmts E) (enter None None None w) = Some (r, f)"
    and w': "w' = leave (if r = TN_SUCCESS then f else inbound_cleanup f)"
    by (auto simp: on_inbound_connection_cb_def split: option.splits if_splits)
  have "unmarked E V w f"
    by (rule guards_unmarked [OF _ g]) (auto simp: inbound_stmts_def outcome_conn_all env_okD(1,4) [OF env])
  moreover have "unmarked E V w (inbound_cleanup f) = unmarked E V w f"
    by (auto simp: inbound_cleanup_def uv_close_def unmarked_cong [of "_\<lparr>log := _\<rparr>"] unmarked_upd split: option.splits)
  ultimately show ?thesis by (simp add: w' leave_unmarked)
qed

lemma outbound_unmarked:
  assumes env: "env_ok E V" and run: "on_outbound_connection_cb E q h st w = Some w'"
  shows "unmarked E V w w'"
proof -
  from run obtain i r f where g: "guards (outbound_stmts E) (enter (Some h) (Some q) (Some i) w) = Some (r, f)"
    and w': "w' = (if r = TN_SUCCESS then release_mem (Some q) (leave f)
      else uv_close h (Some On_close_link_cb) (upd_link i (\<lambda>l. l\<lparr>link_state := SVL_LINK_CLOSING\<rparr>) (release_mem (Some q) (leave f))))"
    by (auto simp: on_outbound_connection_cb_def split: option.splits if_splits)
  have "unmarked E V w f"
    by (rule guards_unmarked [OF _ g]) (auto simp: outbound_stmts_def outcome_conn_all env_okD(4) [OF env])
  then show ?thesis
    by (simp add: w' uv_close_def release_mem_def unmarked_upd leave_unmarked unmarked_cong [of "_\<lparr>log := _\<rparr>"])
qed

section \<open>Reading\<close>

definition close_ids :: "('t, 'x) world_scheme \<Rightarrow> u64 list \<times> 't" where
  "close_ids w = (map cmd_close_id (client_map (link_list w)), client_list_free (link_list w))"

lemma close_ids_upd:
  assumes "\<And>l. cmd_close_id (g l) = cmd_close_id l"
  shows "close_ids (upd_link i g w) = close_ids w"
  using assms
  by (cases "i < length (client_map (link_list w))") (auto simp: close_ids_def upd_link_def map_update list_update_same_conv list_update_beyond)

lemma close_ids_unmarked:
  assumes "close_ids w' = close_ids w" and "filter is_close (ev_ready V (events w')) = filter is_close (ev_ready V (events w))"
  shows "unmarked E V w w'"
proof -
  from assms(1) have m: "map cmd_close_id (client_map (link_list w')) = map cmd_close_id (client_map (link_list w))"
    and fr: "client_list_free (link_list w') = client_list_free (link_list w)" by (simp_all add: close_ids_def)
  from map_eq_imp_length_eq [OF m] m have "cmd_close_id (client_map (link_list w') ! j) = cmd_close_id (client_map (link_list w) ! j)"
    if "j < length (client_map (link_list w))" for j
    using that by (metis nth_map)
  with assms(2) map_eq_imp_length_eq [OF m] fr show ?thesis by (simp add: unmarked_def)
qed

lemma close_ids_simps [simp]:
  "close_ids (w\<lparr>events := l\<rparr>) = close_ids w" "close_ids (w\<lparr>log := lg\<rparr>) = close_ids w" "close_ids (w\<lparr>stats := st\<rparr>) = close_ids w"
  "close_ids (w\<lparr>pool_read := p\<rparr>) = close_ids w"
  by (simp_all add: close_ids_def)

lemma on_recv_close_ids:
  "on_recv_alloc_cb E h w = Some (room, w') \<Longrightarrow> close_ids w' = close_ids w"
  "close_ids (recv_cleanup E h i ret b w) = close_ids w"
  "on_recv_cb E h nread buf w = Some w' \<Longrightarrow> close_ids w' = close_ids w"
proof -
  show "on_recv_alloc_cb E h w = Some (room, w') \<Longrightarrow> close_ids w' = close_ids w"
    by (auto simp: on_recv_alloc_cb_def Let_def close_ids_upd split: option.splits prod.splits if_splits)
  have cl: "close_ids (recv_cleanup E h i ret b w) = close_ids w" for i ret b and w :: "'a world"
    by (simp add: recv_cleanup_def Let_def close_ids_upd uv_close_def)
  then show "close_ids (recv_cleanup E h i ret b w) = close_ids w" .
  show "on_recv_cb E h nread buf w = Some w' \<Longrightarrow> close_ids w' = close_ids w"
    by (auto simp: on_recv_cb_def Let_def close_ids_upd cl split: option.splits prod.splits if_splits)
qed

lemma recv_unmarked:
  assumes env: "env_ok E V" and inv: "io_inv E V ne nb nc writes w" and h: "reading (log w) h"
    and run: "recv_cbs E h answer w = Some w'"
  shows "unmarked E V w w'"
proof -
  from run obtain room w1 nread buf where alloc: "on_recv_alloc_cb E h w = Some (room, w1)" and recv: "on_recv_cb E h nread buf w1 = Some w'"
    by (auto simp: recv_cbs_def split: option.splits prod.splits)
  from on_recv_alloc_cb_inv [OF env inv h] alloc h have "io_inv E V ne nb nc writes w1" "reading (log w1) h" by auto
  from on_recv_speaks [OF env this recv] obtain es where es: "speaks V w1 es w'" "\<forall>e \<in> set es. is_read e" by blast
  with on_recv_alloc_speaks [OF alloc, of V] have "ev_ready V (events w') = ev_ready V (events w) @ es" by (simp add: speaks_def)
  moreover have "filter is_close es = []" using es(2) by (auto simp: filter_empty_conv is_close_def is_read_def)
  ultimately show ?thesis
    using on_recv_close_ids(1) [OF alloc] on_recv_close_ids(3) [OF recv] by (intro close_ids_unmarked) simp_all
qed

section \<open>Commands\<close>

lemma cmd_open_unmarked:
  assumes env: "env_ok E V" and run: "handle_cmd_open E c w = Some w'"
  shows "unmarked E V w w'"
proof -
  from run obtain r f where g: "guards (cmd_open_stmts E c) (enter None None None w) = Some (r, f)"
    and w': "w' = leave (if r = TN_SUCCESS then f else cmd_open_cleanup E f)"
    by (auto simp: handle_cmd_open_def split: option.splits)
  have f: "unmarked E V w f"
    by (rule guards_unmarked [OF _ g]) (auto simp: cmd_open_stmts_def outcome_conn_all env_okD(1) [OF env])
  have "unmarked E V w (f\<lparr>link_list := snd (svl_link_list_close E (link_list f) i)\<rparr>)" for i
    using unmarked_close [OF env_okD(1) [OF env] f] .
  then have "unmarked E V w (cmd_open_cleanup E f)"
    using f by (auto simp: cmd_open_cleanup_def Let_def unmarked_def uv_close_def release_mem_def split: option.splits)
  with f show ?thesis by (simp add: w' leave_unmarked)
qed

text \<open>A close command for the client \<open>cid\<close> with the identifier \<open>k\<close>, and the event that answers it.\<close>

definition asks_close :: "u64 \<Rightarrow> u64 \<Rightarrow> tn_cmd \<Rightarrow> bool" where
  "asks_close cid k c \<longleftrightarrow> cmd_type c = TN_CMD_CLIENT_CLOSE \<and> cmd_client_id c = cid \<and> cmd_id c = k"

definition tells_close :: "u64 \<Rightarrow> u64 \<Rightarrow> 't tn_event \<Rightarrow> bool" where
  "tells_close cid k e \<longleftrightarrow> is_close e \<and> ev_client_id e = cid \<and> ev_cmd_id e = k"

abbreviation asked_times :: "u64 \<Rightarrow> u64 \<Rightarrow> tn_cmd list \<Rightarrow> nat" where
  "asked_times cid k cs \<equiv> length (filter (asks_close cid k) cs)"

abbreviation told_times :: "u64 \<Rightarrow> u64 \<Rightarrow> 't tn_event list \<Rightarrow> nat" where
  "told_times cid k es \<equiv> length (filter (tells_close cid k) es)"

text \<open>The links in use that will be reported with the identifier \<open>k\<close> when they are closed: one at most.\<close>

definition marked :: "'t view \<Rightarrow> ('t, 'x) world_scheme \<Rightarrow> u64 \<Rightarrow> u64 \<Rightarrow> nat set" where
  "marked V w cid k =
     {j. j < length (client_map (link_list w)) \<and> j \<notin> set (link_free V (link_list w)) \<and> of_nat j = cid \<and>
         cmd_close_id (client_map (link_list w) ! j) = k}"

lemma marked_finite [simp]: "finite (marked V w cid k)"
  by (rule finite_subset [of _ "{..<length (client_map (link_list w))}"]) (auto simp: marked_def)

lemma marked_same: "link_list w' = link_list w \<Longrightarrow> marked V w' cid k = marked V w cid k"
  by (simp add: marked_def)

lemma marked_cmds [simp]: "marked V (w\<lparr>cmds := l\<rparr>) cid k = marked V w cid k"
  by (simp add: marked_def)

lemma marked_unmarked:
  assumes "unmarked E V w w'" and "k \<noteq> TN_CMD_INVALID E"
  shows "marked V w' cid k \<subseteq> marked V w cid k"
proof
  fix j assume "j \<in> marked V w' cid k"
  with assms show "j \<in> marked V w cid k" unfolding marked_def unmarked_def by (metis (mono_tags, lifting) mem_Collect_eq)
qed

text \<open>What a command adds: the close command it is.\<close>

lemma handle_cmd_marks:
  assumes env: "env_ok E V" and k: "k \<noteq> TN_CMD_INVALID E" and run: "handle_cmd E c w = Some w'"
  shows "card (marked V w' cid k) \<le> card (marked V w cid k) + asked_times cid k [c]"
proof (cases "cmd_type c")
  case TN_CMD_CLIENT_OPEN
  with run have "handle_cmd_open E c w = Some w'" by (simp add: handle_cmd_def)
  from card_mono [OF marked_finite marked_unmarked [OF cmd_open_unmarked [OF env this] k]] show ?thesis by (rule trans_le_add1)
next
  case TN_CMD_CLIENT_CLOSE
  with run have run: "handle_cmd_close E c w = Some w'" by (simp add: handle_cmd_def)
  show ?thesis
  proof (cases "w' = w")
    case False
    let ?i = "unat (cmd_client_id c)"
    from False run have w': "link_list w' = link_list (upd_link ?i (\<lambda>l. l\<lparr>cmd_close_id := cmd_id c, link_state := SVL_LINK_CLOSING\<rparr>) w)"
      by (auto simp: handle_cmd_close_def svl_link_list_get_def uv_close_def split: option.splits if_splits)
    have upd: "cmd_close_id (client_map (link_list w') ! j) =
        (if j = ?i then cmd_id c else cmd_close_id (client_map (link_list w) ! j))" if "j < length (client_map (link_list w))" for j
      using that by (cases "j = ?i") (simp_all add: w' upd_link_def)
    have len: "length (client_map (link_list w')) = length (client_map (link_list w))"
      "link_free V (link_list w') = link_free V (link_list w)" by (simp_all add: w' upd_link_def)
    show ?thesis
    proof (cases "asks_close cid k c")
      case True
      have "marked V w' cid k \<subseteq> insert ?i (marked V w cid k)" using upd len by (auto simp: marked_def split: if_splits)
      from card_mono [OF _ this] card_insert_le_m1 [of "Suc (card (marked V w cid k))" "marked V w cid k" ?i] True
      show ?thesis by simp
    next
      case other: False
      have "marked V w' cid k \<subseteq> marked V w cid k"
        using upd len other TN_CMD_CLIENT_CLOSE by (auto simp: marked_def asks_close_def split: if_splits)
      from card_mono [OF marked_finite this] show ?thesis by (rule trans_le_add1)
    qed
  qed simp
next
  case TN_CMD_CLIENT_SEND
  with run have "link_list w' = link_list w"
    by (auto simp: handle_cmd_def handle_cmd_send_def Let_def split: option.splits prod.splits if_splits)
  then show ?thesis using marked_same [of w' w V cid k] by simp
qed (use run in \<open>simp add: handle_cmd_def\<close>)

lemma asked_times_mset:
  assumes "mset cs = add_mset c (mset cs')"
  shows "asked_times cid k cs = asked_times cid k [c] + asked_times cid k cs'"
proof -
  have "mset cs = mset (c # cs')" using assms by simp
  then have "mset (filter (asks_close cid k) cs) = mset (filter (asks_close cid k) (c # cs'))" by simp
  from mset_eq_length [OF this] show ?thesis by simp
qed

lemma on_check_marks:
  assumes env: "env_ok E V" and k: "k \<noteq> TN_CMD_INVALID E" and run: "on_check_cb E w = Some w'"
  shows "card (marked V w' cid k) + asked_times cid k (cmd_ready V (cmds w')) \<le>
    card (marked V w cid k) + asked_times cid k (cmd_ready V (cmds w))"
proof -
  have "env_ok E V \<longrightarrow> k \<noteq> TN_CMD_INVALID E \<longrightarrow> card (marked V w' cid k) + asked_times cid k (cmd_ready V (cmds w')) \<le>
      card (marked V w cid k) + asked_times cid k (cmd_ready V (cmds w))"
  proof (rule on_check_cb.raw_induct [OF _ run, where P = "\<lambda>E w w'. env_ok E V \<longrightarrow> k \<noteq> TN_CMD_INVALID E \<longrightarrow>
      card (marked V w' cid k) + asked_times cid k (cmd_ready V (cmds w')) \<le>
      card (marked V w cid k) + asked_times cid k (cmd_ready V (cmds w))"], intro impI, goal_cases)
    case (1 check E w w')
    obtain r out l where pop: "tn_cmd_list_ready_pop_back E (cmds w) = (r, out, l)"
      by (cases "tn_cmd_list_ready_pop_back E (cmds w)") auto
    note law = cmd_ready_pop_law [OF env_okD(5) [OF 1(3)] pop]
    show ?case
    proof (cases "r = TN_SUCCESS")
      case False
      with 1(2) pop have "w' = w\<lparr>cmds := l\<rparr>" by simp
      with law(4) [OF False] show ?thesis by simp
    next
      case True
      with law(5) obtain c where c: "out = Some c" "mset (cmd_ready V (cmds w)) = add_mset c (mset (cmd_ready V l))" by blast
      from 1(2) pop True c(1) obtain w1 where w1: "handle_cmd E c (w\<lparr>cmds := l\<rparr>) = Some w1"
        and rec: "check E (w1\<lparr>cmds := snd (tn_cmd_list_free_push E (cmds w1) c)\<rparr>) = Some w'"
        by (auto simp: Let_def split: option.splits)
      let ?w2 = "w1\<lparr>cmds := snd (tn_cmd_list_free_push E (cmds w1) c)\<rparr>"
      have ready: "cmd_ready V (cmds ?w2) = cmd_ready V l"
        using handle_cmd_keep [OF w1] cmd_free_push_ready [OF env_okD(5) [OF 1(3)]] by simp
      have "card (marked V w' cid k) + asked_times cid k (cmd_ready V (cmds w')) \<le>
          card (marked V w1 cid k) + asked_times cid k (cmd_ready V l)"
        using 1(1) [OF rec] 1(3,4) ready by simp
      moreover have "card (marked V w1 cid k) \<le> card (marked V w cid k) + asked_times cid k [c]"
        using handle_cmd_marks [OF 1(3,4) w1] by simp
      ultimately show ?thesis unfolding asked_times_mset [OF c(2)] by simp
    qed
  qed
  with env k show ?thesis by blast
qed

section \<open>The end of a link\<close>

text \<open>The close event takes the mark off the link, which is free afterwards.\<close>

lemma on_close_link_marks:
  assumes env: "env_ok E V" and inv: "io_inv E V ne nb nc writes w" and k: "k \<noteq> TN_CMD_INVALID E"
    and h: "status (log w) h = Closing (Some On_close_link_cb)" and run: "on_close_link_cb E h w = Some w'"
  shows "\<exists>es. ev_ready V (events w') = ev_ready V (events w) @ es \<and>
    told_times cid k es + card (marked V w' cid k) \<le> card (marked V w cid k)"
proof -
  note list = links_invD(1) [OF io_invD(1) [OF inv]]
  from links_ok_closing [OF links_invD(3) [OF io_invD(1) [OF inv]] h] obtain i where
    i: "link_held V w SVL_LINK_CLOSING i" "link_live w i h" by blast
  let ?m = "client_map (link_list w)"
  have il: "i < length ?m" "i \<notin> set (link_free V (link_list w))" "link_id (?m ! i) = of_nat i" "i < unat (clients_max (link_list w))"
    using i(1) list by (auto simp: held_def link_list_inv_def)
  let ?g = "\<lambda>l. l\<lparr>link_state := SVL_LINK_CLOSED, read_buffer := None\<rparr>"
  let ?w = "upd_link i ?g w" and ?list = "(link_list w)\<lparr>client_map := ?m[i := ?g (?m ! i)]\<rparr>"
  obtain r out l where pop: "tn_event_list_free_pop E TN_EVENT_CLIENT_CLOSE (events w) = (r, out, l)"
    by (cases "tn_event_list_free_pop E TN_EVENT_CLIENT_CLOSE (events w)") auto
  note law = event_pop_law [OF env_okD(4) [OF env] pop]
  have "unmarked E V w ?w" using unmarked_upd [of ?g E V w i w] by (simp add: unmarked_same)
  from marked_unmarked [OF this k] have sub: "marked V ?w cid k \<subseteq> marked V w cid k" .
  show ?thesis
  proof (cases "r = TN_SUCCESS")
    case False
    from run i il held_deref [OF i(1)] pop False
    have links: "link_list w' = link_list ?w \<and> events w' = l"
      by (cases "read_buffer (?m ! i)") (auto simp: on_close_link_cb_def Let_def live_def upd_link_def drop_no_buffer release_mem_def)
    then have "marked V w' cid k \<subseteq> marked V w cid k" using sub marked_same [of w' ?w V cid k] by simp
    with links law(2) card_mono [OF marked_finite this] show ?thesis by simp
  next
    case True
    with law(6) obtain e where e: "out = Some e" "ev_type e = TN_EVENT_CLIENT_CLOSE" by blast
    let ?e = "e\<lparr>ev_client_id := link_id (?m ! i), ev_error_code := TN_SUCCESS, ev_cmd_id := cmd_close_id (?m ! i)\<rparr>"
    have "link_list_inv E V ?list" using list by (rule link_list_inv_update) simp
    from close_result [OF this, of i] il obtain lf where
      cl: "svl_link_list_close E ?list i = (TN_SUCCESS, ?list\<lparr>client_list_free := lf\<rparr>)"
      and lf: "list_elems V lf = link_free V (link_list w) @ [i]" by auto
    from run i il held_deref [OF i(1)] pop True e cl
    have links: "link_list w' = ?list\<lparr>client_list_free := lf\<rparr> \<and> events w' = snd (tn_event_list_ready_push E l ?e)"
      by (cases "read_buffer (?m ! i)") (auto simp: on_close_link_cb_def Let_def live_def upd_link_def drop_no_buffer release_mem_def)
    have "marked V w' cid k = marked V ?w cid k - {i}"
      using lf by (auto simp: marked_def links upd_link_def)
    with sub have sub': "marked V w' cid k \<subseteq> marked V w cid k - {i}" by blast
    have told: "told_times cid k [?e] + card (marked V w cid k - {i}) \<le> card (marked V w cid k)"
    proof (cases "tells_close cid k ?e")
      case True
      with il have "i \<in> marked V w cid k" by (simp add: tells_close_def marked_def)
      from card_Suc_Diff1 [OF marked_finite this] True show ?thesis by simp
    qed (simp add: card_Diff1_le)
    obtain r2 l2 where push: "tn_event_list_ready_push E l ?e = (r2, l2)" by fastforce
    with env_okD(4) [OF env] have "ev_ready V l2 = (if r2 = TN_SUCCESS then ev_ready V l @ [?e] else ev_ready V l)"
      unfolding event_laws_def by metis
    with links push law(2) have "\<exists>es. ev_ready V (events w') = ev_ready V (events w) @ es \<and> (es = [] \<or> es = [?e])"
      by (cases "r2 = TN_SUCCESS") simp_all
    moreover have "card (marked V w' cid k) \<le> card (marked V w cid k - {i})" using card_mono [OF _ sub'] by simp
    ultimately show ?thesis using told by fastforce
  qed
qed

section \<open>Steps\<close>

abbreviation queued :: "'t view \<Rightarrow> 't sys \<Rightarrow> tn_cmd list" where
  "queued V s \<equiv> cmd_ready V (cmds (world_of s))"

lemma io_step_marks:
  assumes env: "env_ok E V" and inv: "sys_inv E V s" and step: "io_step E V s s'" and k: "k \<noteq> TN_CMD_INVALID E"
  shows "\<exists>es. waiting V s' = waiting V s @ es \<and>
    told_times cid k es + card (marked V (world_of s') cid k) + asked_times cid k (queued V s') \<le>
      card (marked V (world_of s) cid k) + asked_times cid k (queued V s)"
proof -
  have un: ?thesis if u: "unmarked E V (world_of s) (world_of s')" and c: "cmds (world_of s') = cmds (world_of s)"
  proof -
    from io_step_appends [OF env_okD(4) [OF env] step] obtain es where es: "waiting V s' = waiting V s @ es" by (auto simp: appends_def)
    with u have "filter is_close es = []" by (simp add: unmarked_def)
    then have "filter (tells_close cid k) es = []" by (auto simp: filter_empty_conv tells_close_def)
    with es c card_mono [OF marked_finite marked_unmarked [OF u k]] show ?thesis by auto
  qed
  have same: ?thesis if "link_list (world_of s') = link_list (world_of s)" "events (world_of s') = events (world_of s)"
    "cmds (world_of s') = cmds (world_of s)"
    using that un unmarked_same by blast
  note inv0 = sys_invD(1) [OF inv]
  from step show ?thesis
  proof cases
    case (inbound st w)
    with un inbound_unmarked [OF env inbound(2)] on_inbound_keep [OF inbound(2)] show ?thesis by simp
  next
    case (outbound q h st w)
    with un outbound_unmarked [OF env outbound(3)] on_outbound_keep [OF outbound(3)] show ?thesis by simp
  next
    case (receive h answer w)
    have "cmds w = cmds (world_of s)"
      using receive(4) by (auto simp: recv_cbs_def dest!: on_recv_keep on_recv_alloc_keep split: option.splits prod.splits)
    with un recv_unmarked [OF env inv0 receive(2,4)] receive(1) show ?thesis by simp
  next
    case (sent q st w)
    then show ?thesis by (intro same) (auto simp: on_send_cb_def Let_def split: option.splits if_splits)
  next
    case (closed_link h w)
    with on_close_link_marks [OF env inv0 k closed_link(2,3), of cid] on_close_link_keep [OF closed_link(3)]
    show ?thesis by auto
  next
    case (closed_handle h)
    then show ?thesis by (intro same) (simp_all add: on_close_handle_cb_def release_mem_def)
  next
    case timer
    have "link_list (safe_close_uv_handle E p w) = link_list w" "events (safe_close_uv_handle E p w) = events w"
      "cmds (safe_close_uv_handle E p w) = cmds w" for p and w :: "'a world"
      by (simp_all add: safe_close_uv_handle_def uv_close_def split: option.splits)
    with timer show ?thesis by (intro same) (simp_all add: on_timer_cb_def Let_def)
  next
    case prepare
    then show ?thesis by (intro same) (simp_all add: on_prep_cb_def)
  next
    case (check w)
    with on_check_marks [OF env k check(2), of cid] on_check_events [OF check(2)] show ?thesis by simp
  next
    case (sigint sig)
    then show ?thesis
      by (intro same) (simp_all add: on_sigint_cb_def svl_service_stop_signal_def svl_service_set_state_def Let_def)
  qed
qed

lemma queue_cmd_appends:
  assumes laws: "cmd_laws E V" and run: "queue_cmd E ty fill w = Some (r, i, w')"
  shows "\<exists>cs. cmd_ready V (cmds w') = cmd_ready V (cmds w) @ cs"
proof -
  obtain q out l where pop: "tn_cmd_list_free_pop E ty (cmds w) = (q, out, l)"
    by (cases "tn_cmd_list_free_pop E ty (cmds w)") auto
  note law = cmd_pop_law(2) [OF laws pop]
  show ?thesis
  proof (cases "q = TN_SUCCESS")
    case False
    with run pop law show ?thesis by (auto simp: queue_cmd_def)
  next
    case True
    with run pop obtain c where c: "out = Some c" by (auto simp: queue_cmd_def Let_def split: option.splits)
    obtain q2 l2 where push: "tn_cmd_list_ready_push E l (fill c) = (q2, l2)" by fastforce
    from run pop True c push have "cmds w' = l2" by (auto simp: queue_cmd_def Let_def split: if_splits)
    with cmd_ready_push_law(3) [OF laws push] law show ?thesis by simp
  qed
qed

lemma release_event_cmds: "release_event E e w = Some w' \<Longrightarrow> cmds w' = cmds w"
  by (auto simp: release_event_def split: option.splits if_splits)

lemma release_events_cmds: "release_events E k i w = Some w' \<Longrightarrow> cmds w' = cmds w"
proof (induction k arbitrary: i w)
  case (Suc k)
  from Suc.prems obtain e w1 where w1: "release_event E e w = Some w1" "release_events E k (Suc i) w1 = Some w'"
    by (auto split: if_splits option.splits)
  from Suc.IH [OF w1(2)] release_event_cmds [OF w1(1)] show ?case by simp
qed simp

lemma main_step_queue:
  assumes "cmd_laws E V" and "main_step E s s'"
  shows "\<exists>cs. queued V s' = queued V s @ cs"
  using assms(2)
proof cases
  case (acquire_events r out n w)
  then have "cmds w = cmds (world_of s)" by (auto simp: svl_service_events_acquire_def Let_def split: prod.splits if_splits)
  with acquire_events(1) show ?thesis by simp
next
  case (release_events r w)
  then have "cmds w = cmds (world_of s)" by (auto simp: svl_service_events_release_def dest: release_events_cmds split: option.splits)
  with release_events(1) show ?thesis by simp
qed (auto simp: svl_service_cmd_open_def svl_service_cmd_close_def svl_service_cmd_send_def svl_service_stop_signal_def
    svl_service_set_state_def Let_def dest: queue_cmd_appends [OF assms(1)] split: if_splits prod.splits)

section \<open>Histories\<close>

text \<open>A history with the commands that have been queued so far; a step of the IO thread queues none.\<close>

definition reply_init :: "'t ext \<Rightarrow> 't view \<Rightarrow> 't history \<times> tn_cmd list \<Rightarrow> bool" where
  "reply_init E V x \<longleftrightarrow> (case x of (h, asked) \<Rightarrow> hist_init E V h \<and> asked = queued V (fst h))"

definition reply_step :: "'t ext \<Rightarrow> 't view \<Rightarrow> 't history \<times> tn_cmd list \<Rightarrow> 't history \<times> tn_cmd list \<Rightarrow> bool" where
  "reply_step E V x y \<longleftrightarrow>
     (case (x, y) of ((h, asked), (h', asked')) \<Rightarrow>
        hist_step E V h h' \<and> asked' = asked @ drop (length (queued V (fst h))) (queued V (fst h')))"

text \<open>
  Every close command is in the queue, or it has marked a link, or it has been answered by an event, or nothing
  has come of it.
\<close>

definition replies_inv :: "'t ext \<Rightarrow> 't view \<Rightarrow> u64 \<Rightarrow> u64 \<Rightarrow> 't history \<times> tn_cmd list \<Rightarrow> bool" where
  "replies_inv E V cid k x \<longleftrightarrow>
     (case x of ((s, made, got), asked) \<Rightarrow>
        sys_inv E V s \<and>
        told_times cid k made + card (marked V (world_of s) cid k) + asked_times cid k (queued V s) \<le> asked_times cid k asked)"

interpretation replies: invariant "reply_init E V" "reply_step E V"
  "\<lambda>x. env_ok E V \<and> k \<noteq> TN_CMD_INVALID E \<longrightarrow> replies_inv E V cid k x"
  for E :: "'t ext" and V :: "'t view" and cid :: u64 and k :: u64
proof (unfold_locales, goal_cases)
  case (1 x)
  obtain s made got asked where x: "x = ((s, made, got), asked)" by (metis prod.exhaust)
  show ?case
  proof
    assume env: "env_ok E V \<and> k \<noteq> TN_CMD_INVALID E"
    have start: "sys_init E V s" "made = []" "asked = queued V s" using 1 by (auto simp: reply_init_def hist_init_def x)
    have "marked V (world_of s) cid k = {}"
      if "set (link_free V (link_list (world_of s))) = {..<length (client_map (link_list (world_of s)))}"
      using that by (auto simp: marked_def)
    with sys_init_start [OF conjunct1 [OF env] start(1)] start show "replies_inv E V cid k x" by (simp add: replies_inv_def x)
  qed
next
  case (2 x y)
  obtain s made got asked s' made' got' asked' where
    x: "x = ((s, made, got), asked)" and y: "y = ((s', made', got'), asked')" by (metis prod.exhaust)
  from 2(2) have h: "hist_step E V (s, made, got) (s', made', got')"
    and a: "asked' = asked @ drop (length (queued V s)) (queued V s')" by (simp_all add: reply_step_def x y)
  show ?case
  proof
    assume env': "env_ok E V \<and> k \<noteq> TN_CMD_INVALID E"
    then have env: "env_ok E V" and k: "k \<noteq> TN_CMD_INVALID E" by simp_all
    from 2(1) env' have inv: "sys_inv E V s" and
      n: "told_times cid k made + card (marked V (world_of s) cid k) + asked_times cid k (queued V s) \<le> asked_times cid k asked"
      by (simp_all add: replies_inv_def x)
    from h show "replies_inv E V cid k y"
    proof cases
      case main
      from main_step_queue [OF env_okD(5) [OF env] main(3)] obtain cs where cs: "queued V s' = queued V s @ cs" ..
      have "marked V (world_of s') cid k = marked V (world_of s) cid k" by (rule marked_same) (rule main_step_links [OF main(3)])
      with main n main_step_inv [OF env inv main(3)] cs a show ?thesis by (simp add: replies_inv_def y)
    next
      case io
      from io_step_marks [OF env inv io(3) k, of cid] obtain es where es: "waiting V s' = waiting V s @ es"
        "told_times cid k es + card (marked V (world_of s') cid k) + asked_times cid k (queued V s') \<le>
           card (marked V (world_of s) cid k) + asked_times cid k (queued V s)" by blast
      with n io_step_inv [OF env inv io(3)] a io show ?thesis by (simp add: replies_inv_def y)
    qed
  qed
qed

lemma reply_run: "run (reply_init E V) (reply_step E V) x \<Longrightarrow> run (hist_init E V) (hist_step E V) (fst x)"
proof (induction rule: run.induct)
  case (run_init x)
  then show ?case by (auto simp: reply_init_def intro: run.run_init)
next
  case (run_step x y)
  from run_step.hyps(2) have "hist_step E V (fst x) (fst y)" by (auto simp: reply_step_def)
  with run_step.IH show ?case by (rule run.run_step)
qed

section \<open>Property\<close>

text \<open>
  C6. Every close command is answered at most once, and no other close event carries a command identifier.
  In every run the close events for a client with a given identifier, delivered to the main thread or
  waiting for it, are at most as many as the close commands with this client and this identifier that the
  main thread has queued, unless the identifier is the invalid one, which a link has that is closed for
  another reason.  In particular a link that is used again does not report the command of its previous
  client again.
\<close>

theorem close_commands_answered_once:
  assumes "env_ok E V" and "run (reply_init E V) (reply_step E V) ((s, made, got), asked)" and "k \<noteq> TN_CMD_INVALID E"
  shows "length (filter (\<lambda>e. ev_type e = TN_EVENT_CLIENT_CLOSE \<and> ev_client_id e = cid \<and> ev_cmd_id e = k)
      (got @ ev_ready V (events (world_of s)))) \<le>
    length (filter (\<lambda>c. cmd_type c = TN_CMD_CLIENT_CLOSE \<and> cmd_client_id c = cid \<and> cmd_id c = k) asked)"
proof -
  from history_sessions(1) [OF assms(1)] reply_run [OF assms(2)] have "made = got @ waiting V s" by auto
  moreover from replies.holds [OF assms(2), where cid = cid and k = k] assms(1,3) have "told_times cid k made \<le> asked_times cid k asked"
    by (auto simp: replies_inv_def)
  ultimately have "told_times cid k (got @ waiting V s) \<le> asked_times cid k asked" by simp
  then show ?thesis by (simp only: tells_close_def [abs_def] is_close_def asks_close_def [abs_def])
qed

text \<open>The client of the reference run is closed by a command.\<close>

lemma ref_closed:
  "\<exists>w1 w2 w3. svl_service_cmd_close ref_ext 0 (world_of ref_connected) = Some (TN_SUCCESS, 3, w1) \<and>
     on_check_cb ref_ext w1 = Some w2 \<and> on_close_link_cb ref_ext 12 w2 = Some w3 \<and>
     status (log w2) 12 = Closing (Some On_close_link_cb) \<and>
     map (\<lambda>e. (ev_type e, ev_client_id e, ev_cmd_id e)) (ev_ready ref_view (events w3)) =
       [(TN_EVENT_CLIENT_OPEN, 0, 0), (TN_EVENT_CLIENT_CLOSE, 0, 3)]"
proof -
  let ?w = "world_of ref_connected"
  note inv = sys_invD(1) [OF reachable_inv [OF ref_env ref_run_connected]]
  have "status (log ?w) 12 = Active"
    using link_usable_iff(2) [OF ref_env inv, of 0] by (simp add: ref_connected_link)
  then have st: "\<not> is_closing_status (status (log ?w) 12)" by simp
  have list: "clients_max (link_list ?w) = 1" "link_id (client_map (link_list ?w) ! 0) = 0"
    using links_invD(1) [OF io_invD(1) [OF inv]] ref_connected_link(1) by (auto simp: link_list_inv_def word_unat_eq_iff)
  let ?c = "(ref_cmd 3 TN_CMD_CLIENT_CLOSE)\<lparr>cmd_client_id := 0\<rparr>"
  let ?w1 = "?w\<lparr>cmds := RCmds 4 3 [?c]\<rparr>"
  let ?w2 = "(uv_close 12 (Some On_close_link_cb)
    (upd_link 0 (\<lambda>l. l\<lparr>cmd_close_id := 3, link_state := SVL_LINK_CLOSING\<rparr>) ?w))\<lparr>cmds := RCmds 4 4 []\<rparr>"
  have a: "svl_service_cmd_close ref_ext 0 ?w = Some (TN_SUCCESS, 3, ?w1)"
    by (simp add: svl_service_cmd_close_def svl_service_state_def queue_cmd_def Let_def ref_connected_service ref_cmd_def
        ref_cmd_pop.simps numeral_unfold)
  have b: "on_check_cb ref_ext ?w1 = on_check_cb ref_ext ?w2"
    by (subst on_check_cb.simps [of ref_ext ?w1])
      (simp add: handle_cmd_def handle_cmd_close_def svl_link_list_get_def list deref_link_def link_unusable_def
        ref_connected_link st uv_close_def upd_link_def ref_cmd_def)
  have c: "on_check_cb ref_ext ?w2 = Some ?w2"
    by (subst on_check_cb.simps) simp
  have "\<exists>w3. on_close_link_cb ref_ext 12 ?w2 = Some w3 \<and>
     map (\<lambda>e. (ev_type e, ev_client_id e, ev_cmd_id e)) (ev_ready ref_view (events w3)) =
       [(TN_EVENT_CLIENT_OPEN, 0, 0), (TN_EVENT_CLIENT_CLOSE, 0, 3)]"
    by (simp add: on_close_link_cb_def deref_link_def upd_link_def uv_close_def release_mem_def ref_connected_link
        ref_connected_service list Let_def numeral_unfold ref_event_def)
  then obtain w3 where d: "on_close_link_cb ref_ext 12 ?w2 = Some w3 \<and>
     map (\<lambda>e. (ev_type e, ev_client_id e, ev_cmd_id e)) (ev_ready ref_view (events w3)) =
       [(TN_EVENT_CLIENT_OPEN, 0, 0), (TN_EVENT_CLIENT_CLOSE, 0, 3)]" ..
  have e: "status (log ?w2) 12 = Closing (Some On_close_link_cb)" by (simp add: uv_close_def)
  show ?thesis
    by (intro exI [of _ ?w1] exI [of _ ?w2] exI [of _ w3] conjI, rule a, rule b [unfolded c], rule d [THEN conjunct1], rule e, rule d [THEN conjunct2])
qed

lemma reply_main:
  assumes "run (reply_init E V) (reply_step E V) ((s, made, got), asked)" and "main_step E s s'"
  shows "\<exists>made' got' asked'. run (reply_init E V) (reply_step E V) ((s', made', got'), asked')"
  using run.run_step [OF assms(1), of "((s', made, if holding s then got else got @ held_events s'),
      asked @ drop (length (queued V s)) (queued V s'))"] hist_step.main [OF assms(2), of V made got]
  by (auto simp: reply_step_def)

lemma reply_io:
  assumes "run (reply_init E V) (reply_step E V) ((s, made, got), asked)" and "io_step E V s s'"
  shows "\<exists>made' got' asked'. run (reply_init E V) (reply_step E V) ((s', made', got'), asked')"
  using run.run_step [OF assms(1), of "((s', made @ drop (length (waiting V s)) (waiting V s'), got),
      asked @ drop (length (queued V s)) (queued V s'))"] hist_step.io [OF assms(2), of made got]
  by (auto simp: reply_step_def)

lemma run_replies: "reachable E V s \<Longrightarrow> \<exists>made got asked. run (reply_init E V) (reply_step E V) ((s, made, got), asked)"
proof (induction rule: run.induct)
  case (run_init s)
  then have "reply_init E V ((s, [], []), queued V s)" by (simp add: reply_init_def hist_init_def)
  from run.run_init [of "reply_init E V", OF this] show ?case by blast
next
  case (run_step s s')
  then show ?case using reply_main reply_io by (metis sys_step_def)
qed

theorem close_commands_answered_once_witness:
  "\<exists>s made got asked. run (reply_init ref_ext ref_view) (reply_step ref_ext ref_view) ((s, made, got), asked) \<and>
     0 < length (filter (\<lambda>c. cmd_type c = TN_CMD_CLIENT_CLOSE \<and> cmd_client_id c = 0 \<and> cmd_id c = 3) asked)"
proof -
  from ref_closed obtain w1 w2 w3 where w:
    "svl_service_cmd_close ref_ext 0 (world_of ref_connected) = Some (TN_SUCCESS, 3, w1) \<and>
     on_check_cb ref_ext w1 = Some w2 \<and> on_close_link_cb ref_ext 12 w2 = Some w3 \<and>
     status (log w2) 12 = Closing (Some On_close_link_cb) \<and>
     map (\<lambda>e. (ev_type e, ev_client_id e, ev_cmd_id e)) (ev_ready ref_view (events w3)) =
       [(TN_EVENT_CLIENT_OPEN, 0, 0), (TN_EVENT_CLIENT_CLOSE, 0, 3)]" by - (elim exE, rule that)
  note w1 = w [THEN conjunct1] and w2 = w [THEN conjunct2, THEN conjunct1]
    and w3 = w [THEN conjunct2, THEN conjunct2, THEN conjunct1] w [THEN conjunct2, THEN conjunct2, THEN conjunct2, THEN conjunct1]
    and evs = w [THEN conjunct2, THEN conjunct2, THEN conjunct2, THEN conjunct2]
  let ?s1 = "ref_connected\<lparr>world_of := w1\<rparr>"
  let ?s2 = "?s1\<lparr>world_of := w2, writes_of := started_writes ref_view (world_of ?s1) w2 @ writes_of ?s1\<rparr>"
  let ?s3 = "?s2\<lparr>world_of := w3\<rparr>"
  have "sys_step ref_ext ref_view ref_connected ?s1" using main_step.cmd_close [OF w1] by (simp add: sys_step_def)
  note r1 = run_step [OF ref_run_connected this]
  have "sys_step ref_ext ref_view ?s1 ?s2" using io_step.check [of ref_ext ?s1 w2 ref_view] w2 by (simp add: sys_step_def)
  note r2 = run_step [OF r1 this]
  have "sys_step ref_ext ref_view ?s2 ?s3" using io_step.closed_link [of ?s2 12 ref_ext w3 ref_view] w3 by (simp add: sys_step_def)
  from run_replies [OF run_step [OF r2 this]] obtain made got asked where
    h: "run (reply_init ref_ext ref_view) (reply_step ref_ext ref_view) ((?s3, made, got), asked)" by blast
  from evs obtain e e' where e: "ev_ready ref_view (events w3) = [e', e]" "ev_type e = TN_EVENT_CLIENT_CLOSE"
    "ev_client_id e = 0" "ev_cmd_id e = 3" by (auto simp: map_eq_Cons_conv)
  let ?told = "filter (\<lambda>e. ev_type e = TN_EVENT_CLIENT_CLOSE \<and> ev_client_id e = 0 \<and> ev_cmd_id e = 3)
    (got @ ev_ready ref_view (events (world_of ?s3)))"
  have "e \<in> set ?told" using e by (simp del: ref_view_simps)
  then have "0 < length ?told" by (rule length_pos_if_in_set)
  also have "length ?told \<le> length (filter (\<lambda>c. cmd_type c = TN_CMD_CLIENT_CLOSE \<and> cmd_client_id c = 0 \<and> cmd_id c = 3) asked)"
    by (rule close_commands_answered_once [OF ref_env h]) (simp add: UINT64_MAX_def)
  finally show ?thesis using h by blast
qed

end
