(* ===== verification/Svl_Shutdown.thy ===== *)
theory Svl_Shutdown
  imports Svl_Conversation
begin

text \<open>
  The end of the service.  The timer callback closes the five handles of the service itself once the
  state is no longer started (\<^verbatim>\<open>on_timer_cb\<close> in \<^verbatim>\<open>src/src/svlynx/service_internal.c\<close>).  It closes no link; and
  since the check handle is closed with the others, no command can close one either.  So \<^verbatim>\<open>uv_run\<close> goes
  on for as long as a peer keeps its connection.
\<close>

section \<open>The timer callback\<close>

lemma safe_close_links [simp]:
  "link_list (safe_close_uv_handle E p w) = link_list w" "events (safe_close_uv_handle E p w) = events w"
  "priv_data (safe_close_uv_handle E p w) = priv_data w"
  by (simp_all add: safe_close_uv_handle_def uv_close_def split: option.splits)

definition closable :: "('t, 'x) world_scheme \<Rightarrow> bool" where
  "closable w \<longleftrightarrow> (\<forall>h \<in> loop_handles w. status (log w) h = Active \<or> status (log w) h = Closing None)"

lemma safe_close_status:
  assumes "uv_laws E" and "closable w" and "set_option p \<subseteq> loop_handles w"
  shows "status (log (safe_close_uv_handle E p w)) = (\<lambda>h. if p = Some h then Closing None else status (log w) h)"
    and "closable (safe_close_uv_handle E p w)"
proof -
  show st: "status (log (safe_close_uv_handle E p w)) = (\<lambda>h. if p = Some h then Closing None else status (log w) h)"
  proof (cases p)
    case (Some h)
    with assms have "status (log w) h = Active \<or> status (log w) h = Closing None" by (auto simp: closable_def)
    with Some show ?thesis
      by (auto simp: safe_close_uv_handle_def uv_close_def uv_is_closing_status [OF assms(1)] fun_eq_iff)
  qed (simp add: safe_close_uv_handle_def)
  from assms(2) show "closable (safe_close_uv_handle E p w)"
    by (simp add: closable_def st loop_handles_def)
qed



section \<open>Draining\<close>

text \<open>
  What can still happen after that: calls of the main thread, and the callbacks of handles other than
  those five.  The peers of the links send what they like, but no read fails.
\<close>

inductive drain_step :: "'t ext \<Rightarrow> 't view \<Rightarrow> 't sys \<Rightarrow> 't sys \<Rightarrow> bool" for E V where
  drain_main: "main_step E s s' \<Longrightarrow> drain_step E V s s'"
| drain_outbound:
    "pending (log (world_of s)) q = Some h \<Longrightarrow> on_outbound_connection_cb E q h st (world_of s) = Some w \<Longrightarrow>
       drain_step E V s (s\<lparr>world_of := w\<rparr>)"
| drain_read:
    "receives E s h answer s' \<Longrightarrow> on_recv_alloc_cb E h (world_of s) = Some (room, w) \<Longrightarrow> 0 \<le> fst (answer room) \<Longrightarrow>
       drain_step E V s s'"
| drain_sent:
    "q \<in> set (writes_of s) \<Longrightarrow> on_send_cb E q st (world_of s) = Some w \<Longrightarrow>
       drain_step E V s (s\<lparr>world_of := w, writes_of := remove1 q (writes_of s)\<rparr>)"
| drain_closed_link:
    "status (log (world_of s)) h = Closing (Some On_close_link_cb) \<Longrightarrow> on_close_link_cb E h (world_of s) = Some w \<Longrightarrow>
       drain_step E V s (s\<lparr>world_of := w\<rparr>)"
| drain_closed_handle:
    "status (log (world_of s)) h = Closing (Some On_close_handle_cb) \<Longrightarrow>
       drain_step E V s (s\<lparr>world_of := on_close_handle_cb h (world_of s)\<rparr>)"

lemma drain_sys_step: "drain_step E V s s' \<Longrightarrow> sys_step E V s s'"
  by (induction rule: drain_step.induct) (auto simp: sys_step_def intro: io_step.intros receives_io_step)

lemma speaks_length: "speaks V w es w' \<Longrightarrow> length (client_map (link_list w')) = length (client_map (link_list w))"
  by (simp add: speaks_def)

lemma drain_steady:
  assumes env: "env_ok E V" and inv: "sys_inv E V s" and step: "drain_step E V s s'"
  shows "steady V (world_of s) (world_of s') \<and>
    length (client_map (link_list (world_of s'))) = length (client_map (link_list (world_of s)))"
  using step
proof cases
  case drain_main
  from main_step_links [OF this] show ?thesis by (simp add: steady_same)
next
  case (drain_outbound q h st w)
  with on_outbound_tells [OF env sys_invD(1) [OF inv] drain_outbound(2,3)] show ?thesis
    using speaks_length by auto
next
  case (drain_read h answer room w)
  from drain_read(1) obtain w' where "recv_cbs E h answer (world_of s) = Some w'" and s': "s' = s\<lparr>world_of := w'\<rparr>"
    by (auto simp: receives_def)
  with drain_read(2) have recv: "on_recv_cb E h (fst (answer room)) (snd (answer room)) w = Some w'"
    by (auto simp: recv_cbs_def split: prod.splits)
  note st = on_recv_alloc_links(3) [OF drain_read(2)] on_recv_states(1) [OF recv drain_read(3)]
  note fr = on_recv_alloc_links(2) [OF drain_read(2), of V] on_recv_states(2) [OF recv drain_read(3), of V]
  from st have m: "map link_state (client_map (link_list w')) = map link_state (client_map (link_list (world_of s)))" by simp
  show ?thesis using same_states [OF m] fr by (simp add: steady_def opened_def s')
next
  case (drain_sent q st w)
  then have "link_list w = link_list (world_of s)"
    by (auto simp: on_send_cb_def Let_def split: option.splits if_splits)
  with drain_sent(1) show ?thesis by (simp add: steady_same)
next
  case (drain_closed_link h w)
  with on_close_link_tells [OF env sys_invD(1) [OF inv] drain_closed_link(2,3)] show ?thesis
    using speaks_length by auto
next
  case (drain_closed_handle h)
  then show ?thesis by (simp add: steady_same on_close_handle_cb_def release_mem_def)
qed

text \<open>The handle of an open link is active.\<close>

lemma opened_active:
  assumes "env_ok E V" and "reachable E V s" and "i < length (client_map (link_list (world_of s)))" and "opened V (world_of s) i"
  shows "\<exists>h. link_priv (client_map (link_list (world_of s)) ! i) = Some h \<and> status (log (world_of s)) h = Active"
  using links_ok_link [OF links_invD(3) [OF io_invD(1) [OF reachable_io_inv [OF assms(1,2)]]] assms(3)] assms(4)
  by (auto simp: link_ok_def opened_def live_def)

lemma drain_opened:
  assumes env: "env_ok E V" and s: "reachable E V s" and steps: "steps (drain_step E V) s s'"
    and i: "i < length (client_map (link_list (world_of s)))" "opened V (world_of s) i"
  shows "reachable E V s' \<and> i < length (client_map (link_list (world_of s'))) \<and> opened V (world_of s') i"
  using steps s i
proof (induction rule: steps.induct)
  case (steps_next s t u)
  then have t: "reachable E V t" "i < length (client_map (link_list (world_of t)))" "opened V (world_of t) i" by simp_all
  from drain_steady [OF env reachable_inv [OF env t(1)] steps_next.hyps(2)] t(2,3)
    run.run_step [OF t(1) drain_sys_step [OF steps_next.hyps(2)]]
  show ?case by (simp add: steady_def)
qed simp



end
