(* ===== verification/Svl_Memory.thy ===== *)
theory Svl_Memory
  imports Svl_Reference_Run
begin

text \<open>
  The memory of the service: \<^verbatim>\<open>svl_service_cleanup\<close> gives back every block that a successful
  \<^verbatim>\<open>svl_service_setup\<close> has taken, and a failing \<^verbatim>\<open>svl_service_setup\<close> gives back all of them but the array of
  links (\<^verbatim>\<open>src/src/svlynx/service.c\<close>).
\<close>

section \<open>Owned blocks\<close>

abbreviation opt :: "'a option \<Rightarrow> 'a list" where
  "opt p \<equiv> (case p of None \<Rightarrow> [] | Some a \<Rightarrow> [a])"

text \<open>The calls that led from the log \<open>lg0\<close> to the log \<open>lg\<close> have taken the blocks \<open>bs\<close> and nothing else.\<close>

definition owns :: "uv_log \<Rightarrow> uv_log \<Rightarrow> addr list \<Rightarrow> bool" where
  "owns lg0 lg bs \<longleftrightarrow>
     status lg = (\<lambda>a. if a \<in> set bs then Allocated else status lg0 a) \<and> distinct bs \<and> (\<forall>a \<in> set bs. status lg0 a = Absent)"

lemma owns_refl: "owns lg lg []"
  by (simp add: owns_def)

lemma owns_nothing: "owns lg0 lg [] \<Longrightarrow> status lg = status lg0"
  by (simp add: owns_def)

lemma owns_acquire:
  assumes "mem_laws E" and "owns lg0 lg bs"
  shows "owns lg0 ((Mem_acquire b n (TN_MEM_ACQUIRE E lg b n), r) # lg) (bs @ opt (TN_MEM_ACQUIRE E lg b n))"
proof (cases "TN_MEM_ACQUIRE E lg b n")
  case None
  with assms(2) show ?thesis by (simp add: owns_def fun_eq_iff)
next
  case (Some p)
  with assms(1) have "status lg p = Absent" unfolding mem_laws_def by blast
  with assms(2) Some show ?thesis by (auto simp: owns_def fun_eq_iff split: if_splits)
qed

lemma owns_release:
  assumes "owns lg0 lg (bs @ opt p @ bs')"
  shows "owns lg0 (mem_release p lg) (bs @ bs')"
  using assms by (cases p) (auto simp: owns_def fun_eq_iff)

section \<open>The array of links\<close>

lemma link_list_fill_ptr: "link_list_fill E k i l = Some (r, l') \<Longrightarrow> client_map_ptr l' = client_map_ptr l"
  by (induction E k i l rule: link_list_fill.induct) (auto simp: Let_def set_link_def split: if_splits prod.splits)

lemma link_list_setup_memory:
  assumes "svl_link_list_setup E n lg = Some (r, l, lg')"
  shows "if r = TN_SUCCESS
    then client_map_ptr l = TN_MEM_ACQUIRE E lg Blk_link (array_bytes E Blk_link n) \<and>
      lg' = (Mem_acquire Blk_link (array_bytes E Blk_link n) (TN_MEM_ACQUIRE E lg Blk_link (array_bytes E Blk_link n)), TN_SUCCESS) # lg
    else lg' = mem_release (TN_MEM_ACQUIRE E lg Blk_link (array_bytes E Blk_link n))
      ((Mem_acquire Blk_link (array_bytes E Blk_link n) (TN_MEM_ACQUIRE E lg Blk_link (array_bytes E Blk_link n)), TN_SUCCESS) # lg)"
  using assms
  by (auto simp: svl_link_list_setup_def Let_def link_list_release_def split: if_splits prod.splits option.splits
      dest!: link_list_fill_ptr)

section \<open>Set-up\<close>

text \<open>The blocks of the service, apart from the array of links.\<close>

definition late_blocks :: "('t, 'x) world_scheme \<Rightarrow> addr list" where
  "late_blocks w = opt (event_updates_ptr w) @ opt (write_reqs_ptr w)"

definition has_blocks :: "uv_log \<Rightarrow> addr list \<Rightarrow> 't world \<Rightarrow> bool" where
  "has_blocks lg0 links w \<longleftrightarrow>
     owns lg0 (log w) (opt (service_priv w) @ links @ late_blocks w) \<and> opt (client_map_ptr (link_list w)) = links \<and>
     service_priv w \<noteq> None"

lemma setup_write_reqs_keeps:
  "setup_write_reqs E k i w = Some (r, w') \<Longrightarrow> has_blocks lg0 links w' = has_blocks lg0 links w"
  by (induction E k i w rule: setup_write_reqs.induct)
    (auto simp: Let_def has_blocks_def late_blocks_def split: if_splits prod.splits)

lemma outcome_obj:
  assumes "\<And>w x. I (store x w) = I w"
  shows "outcome I (setup_obj res store) I I"
  by (rule outcomeI) (auto simp: setup_obj_def assms split: prod.splits)

lemma outcome_late_acquire:
  assumes "mem_laws E"
  shows "outcome (\<lambda>w. has_blocks lg0 links w \<and> event_updates_ptr w = None \<and> write_reqs_ptr w = None)
      (acquire E b n (\<lambda>p w. w\<lparr>event_updates_ptr := p, event_updates := us\<rparr>))
      (\<lambda>w. has_blocks lg0 links w \<and> write_reqs_ptr w = None) (has_blocks lg0 links)"
    and "outcome (\<lambda>w. has_blocks lg0 links w \<and> write_reqs_ptr w = None)
      (acquire E b n (\<lambda>p w. w\<lparr>write_reqs_ptr := p, write_reqs := rs\<rparr>)) (has_blocks lg0 links) (has_blocks lg0 links)"
  by (rule outcomeI; use owns_acquire [OF assms] in \<open>force simp: acquire_def Let_def has_blocks_def late_blocks_def\<close>)+

text \<open>Everything that \<^verbatim>\<open>svl_service_setup\<close> does after the array of links has been set up.\<close>

lemma outcome_late_stmts:
  assumes "mem_laws E"
  shows "outcome (\<lambda>w. has_blocks lg0 links w \<and> event_updates_ptr w = None \<and> write_reqs_ptr w = None)
    (guards (tl (setup_stmts E junk w0))) (has_blocks lg0 links) (has_blocks lg0 links)"
proof -
  let ?I = "has_blocks lg0 links"
  let ?J = "\<lambda>w. has_blocks lg0 links w \<and> event_updates_ptr w = None \<and> write_reqs_ptr w = None"
  have early: "outcome ?J (setup_obj res store) ?J ?I" if "\<And>w x. ?J (store x w) = ?J w" for res store
  proof -
    have "outcome ?J (setup_obj res store) ?J ?J" by (rule outcome_obj) (rule that)
    then show ?thesis by (rule outcome_weaken) simp_all
  qed
  have late: "outcome ?I (setup_obj res store) ?I ?I" if "\<And>w x. ?I (store x w) = ?I w" for res store
    by (rule outcome_obj) (rule that)
  have count: "outcome ?J (assign (\<lambda>w. w\<lparr>buffer_count := n\<rparr>)) ?J ?I" for n
    by (rule outcomeI) (auto simp: assign_def has_blocks_def late_blocks_def)
  have reqs: "outcome ?I (setup_write_reqs E k 0) ?I ?I" for k
    by (rule outcomeI) (auto dest: setup_write_reqs_keeps)
  show ?thesis
    unfolding setup_stmts_def Let_def list.sel
    by (rule outcome_guards_Cons, rule count,
        (rule outcome_guards_Cons, rule early, simp add: has_blocks_def late_blocks_def)+,
        rule outcome_guards_Cons, rule outcome_late_acquire(1) [OF assms],
        rule outcome_guards_Cons, rule outcome_late_acquire(2) [OF assms],
        (rule outcome_guards_Cons, rule late, simp add: has_blocks_def late_blocks_def)+,
        rule outcome_guards_Cons, rule reqs, rule outcome_guards_Nil)
qed

section \<open>The balance\<close>

text \<open>
  The block of the array of links, if \<^verbatim>\<open>svl_service_setup\<close> got as far as setting it up; \<open>lg\<close> is the log
  before the call.
\<close>

definition link_block :: "'t ext \<Rightarrow> u64 \<Rightarrow> uv_log \<Rightarrow> addr list" where
  "link_block E n lg =
     (case TN_MEM_ACQUIRE E lg Blk_priv (sizeof E Blk_priv) of
        None \<Rightarrow> []
      | Some a \<Rightarrow>
          (case svl_link_list_setup E n ((Mem_acquire Blk_priv (sizeof E Blk_priv) (Some a), TN_SUCCESS) # lg) of
             Some (r, l, _) \<Rightarrow> if r = TN_SUCCESS then opt (client_map_ptr l) else []
           | None \<Rightarrow> []))"

lemma release_owns:
  assumes "owns lg0 (log w) (opt (service_priv w) @ links @ late_blocks w)"
  shows "owns lg0 (log (service_release E w)) links"
proof -
  have "owns lg0 (log w) ((opt (service_priv w) @ links) @ opt (event_updates_ptr w) @ opt (write_reqs_ptr w))"
    using assms by (simp add: late_blocks_def)
  from owns_release [OF this]
  have "owns lg0 (mem_release (event_updates_ptr w) (log w)) ((opt (service_priv w) @ links) @ opt (write_reqs_ptr w) @ [])"
    by simp
  from owns_release [OF this]
  have "owns lg0 (mem_release (write_reqs_ptr w) (mem_release (event_updates_ptr w) (log w))) ([] @ opt (service_priv w) @ links)"
    by simp
  from owns_release [OF this] show ?thesis by (simp add: service_release_def release_mem_def Let_def)
qed

lemma setup_memory:
  assumes mem: "mem_laws E" and run: "svl_service_setup E junk n w0 = Some (r, w)"
  shows "if r = TN_SUCCESS then has_blocks (log w0) (link_block E n (log w0)) w
    else owns (log w0) (log w) (link_block E n (log w0))"
proof -
  let ?p = "TN_MEM_ACQUIRE E (log w0) Blk_priv (sizeof E Blk_priv)"
  let ?lg = "(Mem_acquire Blk_priv (sizeof E Blk_priv) ?p, TN_SUCCESS) # log w0"
  let ?w1 = "(zero_service E w0)\<lparr>client_count_max := n\<rparr>"
  have own: "owns (log w0) ?lg (opt ?p)" using owns_acquire [OF mem owns_refl] by simp
  show ?thesis
  proof (cases ?p)
    case None
    with run have "r = TN_ERROR" "log w = ?lg"
      by (auto simp: svl_service_setup_def svl_service_set_state_def acquire_def Let_def zero_service_def split: if_splits)
    with own None show ?thesis by (simp add: link_block_def)
  next
    case (Some a)
    let ?w2 = "?w1\<lparr>service_state := SVL_SERVICE_NEW, log := ?lg, service_priv := Some a, priv_data := zero_priv E\<rparr>"
    from run Some obtain r1 f where g: "guards (setup_stmts E junk ?w2) ?w2 = Some (r1, f)"
      and w: "w = (if r1 = TN_SUCCESS then f else service_release E f)" "r = (if r1 = TN_SUCCESS then TN_SUCCESS else TN_ERROR)"
      by (auto simp: svl_service_setup_def svl_service_set_state_def acquire_def Let_def zero_service_def
          split: if_splits option.splits simp del: guards.simps)
    have split: "setup_stmts E junk ?w2 = link_list_setup_stmt E # tl (setup_stmts E junk ?w2)"
      by (simp add: setup_stmts_def Let_def)
    from g obtain q l lg where l: "svl_link_list_setup E n ?lg = Some (q, l, lg)"
      and rest: "if q = TN_SUCCESS then guards (tl (setup_stmts E junk ?w2)) (?w2\<lparr>link_list := l, log := lg\<rparr>) = Some (r1, f)
        else r1 = q \<and> f = ?w2\<lparr>link_list := l, log := lg\<rparr>"
      by (subst (asm) split) (auto simp: link_list_setup_stmt_def split: option.splits if_splits)
    note lm = link_list_setup_memory [OF l]
    let ?f = "?w2\<lparr>link_list := l, log := lg\<rparr>"
    show ?thesis
    proof (cases "q = TN_SUCCESS")
      case True
      have lb: "link_block E n (log w0) = opt (client_map_ptr l)" using Some l True by (simp add: link_block_def)
      have "has_blocks (log w0) (opt (client_map_ptr l)) ?f"
        using owns_acquire [OF mem own, of Blk_link "array_bytes E Blk_link n" TN_SUCCESS] lm True Some
        by (simp add: has_blocks_def late_blocks_def zero_service_def)
      with outcomeD [OF outcome_late_stmts [OF mem, of "log w0" "opt (client_map_ptr l)" junk ?w2], of ?f r1 f] rest True
      have "has_blocks (log w0) (opt (client_map_ptr l)) f" by (auto simp: zero_service_def)
      then show ?thesis
        unfolding w lb using release_owns by (auto simp: has_blocks_def)
    next
      case False
      have lb: "link_block E n (log w0) = []" using Some l False by (simp add: link_block_def)
      have "owns (log w0) lg ([a] @ [])"
        using owns_acquire [OF mem own, of Blk_link "array_bytes E Blk_link n" TN_SUCCESS] lm False Some
          owns_release [of "log w0" _ "[a]" _ "[]"] by (simp add: zero_service_def)
      then have "owns (log w0) (log (service_release E ?f)) []"
        by (intro release_owns) (simp add: late_blocks_def zero_service_def)
      with False rest show ?thesis by (simp add: w lb)
    qed
  qed
qed


text \<open>Both cases occur: the reference functions, and the same with an event list that cannot be set up.\<close>

definition ref_no_events :: "robj ext" where
  "ref_no_events = ref_ext\<lparr>tn_event_list_setup := \<lambda>_. (TN_ERROR, RZero)\<rparr>"

lemma ref_no_events_env: "env_ok ref_no_events ref_view"
  using ref_env
  unfolding env_ok_def ref_no_events_def list_laws_def buffer_laws_def pool_laws_def event_laws_def cmd_laws_def uv_laws_def
    mem_laws_def
  by (simp del: ref_ext_simps ref_view_simps)

lemma ref_setup: "\<exists>w. svl_service_setup ref_ext ref_req 1 ref_world = Some (TN_SUCCESS, w)"
  using ref_boot by (auto simp: boot_def case_success split: option.splits prod.splits if_splits)

lemma ref_setup_fails:
  "\<exists>w. svl_service_setup ref_no_events ref_req 1 ref_world = Some (TN_ERROR, w)"
  "link_block ref_no_events 1 [] = [2]"
  by (simp_all add: ref_eval ref_no_events_def link_block_def)


end
