(* ===== verification/Svl_Lifecycle.thy ===== *)
theory Svl_Lifecycle
  imports Svl_Safety
begin

text \<open>
  The life of a service as the shared state word shows it: \<^verbatim>\<open>svl_service_start\<close>, \<^verbatim>\<open>svl_service_stop\<close> and
  \<^verbatim>\<open>svl_service_stop_signal\<close> of the main thread against \<^verbatim>\<open>svl_service_io_thread\<close>, \<^verbatim>\<open>on_timer_cb\<close> and
  \<^verbatim>\<open>on_sigint_cb\<close> of the IO thread.

  Every function loads the state word and stores it later; the loads and the stores are atomic, the
  functions are not.  A step is one load or one store of one thread, or a call that creates, ends or
  joins the IO thread; the program counters tell where the two threads are.  Everything else the
  functions do is in the other theories.
\<close>

section \<open>Steps\<close>

datatype main_pc = Main_idle | Start_store | Start_launch | Stop_store | Stop_join | Stop_joined | Stop_failed | Signal_store

datatype io_pc =
    Io_none
  | Io_setup
  | Io_check
  | Io_store
  | Io_run
  | Io_signal
  | Io_drain
  | Io_close
  | Io_failed
  | Io_done

text \<open>
  \<open>word\<close> is \<^verbatim>\<open>service->state\<close>; \<open>result\<close> is what the last call of the main thread returned; \<open>armed\<close> tells
  whether the signal handle, which is started for one shot, can still fire.
\<close>

record life =
  word :: svl_service_state_t
  main_at :: main_pc
  io_at :: io_pc
  armed :: bool
  result :: "code option"

definition life_init :: "life \<Rightarrow> bool" where
  "life_init s \<longleftrightarrow> s = \<lparr>word = SVL_SERVICE_NEW, main_at = Main_idle, io_at = Io_none, armed = False, result = None\<rparr>"

text \<open>The main thread.\<close>

inductive life_main :: "life \<Rightarrow> life \<Rightarrow> bool" where
  start_running: "main_at s = Main_idle \<Longrightarrow> word s \<in> {SVL_SERVICE_STARTING, SVL_SERVICE_STARTED} \<Longrightarrow>
    life_main s (s\<lparr>result := Some TN_SUCCESS\<rparr>)"
| start_load: "main_at s = Main_idle \<Longrightarrow> word s \<in> {SVL_SERVICE_NEW, SVL_SERVICE_STOPPED} \<Longrightarrow>
    life_main s (s\<lparr>main_at := Start_store\<rparr>)"
| start_refused: "main_at s = Main_idle \<Longrightarrow> word s \<in> {SVL_SERVICE_STOPPING, SVL_SERVICE_ERROR, SVL_SERVICE_INVALID} \<Longrightarrow>
    life_main s (s\<lparr>result := Some TN_ERROR\<rparr>)"
| start_store: "main_at s = Start_store \<Longrightarrow> life_main s (s\<lparr>word := SVL_SERVICE_STARTING, main_at := Start_launch\<rparr>)"
| launch: "main_at s = Start_launch \<Longrightarrow>
    life_main s (s\<lparr>main_at := Main_idle, io_at := Io_setup, armed := False, result := Some TN_SUCCESS\<rparr>)"
| launch_fails: "main_at s = Start_launch \<Longrightarrow> life_main s (s\<lparr>main_at := Main_idle, result := Some TN_ERROR\<rparr>)"
| stop_done: "main_at s = Main_idle \<Longrightarrow> word s \<in> {SVL_SERVICE_NEW, SVL_SERVICE_STOPPING, SVL_SERVICE_STOPPED} \<Longrightarrow>
    life_main s (s\<lparr>result := Some TN_SUCCESS\<rparr>)"
| stop_load: "main_at s = Main_idle \<Longrightarrow> word s \<in> {SVL_SERVICE_STARTING, SVL_SERVICE_STARTED} \<Longrightarrow>
    life_main s (s\<lparr>main_at := Stop_store\<rparr>)"
| stop_refused: "main_at s = Main_idle \<Longrightarrow> word s \<in> {SVL_SERVICE_ERROR, SVL_SERVICE_INVALID} \<Longrightarrow>
    life_main s (s\<lparr>result := Some TN_ERROR\<rparr>)"
| stop_store: "main_at s = Stop_store \<Longrightarrow> life_main s (s\<lparr>word := SVL_SERVICE_STOPPING, main_at := Stop_join\<rparr>)"
| join: "main_at s = Stop_join \<Longrightarrow> io_at s = Io_done \<Longrightarrow> life_main s (s\<lparr>main_at := Stop_joined, io_at := Io_none\<rparr>)"
| join_fails: "main_at s = Stop_join \<Longrightarrow> io_at s = Io_none \<Longrightarrow> life_main s (s\<lparr>main_at := Stop_failed\<rparr>)"
| stopped: "main_at s = Stop_joined \<Longrightarrow>
    life_main s (s\<lparr>word := SVL_SERVICE_STOPPED, main_at := Main_idle, result := Some TN_SUCCESS\<rparr>)"
| stop_error: "main_at s = Stop_failed \<Longrightarrow>
    life_main s (s\<lparr>word := SVL_SERVICE_ERROR, main_at := Main_idle, result := Some TN_ERROR\<rparr>)"
| signal_load: "main_at s = Main_idle \<Longrightarrow> word s \<notin> {SVL_SERVICE_STOPPING, SVL_SERVICE_STOPPED, SVL_SERVICE_ERROR} \<Longrightarrow>
    life_main s (s\<lparr>main_at := Signal_store\<rparr>)"
| signal_refused: "main_at s = Main_idle \<Longrightarrow> word s \<in> {SVL_SERVICE_STOPPING, SVL_SERVICE_STOPPED, SVL_SERVICE_ERROR} \<Longrightarrow>
    life_main s (s\<lparr>result := Some TN_ERROR\<rparr>)"
| signal_store: "main_at s = Signal_store \<Longrightarrow>
    life_main s (s\<lparr>word := SVL_SERVICE_STOPPING, main_at := Main_idle, result := Some TN_SUCCESS\<rparr>)"

text \<open>
  The IO thread: set-up succeeds or fails (with or without an assignment to \<^verbatim>\<open>ret\<close>), the state is
  checked and stored before \<^verbatim>\<open>uv_run\<close>, the timer looks at it, a signal may set it, and the end of the
  body may fail.
\<close>

inductive life_io :: "life \<Rightarrow> life \<Rightarrow> bool" where
  setup_ok: "io_at s = Io_setup \<Longrightarrow> life_io s (s\<lparr>io_at := Io_check, armed := True\<rparr>)"
| setup_fails: "io_at s = Io_setup \<Longrightarrow> life_io s (s\<lparr>io_at := Io_failed\<rparr>)"
| setup_fails_quietly: "io_at s = Io_setup \<Longrightarrow> life_io s (s\<lparr>io_at := Io_done\<rparr>)"
| check_starting: "io_at s = Io_check \<Longrightarrow> word s = SVL_SERVICE_STARTING \<Longrightarrow> life_io s (s\<lparr>io_at := Io_store\<rparr>)"
| check_other: "io_at s = Io_check \<Longrightarrow> word s \<noteq> SVL_SERVICE_STARTING \<Longrightarrow> life_io s (s\<lparr>io_at := Io_close\<rparr>)"
| store_started: "io_at s = Io_store \<Longrightarrow> life_io s (s\<lparr>word := SVL_SERVICE_STARTED, io_at := Io_run\<rparr>)"
| timer_fires: "io_at s = Io_run \<Longrightarrow> word s \<noteq> SVL_SERVICE_STARTED \<Longrightarrow> life_io s (s\<lparr>io_at := Io_drain\<rparr>)"
| sigint_load: "io_at s = Io_run \<Longrightarrow> armed s \<Longrightarrow>
    word s \<notin> {SVL_SERVICE_STOPPING, SVL_SERVICE_STOPPED, SVL_SERVICE_ERROR} \<Longrightarrow>
    life_io s (s\<lparr>io_at := Io_signal, armed := False\<rparr>)"
| sigint_late: "io_at s = Io_run \<Longrightarrow> armed s \<Longrightarrow>
    word s \<in> {SVL_SERVICE_STOPPING, SVL_SERVICE_STOPPED, SVL_SERVICE_ERROR} \<Longrightarrow> life_io s (s\<lparr>armed := False\<rparr>)"
| sigint_store: "io_at s = Io_signal \<Longrightarrow> life_io s (s\<lparr>word := SVL_SERVICE_STOPPING, io_at := Io_run\<rparr>)"
| drained: "io_at s = Io_drain \<Longrightarrow> life_io s (s\<lparr>io_at := Io_close\<rparr>)"
| closed: "io_at s = Io_close \<Longrightarrow> life_io s (s\<lparr>io_at := Io_done\<rparr>)"
| close_fails: "io_at s = Io_close \<Longrightarrow> life_io s (s\<lparr>io_at := Io_failed\<rparr>)"
| store_error: "io_at s = Io_failed \<Longrightarrow> life_io s (s\<lparr>word := SVL_SERVICE_ERROR, io_at := Io_done\<rparr>)"

definition life_step :: "life \<Rightarrow> life \<Rightarrow> bool" where
  "life_step s s' \<longleftrightarrow> life_main s s' \<or> life_io s s'"

section \<open>The functions of the other theories are sequences of these steps\<close>

text \<open>Without interference, a call goes through the steps of one function.\<close>

lemma steps_one: "step s t \<Longrightarrow> steps step s t"
  using steps_next [OF steps_refl, of step s t] .

lemma steps_two: "step s t \<Longrightarrow> step t u \<Longrightarrow> steps step s u"
  using steps_next [OF steps_one] .

lemma steps_three: "step s t \<Longrightarrow> step t u \<Longrightarrow> step u v \<Longrightarrow> steps step s v"
  using steps_next [OF steps_two] .

lemmas main_one = steps_one [where step = life_main]
  and main_two = steps_two [where step = life_main]
  and main_three = steps_three [where step = life_main]

definition life_at :: "('t, 'x) world_scheme \<Rightarrow> main_pc \<Rightarrow> life \<Rightarrow> bool" where
  "life_at w pc s \<longleftrightarrow> word s = service_state w \<and> main_at s = pc"

definition returns :: "('t, 'x) world_scheme \<Rightarrow> code \<Rightarrow> life \<Rightarrow> bool" where
  "returns w r s \<longleftrightarrow> (\<exists>s'. steps life_main s s' \<and> life_at w Main_idle s' \<and> result s' = Some r)"

lemma returnsI:
  "steps life_main s s' \<Longrightarrow> word s' = service_state w \<Longrightarrow> main_at s' = Main_idle \<Longrightarrow> result s' = Some r \<Longrightarrow> returns w r s"
  unfolding returns_def life_at_def by blast

lemma start_is_steps:
  assumes s: "life_at w Main_idle s" and call: "svl_service_start E w = (r, w')"
  shows "returns w' r s"
proof (cases "service_state w \<in> {SVL_SERVICE_NEW, SVL_SERVICE_STOPPED}")
  case True
  let ?s1 = "s\<lparr>main_at := Start_store\<rparr>" and ?s2 = "s\<lparr>word := SVL_SERVICE_STARTING, main_at := Start_launch\<rparr>"
  let ?ok = "?s2\<lparr>main_at := Main_idle, io_at := Io_setup, armed := False, result := Some TN_SUCCESS\<rparr>"
    and ?bad = "?s2\<lparr>main_at := Main_idle, result := Some TN_ERROR\<rparr>"
  have go: "life_main s ?s1" "life_main ?s1 ?s2" using start_load [of s] start_store [of ?s1] s True by (simp_all add: life_at_def)
  have "life_main ?s2 ?ok" "life_main ?s2 ?bad" using launch [of ?s2] launch_fails [of ?s2] by simp_all
  from main_three [OF go this(1)] main_three [OF go this(2)] have "returns w' TN_SUCCESS s" "returns w' TN_ERROR s"
    if "service_state w' = SVL_SERVICE_STARTING"
    using that by (auto intro: returnsI)
  moreover have "service_state w' = SVL_SERVICE_STARTING \<and> (r = TN_SUCCESS \<or> r = TN_ERROR)"
    using call True by (auto simp: svl_service_start_def svl_service_state_def svl_service_set_state_def Let_def split: if_splits)
  ultimately show ?thesis by blast
next
  case False
  show ?thesis
    by (rule returnsI [OF main_one, of s "s\<lparr>result := Some r\<rparr>"])
      (use call s False start_running [of s] start_refused [of s] in
        \<open>cases "service_state w"; force simp: svl_service_start_def svl_service_state_def life_at_def\<close>)+
qed

lemma stop_signal_is_steps:
  assumes s: "life_at w Main_idle s" and call: "svl_service_stop_signal w = (r, w')"
  shows "returns w' r s"
proof (cases "service_state w \<in> {SVL_SERVICE_STOPPING, SVL_SERVICE_STOPPED, SVL_SERVICE_ERROR}")
  case True
  show ?thesis
    by (rule returnsI [OF main_one, of s "s\<lparr>result := Some r\<rparr>"])
      (use call s True signal_refused [of s] in \<open>force simp: svl_service_stop_signal_def svl_service_state_def Let_def life_at_def\<close>)+
next
  case False
  let ?s1 = "s\<lparr>main_at := Signal_store\<rparr>"
  let ?s2 = "s\<lparr>word := SVL_SERVICE_STOPPING, main_at := Main_idle, result := Some TN_SUCCESS\<rparr>"
  have "life_main s ?s1" "life_main ?s1 ?s2" using signal_load [of s] signal_store [of ?s1] s False by (simp_all add: life_at_def)
  from main_two [OF this] show ?thesis
    by (rule returnsI)
      (use call False in \<open>auto simp: svl_service_stop_signal_def svl_service_state_def svl_service_set_state_def Let_def\<close>)
qed

text \<open>Stopping goes up to the join, and from there, once the IO thread has ended (or there is none), to its end.\<close>

definition joins :: "('t, 'x) world_scheme \<Rightarrow> code \<Rightarrow> life \<Rightarrow> bool" where
  "joins w r s \<longleftrightarrow>
     (\<exists>s1. steps life_main s s1 \<and> main_at s1 = Stop_join \<and> word s1 = SVL_SERVICE_STOPPING \<and> io_at s1 = io_at s) \<and>
     (\<forall>s2. main_at s2 = Stop_join \<longrightarrow> io_at s2 = (if r = TN_SUCCESS then Io_done else Io_none) \<longrightarrow> returns w r s2)"

lemma stop_is_steps:
  assumes s: "life_at w Main_idle s" and call: "svl_service_stop E io w = (r, w')"
  shows "if service_state w \<in> {SVL_SERVICE_STARTING, SVL_SERVICE_STARTED} then joins w' r s else returns w' r s"
proof (cases "service_state w \<in> {SVL_SERVICE_STARTING, SVL_SERVICE_STARTED}")
  case False
  have "returns w' r s"
    by (rule returnsI [OF main_one, of s "s\<lparr>result := Some r\<rparr>"])
      (use call s False stop_done [of s] stop_refused [of s] in
        \<open>cases "service_state w"; force simp: svl_service_stop_def svl_service_state_def life_at_def\<close>)+
  with False show ?thesis by simp
next
  case True
  have end_state: "if r = TN_SUCCESS then service_state w' = SVL_SERVICE_STOPPED
      else service_state w' = SVL_SERVICE_ERROR \<and> r = TN_ERROR"
    using call True by (auto simp: svl_service_stop_def svl_service_state_def svl_service_set_state_def Let_def split: if_splits)
  let ?s1 = "s\<lparr>main_at := Stop_store\<rparr>" and ?s2 = "s\<lparr>word := SVL_SERVICE_STOPPING, main_at := Stop_join\<rparr>"
  have "life_main s ?s1" "life_main ?s1 ?s2" using stop_load [of s] stop_store [of ?s1] s True by (simp_all add: life_at_def)
  from main_two [OF this] have pre: "\<exists>s1. steps life_main s s1 \<and> main_at s1 = Stop_join \<and> word s1 = SVL_SERVICE_STOPPING \<and>
      io_at s1 = io_at s" by fastforce
  have "returns w' r t" if "main_at t = Stop_join" "io_at t = (if r = TN_SUCCESS then Io_done else Io_none)" for t
  proof -
    let ?j = "t\<lparr>main_at := Stop_joined, io_at := Io_none\<rparr>" and ?f = "t\<lparr>main_at := Stop_failed\<rparr>"
    have "r = TN_SUCCESS \<Longrightarrow> life_main t ?j" "r \<noteq> TN_SUCCESS \<Longrightarrow> life_main t ?f"
      using join [of t] join_fails [of t] that by simp_all
    moreover have "life_main ?j (?j\<lparr>word := SVL_SERVICE_STOPPED, main_at := Main_idle, result := Some TN_SUCCESS\<rparr>)"
      "life_main ?f (?f\<lparr>word := SVL_SERVICE_ERROR, main_at := Main_idle, result := Some TN_ERROR\<rparr>)"
      using stopped [of ?j] stop_error [of ?f] by simp_all
    ultimately have "r = TN_SUCCESS \<Longrightarrow> steps life_main t (?j\<lparr>word := SVL_SERVICE_STOPPED, main_at := Main_idle, result := Some TN_SUCCESS\<rparr>)"
      "r \<noteq> TN_SUCCESS \<Longrightarrow> steps life_main t (?f\<lparr>word := SVL_SERVICE_ERROR, main_at := Main_idle, result := Some TN_ERROR\<rparr>)"
      by (blast intro: main_two)+
    then show ?thesis using end_state by (cases "r = TN_SUCCESS") (auto intro: returnsI)
  qed
  with pre True show ?thesis by (simp add: joins_def)
qed



section \<open>What the state word tells\<close>

definition life_inv :: "life \<Rightarrow> bool" where
  "life_inv s \<longleftrightarrow>
     (word s = SVL_SERVICE_STARTED \<longrightarrow> io_at s \<in> {Io_run, Io_signal}) \<and>
     (word s \<in> {SVL_SERVICE_NEW, SVL_SERVICE_STOPPED} \<longrightarrow> io_at s = Io_none) \<and>
     (main_at s \<in> {Start_store, Start_launch, Stop_joined, Stop_failed} \<longrightarrow> io_at s = Io_none) \<and>
     (main_at s = Start_launch \<longrightarrow> word s = SVL_SERVICE_STARTING) \<and> word s \<noteq> SVL_SERVICE_INVALID"

inductive_cases life_mainE: "life_main s s'"
inductive_cases life_ioE: "life_io s s'"

lemma life_main_inv: "life_main s s' \<Longrightarrow> life_inv s \<Longrightarrow> life_inv s'"
  by (erule life_mainE) (auto simp: life_inv_def)

lemma life_io_inv: "life_io s s' \<Longrightarrow> life_inv s \<Longrightarrow> life_inv s'"
  by (erule life_ioE) (auto simp: life_inv_def)

interpretation life: invariant life_init life_step life_inv
proof (unfold_locales, goal_cases)
  case (1 s)
  then show ?case by (simp add: life_init_def life_inv_def)
next
  case (2 s s')
  then show ?case using life_main_inv life_io_inv by (auto simp: life_step_def)
qed

text \<open>
  C19. Whatever the interleaving of the two threads, the state word can be trusted in three ways:
  while it says started, the IO thread is in its event loop; while it says new or stopped, there is
  no IO thread; and an IO thread is created only when there is none.
\<close>

theorem life_state_word:
  assumes "run life_init life_step s"
  shows "(word s = SVL_SERVICE_STARTED \<longrightarrow> io_at s \<in> {Io_run, Io_signal}) \<and>
    (word s \<in> {SVL_SERVICE_NEW, SVL_SERVICE_STOPPED} \<longrightarrow> io_at s = Io_none) \<and>
    (main_at s = Start_launch \<longrightarrow> io_at s = Io_none)"
  using life.holds [OF assms] by (auto simp: life_inv_def)

section \<open>Runs of the life cycle\<close>

definition life0 :: life where
  "life0 = \<lparr>word = SVL_SERVICE_NEW, main_at = Main_idle, io_at = Io_none, armed = False, result = None\<rparr>"

text \<open>The IO thread has checked the state and is about to store it.\<close>

definition life_pending :: life where
  "life_pending = \<lparr>word = SVL_SERVICE_STARTING, main_at = Main_idle, io_at = Io_store, armed = True, result = Some TN_SUCCESS\<rparr>"

lemma life_step_main: "life_main s s' \<Longrightarrow> life_step s s'" and life_step_io: "life_io s s' \<Longrightarrow> life_step s s'"
  by (simp_all add: life_step_def)

lemma run_main: "run life_init life_step s \<Longrightarrow> life_main s s' \<Longrightarrow> run life_init life_step s'"
  and run_io: "run life_init life_step s \<Longrightarrow> life_io s s' \<Longrightarrow> run life_init life_step s'"
  by (auto intro: run_step simp: life_step_def)

lemma run_pending: "run life_init life_step life_pending"
proof -
  let ?s1 = "life0\<lparr>main_at := Start_store\<rparr>"
  let ?s2 = "?s1\<lparr>word := SVL_SERVICE_STARTING, main_at := Start_launch\<rparr>"
  let ?s3 = "?s2\<lparr>main_at := Main_idle, io_at := Io_setup, armed := False, result := Some TN_SUCCESS\<rparr>"
  let ?s4 = "?s3\<lparr>io_at := Io_check, armed := True\<rparr>"
  have "run life_init life_step life0" by (rule run_init) (simp add: life_init_def life0_def)
  then have "run life_init life_step ?s1" by (rule run_main) (rule start_load, simp_all add: life0_def)
  then have "run life_init life_step ?s2" by (rule run_main) (rule start_store, simp)
  then have "run life_init life_step ?s3" by (rule run_main) (rule launch, simp)
  then have "run life_init life_step ?s4" by (rule run_io) (rule setup_ok, simp)
  then have "run life_init life_step (?s4\<lparr>io_at := Io_store\<rparr>)" by (rule run_io) (rule check_starting, simp_all)
  then show ?thesis by (simp add: life0_def life_pending_def)
qed

definition life_serving :: life where
  "life_serving = \<lparr>word = SVL_SERVICE_STARTED, main_at = Main_idle, io_at = Io_run, armed = True, result = Some TN_SUCCESS\<rparr>"

lemma run_serving: "run life_init life_step life_serving"
  using run_io [OF run_pending store_started] by (simp add: life_pending_def life_serving_def)

theorem life_state_word_witness:
  "run life_init life_step life_serving \<and> word life_serving = SVL_SERVICE_STARTED \<and> io_at life_serving \<in> {Io_run, Io_signal}"
  using life_state_word [OF run_serving] run_serving by (simp add: life_serving_def)

section \<open>Stopping ends\<close>

text \<open>
  The main thread waits in the join, the word says so, and the IO thread has not yet decided to store
  the started state.
\<close>

definition stop_under_way :: "life \<Rightarrow> bool" where
  "stop_under_way s \<longleftrightarrow>
     (main_at s = Stop_join \<and> word s \<in> {SVL_SERVICE_STOPPING, SVL_SERVICE_ERROR} \<and> io_at s \<notin> {Io_none, Io_store}) \<or>
     (main_at s = Stop_joined \<and> io_at s = Io_none)"

fun io_rank :: "io_pc \<Rightarrow> nat" where
  "io_rank Io_none = 0"
| "io_rank Io_done = 1"
| "io_rank Io_failed = 2"
| "io_rank Io_close = 3"
| "io_rank Io_drain = 4"
| "io_rank Io_run = 5"
| "io_rank Io_signal = 6"
| "io_rank Io_store = 6"
| "io_rank Io_check = 7"
| "io_rank Io_setup = 8"

definition stop_measure :: "life \<Rightarrow> nat" where
  "stop_measure s = 4 * io_rank (io_at s) + (if armed s then 1 else 0) + (if main_at s = Main_idle then 0 else 1)"

lemma stop_io_step:
  assumes "main_at s = Stop_join" and "word s = SVL_SERVICE_STOPPING \<or> word s = SVL_SERVICE_ERROR"
    and "io_at s \<noteq> Io_none" and "io_at s \<noteq> Io_store" and "life_io s s'"
  shows "stop_measure s' < stop_measure s \<and> stop_under_way s'"
  using assms(5) assms(1-4) by (elim life_ioE) (simp_all add: stop_measure_def stop_under_way_def)

lemma stop_joined_io_step: "io_at s = Io_none \<Longrightarrow> \<not> life_io s s'"
  by (auto elim: life_ioE)

lemma stop_io_step':
  "stop_under_way s \<Longrightarrow> life_io s s' \<Longrightarrow> stop_measure s' < stop_measure s \<and> stop_under_way s'"
  using stop_io_step [of s s'] stop_joined_io_step [of s s'] unfolding stop_under_way_def [of s] by blast

lemma stop_main_step:
  assumes "stop_under_way s" and "life_main s s'"
  shows "stop_measure s' < stop_measure s \<and> (stop_under_way s' \<or>
    main_at s' = Main_idle \<and> word s' = SVL_SERVICE_STOPPED \<and> io_at s' = Io_none \<and> result s' = Some TN_SUCCESS)"
  using assms(2) assms(1) [unfolded stop_under_way_def]
  by (elim life_mainE) (simp_all add: stop_measure_def stop_under_way_def)



section \<open>Where it goes wrong\<close>

text \<open>
  C25. A stop can hang for ever: if the main thread stores the stopping state between the check and the
  store of the IO thread, the IO thread overwrites it, the timer sees a started service, and the main
  thread waits for a thread that nothing but SIGINT can end.
\<close>

theorem stop_start_race:
  "\<exists>s. run life_init life_step s \<and> main_at s = Stop_join \<and> io_at s = Io_run \<and> word s = SVL_SERVICE_STARTED \<and>
     {s'. life_step s s'} \<subseteq> {s'. io_at s' = Io_signal}"
proof -
  let ?s1 = "life_pending\<lparr>main_at := Stop_store\<rparr>"
  let ?s2 = "?s1\<lparr>word := SVL_SERVICE_STOPPING, main_at := Stop_join\<rparr>"
  let ?s = "?s2\<lparr>word := SVL_SERVICE_STARTED, io_at := Io_run\<rparr>"
  have "run life_init life_step ?s1"
    using run_pending by (rule run_main) (rule stop_load, simp_all add: life_pending_def)
  then have "run life_init life_step ?s2" by (rule run_main) (rule stop_store, simp)
  then have "run life_init life_step ?s" by (rule run_io) (rule store_started, simp add: life_pending_def)
  moreover have "main_at ?s = Stop_join" "io_at ?s = Io_run" "word ?s = SVL_SERVICE_STARTED" by simp_all
  moreover have "io_at s' = Io_signal" if "life_step s s'" "main_at s = Stop_join" "io_at s = Io_run" "word s = SVL_SERVICE_STARTED"
    for s s'
    using that(1) unfolding life_step_def
    by (elim disjE life_mainE life_ioE) (use that(2-4) in simp_all)
  ultimately show ?thesis by blast
qed



end
