(* ===== verification/Svl_Startup.thy ===== *)
theory Svl_Startup
  imports Svl_Lifecycle
begin

text \<open>
  The outcome of \<^verbatim>\<open>svl_service_io_thread\<close>: what its set-up does to the state of the service when a
  statement of it fails, and that the whole body, on every path, is a sequence of the IO thread's
  steps in the life cycle.
\<close>

section \<open>The set-up\<close>

text \<open>Nothing in the set-up changes the state word or the listen address; \<open>io_ret\<close> is what decides at the end.\<close>

abbreviation same_state :: "'t world \<Rightarrow> 't io_frame \<Rightarrow> bool" where
  "same_state w f \<equiv> service_state f = service_state w \<and> host_listen f = host_listen w"

abbreviation before_uv :: "'t world \<Rightarrow> 't io_frame \<Rightarrow> bool" where
  "before_uv w f \<equiv> same_state w f \<and> io_ret f = UV_ENOMEM"

abbreviation failed :: "'t world \<Rightarrow> 't io_frame \<Rightarrow> bool" where
  "failed w f \<equiv> same_state w f \<and> io_ret f \<noteq> TN_SUCCESS"

text \<open>The one statement that fails without an assignment to \<^verbatim>\<open>ret\<close>.\<close>

definition silent :: "'t ext \<Rightarrow> 't world \<Rightarrow> bool" where
  "silent E w \<longleftrightarrow>
     tn_endpoint_af_get E (host_listen w) \<in> {AF_INET E, AF_INET6 E} \<and>
     tn_endpoint_string_get E (host_listen w) \<noteq> TN_SUCCESS"

lemma outcome_before:
  assumes "p \<in> set (acquire_stmts E junk n @ [setup_obj res (\<lambda>x. set_priv (\<lambda>p. p\<lparr>send_req_list := x\<rparr>))])"
  shows "outcome (before_uv w) p (before_uv w) (failed w)"
  using assms
  by (auto simp: acquire_stmts_def acquire_def Let_def set_priv_def setup_obj_def intro!: outcomeI split: prod.splits)

lemma fill_send_reqs_keeps:
  "fill_send_reqs E k i f = Some (r, f') \<Longrightarrow> before_uv w f \<Longrightarrow> before_uv w f'"
proof (induction k arbitrary: i f)
  case (Suc k)
  obtain r1 l where push: "tn_list_ptr_push_back E (send_req_list (priv_data f)) i = (r1, l)" by fastforce
  have "before_uv w (set_priv (\<lambda>p. p\<lparr>send_req_list := l\<rparr>) f)" using Suc.prems(2) by (simp add: set_priv_def)
  with Suc.prems(1) push Suc.IH [of "Suc i" "set_priv (\<lambda>p. p\<lparr>send_req_list := l\<rparr>) f"] show ?case
    by (simp add: Let_def split: if_splits)
qed simp

lemma outcome_fill: "outcome (before_uv w) (fill_send_reqs E k i) (before_uv w) (failed w)"
  by (rule outcomeI) (use fill_send_reqs_keeps in \<open>fastforce split: if_splits\<close>)

lemma outcome_io_uv: "outcome (same_state w) (io_uv E sel c) (same_state w) (failed w)"
  by (rule outcomeI) (auto simp: io_uv_def uv_do_def Let_def split: option.splits)

definition ended :: "'t ext \<Rightarrow> 't world \<Rightarrow> 't io_frame \<Rightarrow> bool" where
  "ended E w f \<longleftrightarrow> same_state w f \<and> (io_ret f = TN_SUCCESS \<longrightarrow> silent E w)"

lemma outcome_io_uv_ended: "outcome (same_state w) (io_uv E sel c) (same_state w) (ended E w)"
  by (rule outcome_weaken [OF outcome_io_uv]) (auto simp: ended_def)

lemma outcome_listen: "outcome (same_state w) (listen_stmt E) (same_state w) (ended E w)"
proof (cases "tn_endpoint_af_get E (host_listen w) \<in> {AF_INET E, AF_INET6 E}")
  case False
  then show ?thesis by (auto simp: listen_stmt_def Let_def set_priv_def intro!: outcomeI)
next
  case True
  have "outcome (same_state w) p (same_state w) (ended E w)" if "p \<in> set (listen_stmts E)" for p
  proof -
    have "outcome (same_state w) (\<lambda>f. Some (tn_endpoint_string_get E (host_listen f), f)) (same_state w) (ended E w)"
      using True by (auto simp: ended_def silent_def intro!: outcomeI)
    then show ?thesis using that outcome_io_uv_ended by (auto simp: listen_stmts_def)
  qed
  then have stmts: "outcome (same_state w) (guards (listen_stmts E)) (same_state w) (ended E w)" by (rule outcome_guards)
  show ?thesis
  proof (rule outcomeI)
    fix f r f' assume f: "same_state w f" and run: "listen_stmt E f = Some (r, f')"
    then have "guards (listen_stmts E) f = Some (r, f')" using True by (auto simp: listen_stmt_def Let_def)
    from outcomeD [OF stmts f this] show "if r = TN_SUCCESS then same_state w f' else ended E w f'" .
  qed
qed

lemma io_setup_outcome:
  assumes "guards (io_setup_stmts E junk n) f = Some (r, f')" and "before_uv w f"
  shows "if r = TN_SUCCESS then same_state w f' else ended E w f'"
proof -
  let ?ps = "(acquire_stmts E junk n @ [setup_obj (tn_list_ptr_setup E n) (\<lambda>x. set_priv (\<lambda>p. p\<lparr>send_req_list := x\<rparr>))]) @
    [fill_send_reqs E (unat n) 0]"
  let ?qs = "uv_start_stmts E @ [listen_stmt E]"
  have ps: "outcome (before_uv w) (guards ?ps) (before_uv w) (failed w)"
  proof (rule outcome_guards)
    fix p assume "p \<in> set ?ps"
    then consider "p \<in> set (acquire_stmts E junk n @ [setup_obj (tn_list_ptr_setup E n) (\<lambda>x. set_priv (\<lambda>p. p\<lparr>send_req_list := x\<rparr>))])"
      | "p = fill_send_reqs E (unat n) 0" unfolding set_append by fastforce
    then show "outcome (before_uv w) p (before_uv w) (failed w)"
    proof cases
      case 1
      then show ?thesis by (rule outcome_before)
    next
      case 2
      then show ?thesis by (simp only: outcome_fill)
    qed
  qed
  have qs: "outcome (same_state w) (guards ?qs) (same_state w) (ended E w)"
  proof (rule outcome_guards)
    fix p assume "p \<in> set ?qs"
    then show "outcome (same_state w) p (same_state w) (ended E w)"
      using outcome_listen outcome_io_uv_ended by (auto simp: uv_start_stmts_def)
  qed
  have "io_setup_stmts E junk n = ?ps @ ?qs" by (simp add: io_setup_stmts_def)
  with assms(1) obtain r1 f1 where f1: "guards ?ps f = Some (r1, f1)"
    and rest: "if r1 = TN_SUCCESS then guards ?qs f1 = Some (r, f') else r = r1 \<and> f' = f1"
    by (auto simp: guards_append split: option.splits if_splits)
  from outcomeD [OF ps assms(2) f1] have "if r1 = TN_SUCCESS then before_uv w f1 else failed w f1" .
  with rest outcomeD [OF qs, of f1 r f'] show ?thesis by (auto simp: ended_def split: if_splits)
qed

lemma cleanup_state:
  "service_state (leave_io (io_cleanup E f)) = (if io_ret f \<noteq> TN_SUCCESS then SVL_SERVICE_ERROR else service_state f)"
  by (simp add: io_cleanup_def Let_def release_field_def set_priv_def release_mem_def svl_service_set_state_def leave_io_def
      world.defs)

text \<open>The frame the set-up starts with.\<close>

abbreviation io_start :: "'t world \<Rightarrow> 't io_frame" where
  "io_start w \<equiv> enter_io (set_priv (\<lambda>p. p\<lparr>uv_loop := None, tcp_handle := None, uv_accept_timer := None,
     uv_prep := None, uv_check := None\<rparr>) w)"

lemma io_start_state: "before_uv w (io_start w)"
  by (simp add: enter_io_def set_priv_def world.defs io_frame.defs)

lemma leave_io_state: "service_state (leave_io f) = service_state f"
  by (simp add: leave_io_def world.defs)

text \<open>
  C23. If the set-up of the IO thread fails, whichever statement it is, the thread ends without
  running the loop and the service is in the error state; the only exception is a listen address that
  cannot be formatted for the log, after which the service stays in the state it was in.
\<close>

theorem io_thread_failed_setup:
  assumes "service_priv w \<noteq> None" and "guards (io_setup_stmts E junk (buffer_count w)) (io_start w) = Some (r, f)"
    and "r \<noteq> TN_SUCCESS"
  shows "\<exists>w'. range (\<lambda>loop. svl_service_io_thread E junk loop w) = {Some w'} \<and>
    (service_state w' = SVL_SERVICE_ERROR \<or> service_state w' = service_state w \<and> silent E w)"
proof -
  have "svl_service_io_thread E junk loop w = Some (leave_io (io_cleanup E f))" for loop
    using assms by (auto simp: svl_service_io_thread_def Let_def)
  moreover have "ended E w f" using io_setup_outcome [OF assms(2) io_start_state] assms(3) by simp
  ultimately show ?thesis by (intro exI [of _ "leave_io (io_cleanup E f)"]) (auto simp: cleanup_state ended_def)
qed

text \<open>An environment in which the memory of the loop cannot be allocated, and a service about to be started.\<close>

definition ref_no_loop :: "robj ext" where
  "ref_no_loop = ref_ext\<lparr>TN_MEM_ACQUIRE := (\<lambda>lg b n. None)\<rparr>"

definition starting_world :: "robj world" where
  "starting_world = ref_world\<lparr>service_priv := Some 1, service_state := SVL_SERVICE_STARTING\<rparr>"

theorem io_thread_failed_setup_witness:
  "\<exists>w'. svl_service_io_thread ref_no_loop ref_req (\<lambda>_. None) starting_world = Some w' \<and> service_state w' = SVL_SERVICE_ERROR"
proof -
  have "\<exists>f. guards (io_setup_stmts ref_no_loop ref_req (buffer_count starting_world)) (io_start starting_world) = Some (UV_ENOMEM, f)"
    by (simp add: io_setup_stmts_def acquire_stmts_def acquire_def ref_no_loop_def Let_def)
  moreover have "\<not> silent ref_no_loop starting_world" by (simp add: silent_def ref_no_loop_def)
  moreover have "service_priv starting_world \<noteq> None" by (simp add: starting_world_def)
  ultimately obtain w' where
    "range (\<lambda>loop. svl_service_io_thread ref_no_loop ref_req loop starting_world) = {Some w'}" "service_state w' = SVL_SERVICE_ERROR"
    using io_thread_failed_setup [of starting_world ref_no_loop ref_req UV_ENOMEM] by fastforce
  then show ?thesis by blast
qed

section \<open>The body is a sequence of steps of the life cycle\<close>

text \<open>
  \<^verbatim>\<open>uv_run\<close> as the life cycle has it: from the started state, with the signal handle armed, to a loop whose
  handles are closing.
\<close>

definition runs_loop :: "('t world \<Rightarrow> (code \<times> 't world) option) \<Rightarrow> bool" where
  "runs_loop loop \<longleftrightarrow>
     (\<forall>w r w' s. loop w = Some (r, w') \<longrightarrow> service_state w = SVL_SERVICE_STARTED \<longrightarrow> word s = SVL_SERVICE_STARTED \<longrightarrow>
        io_at s = Io_run \<longrightarrow> armed s \<longrightarrow>
        (\<exists>s'. steps life_step s s' \<and> word s' = service_state w' \<and> io_at s' = Io_drain))"

lemma walk_handles_state: "service_state (walk_handles E hs w) = service_state w"
  by (induction hs arbitrary: w) (simp_all add: on_walk_cb_def uv_close_def)

lemma io_close_loop_state: "io_close_loop E w = Some (r, w') \<Longrightarrow> service_state w' = service_state w"
  by (auto simp: io_close_loop_def uv_do_def Let_def walk_handles_state split: option.splits if_splits)

lemma steps_io: "steps life_step s t \<Longrightarrow> life_io t u \<Longrightarrow> steps life_step s u"
  using steps_next life_step_io by metis

lemma steps_trans:
  assumes "steps step t u" and "steps step s t"
  shows "steps step s u"
  using assms by (induction rule: steps.induct) (auto intro: steps_next)

text \<open>The check of the state, and the loop if the service is to be started.\<close>

lemma run_is_steps:
  assumes t: "steps life_step s t" and at: "io_at t = Io_check" "armed t" "word t = service_state v"
    and loop: "runs_loop loop" and run: "io_run E loop v = Some (r, w)"
  shows "\<exists>u. steps life_step s u \<and> io_at u = Io_close \<and> word u = service_state w"
proof (cases "service_state v = SVL_SERVICE_STARTING")
  case False
  with run have "w = v" by (simp add: io_run_def svl_service_state_def)
  moreover have "steps life_step s (t\<lparr>io_at := Io_close\<rparr>)" using steps_io [OF t check_other] False at by simp
  ultimately show ?thesis using at by (intro exI [of _ "t\<lparr>io_at := Io_close\<rparr>"]) simp
next
  case True
  let ?u = "t\<lparr>io_at := Io_store\<rparr>" and ?v = "t\<lparr>word := SVL_SERVICE_STARTED, io_at := Io_run\<rparr>"
  have "steps life_step s ?u" using steps_io [OF t check_starting] True at by simp
  then have "steps life_step s (?u\<lparr>word := SVL_SERVICE_STARTED, io_at := Io_run\<rparr>)" by (rule steps_io) (rule store_started, simp)
  then have steps: "steps life_step s ?v" by simp
  from run True have "loop (svl_service_set_state SVL_SERVICE_STARTED v) = Some (r, w)"
    by (simp add: io_run_def svl_service_state_def)
  moreover have "service_state (svl_service_set_state SVL_SERVICE_STARTED v) = SVL_SERVICE_STARTED"
    by (simp add: svl_service_set_state_def)
  moreover have "word ?v = SVL_SERVICE_STARTED" "io_at ?v = Io_run" "armed ?v" using at by simp_all
  ultimately obtain x where x: "steps life_step ?v x" "word x = service_state w" "io_at x = Io_drain"
    using loop unfolding runs_loop_def by blast
  have "steps life_step s (x\<lparr>io_at := Io_close\<rparr>)" using steps_io [OF steps_trans [OF x(1) steps] drained] x(3) by simp
  with x(2) show ?thesis by (intro exI [of _ "x\<lparr>io_at := Io_close\<rparr>"]) simp
qed

text \<open>The end of the body: the loop is closed, and a failure is stored.\<close>

lemma close_is_steps:
  assumes "steps life_step s t" and "io_at t = Io_close" and "word t = service_state w"
    and "io_close_loop E w = Some (r, w1)" and "w' = leave_io (io_cleanup E ((enter_io w1)\<lparr>io_ret := r\<rparr>))"
  shows "\<exists>s'. steps life_step s s' \<and> word s' = service_state w' \<and> io_at s' = Io_done"
proof -
  have state: "service_state w' = (if r \<noteq> TN_SUCCESS then SVL_SERVICE_ERROR else service_state w)"
    unfolding assms(5) cleanup_state using io_close_loop_state [OF assms(4)]
    by (simp add: enter_io_def world.defs io_frame.defs)
  show ?thesis
  proof (cases "r = TN_SUCCESS")
    case True
    have "steps life_step s (t\<lparr>io_at := Io_done\<rparr>)" using steps_io [OF assms(1) closed] assms(2) by simp
    with True state assms(3) show ?thesis by (intro exI [of _ "t\<lparr>io_at := Io_done\<rparr>"]) simp
  next
    case False
    let ?t = "t\<lparr>io_at := Io_failed\<rparr>"
    have failed: "steps life_step s ?t" using steps_io [OF assms(1) close_fails] assms(2) by simp
    have "steps life_step s (?t\<lparr>word := SVL_SERVICE_ERROR, io_at := Io_done\<rparr>)" using steps_io [OF failed store_error] by simp
    with False state show ?thesis by (intro exI [of _ "?t\<lparr>word := SVL_SERVICE_ERROR, io_at := Io_done\<rparr>"]) simp
  qed
qed

text \<open>The end of a set-up that failed.\<close>

lemma failed_is_steps:
  assumes "io_at s = Io_setup" and "word s = service_state w" and "ended E w f" and "w' = leave_io (io_cleanup E f)"
  shows "\<exists>s'. steps life_step s s' \<and> word s' = service_state w' \<and> io_at s' = Io_done"
proof (cases "io_ret f = TN_SUCCESS")
  case True
  have "steps life_step s (s\<lparr>io_at := Io_done\<rparr>)" using steps_io [OF steps_refl setup_fails_quietly] assms(1) by simp
  with True assms(2-4) show ?thesis
    by (intro exI [of _ "s\<lparr>io_at := Io_done\<rparr>"]) (simp add: cleanup_state ended_def)
next
  case False
  let ?t = "s\<lparr>io_at := Io_failed\<rparr>"
  have failed: "steps life_step s ?t" using steps_io [OF steps_refl setup_fails] assms(1) by simp
  have "steps life_step s (?t\<lparr>word := SVL_SERVICE_ERROR, io_at := Io_done\<rparr>)" using steps_io [OF failed store_error] by simp
  with False assms(4) show ?thesis
    by (intro exI [of _ "?t\<lparr>word := SVL_SERVICE_ERROR, io_at := Io_done\<rparr>"]) (simp add: cleanup_state)
qed


text \<open>A loop that ends because of SIGINT.\<close>

definition sigint_loop :: "robj world \<Rightarrow> (code \<times> robj world) option" where
  "sigint_loop w = Some (TN_SUCCESS, on_sigint_cb True w)"

lemma sigint_runs_loop: "runs_loop sigint_loop"
  unfolding runs_loop_def
proof (intro allI impI)
  fix w r w' and s :: life
  assume loop: "sigint_loop w = Some (r, w')" and w: "service_state w = SVL_SERVICE_STARTED"
    and s: "word s = SVL_SERVICE_STARTED" "io_at s = Io_run" "armed s"
  let ?t = "s\<lparr>io_at := Io_signal, armed := False\<rparr>"
  let ?u = "?t\<lparr>word := SVL_SERVICE_STOPPING, io_at := Io_run\<rparr>"
  have "steps life_step s ?t" by (rule steps_io [OF steps_refl]) (rule sigint_load, simp_all add: s)
  then have "steps life_step s ?u" by (rule steps_io) (rule sigint_store, simp)
  then have "steps life_step s (?u\<lparr>io_at := Io_drain\<rparr>)" by (rule steps_io) (rule timer_fires, simp_all)
  moreover have "service_state w' = SVL_SERVICE_STOPPING"
    using loop w by (auto simp: sigint_loop_def on_sigint_cb_def svl_service_stop_signal_def svl_service_state_def
        svl_service_set_state_def Let_def)
  ultimately show "\<exists>s'. steps life_step s s' \<and> word s' = service_state w' \<and> io_at s' = Io_drain"
    by (intro exI [of _ "?u\<lparr>io_at := Io_drain\<rparr>"]) simp
qed

text \<open>The service of the reference run at the moment its IO thread is launched.\<close>

lemma ref_launched:
  "\<exists>w f lp. service_priv w \<noteq> None \<and> service_state w = SVL_SERVICE_STARTING \<and>
     guards (io_setup_stmts ref_ext ref_req (buffer_count w)) (io_start w) = Some (TN_SUCCESS, f) \<and> uv_loop (priv_data f) = Some lp"
proof -
  from ref_boot obtain w1 w f where
    start: "svl_service_start ref_ext w1 = (TN_SUCCESS, w)" and prep: "svl_service_setup ref_ext ref_req 1 ref_world = Some (TN_SUCCESS, w1)"
    and f: "guards (io_setup_stmts ref_ext ref_req (buffer_count w)) (io_start w) = Some (TN_SUCCESS, f)"
    and booted: "ref_booted = \<lparr>world_of = svl_service_set_state SVL_SERVICE_STARTED (leave_io f), holding = False, writes_of = []\<rparr>"
    by (auto simp: boot_def Let_def case_success split: option.splits prod.splits if_splits)
  have n: "sizes_ok ref_ext 1" by (simp add: sizes_ok_def)
  have log: "log_ok (log ref_world)" "calm (log ref_world)" by (simp_all add: ref_world_def calm_def)
  from service_setup_ready [OF ref_env n log prep] have
    "service_priv w1 \<noteq> None" and "service_state w1 = SVL_SERVICE_NEW" by (auto simp: service_ready_def)
  with start have w: "service_priv w \<noteq> None" "service_state w = SVL_SERVICE_STARTING"
    by (auto simp: svl_service_start_def svl_service_state_def svl_service_set_state_def Let_def split: if_splits)
  have "\<exists>lp. map_option (\<lambda>s. uv_loop (priv_data (world_of s))) (boot ref_ext ref_req ref_req 1 None ref_world) = Some (Some lp)"
    by (simp add: ref_eval)
  then have "uv_loop (priv_data (world_of ref_booted)) \<noteq> None" by (auto simp: ref_boot)
  moreover have "priv_data (world_of ref_booted) = priv_data f"
    unfolding booted by (simp add: svl_service_set_state_def leave_io_def world.defs)
  ultimately have "uv_loop (priv_data f) \<noteq> None" by simp
  with w f show ?thesis by blast
qed


end
