(* ===== verification/Svl_IO_Memory.thy ===== *)
theory Svl_IO_Memory
  imports Svl_Memory Svl_Startup
begin

text \<open>
  The memory of the IO thread when its set-up fails (\<^verbatim>\<open>svl_service_io_thread\<close> of \<^verbatim>\<open>src/src/svlynx/service.c\<close>):
  which of the blocks it has taken by then are given back at the \<^verbatim>\<open>cleanup\<close> label, and when giving them
  back is allowed.
\<close>

section \<open>The blocks of the IO thread\<close>

text \<open>The blocks that the set-up acquires, in the order in which it does.\<close>

definition io_blocks :: "'t svl_service_priv \<Rightarrow> addr list" where
  "io_blocks p = opt (uv_loop p) @ opt (tcp_handle p) @ opt (uv_accept_timer p) @ opt (uv_prep p) @ opt (uv_check p) @
     opt (uv_signal p) @ opt (send_req_ptr p)"

text \<open>An event loop was initialised during the calls \<open>cs\<close>.\<close>

definition loop_begun :: "uv_log \<Rightarrow> bool" where
  "loop_begun cs \<longleftrightarrow> (\<exists>h. (Uv_loop_init h, TN_SUCCESS) \<in> set cs)"

text \<open>Before the event loop is initialised: the blocks are plain memory, and nothing else has changed since the log \<open>lg0\<close>.\<close>

definition plain_blocks :: "uv_log \<Rightarrow> 't io_frame \<Rightarrow> bool" where
  "plain_blocks lg0 f \<longleftrightarrow>
     owns lg0 (log f) (io_blocks (priv_data f)) \<and> log_ok (log f) \<and> (\<exists>cs. log f = cs @ lg0 \<and> \<not> loop_begun cs)"

text \<open>From then on some of them are handles of libuv, and the loop is one for certain.\<close>

definition loop_blocks :: "uv_log \<Rightarrow> 't io_frame \<Rightarrow> bool" where
  "loop_blocks lg0 f \<longleftrightarrow>
     (let bs = io_blocks (priv_data f) in
      distinct bs \<and> (\<forall>a \<in> set bs. status (log f) a \<in> {Allocated, Active}) \<and>
      (\<forall>a. a \<notin> set bs \<longrightarrow> status (log f) a = status lg0 a) \<and> (\<forall>a \<in> set bs. status lg0 a = Absent) \<and>
      (\<exists>lp. uv_loop (priv_data f) = Some lp \<and> status (log f) lp = Active) \<and>
      log_ok (log f) \<and> (\<exists>cs. log f = cs @ lg0 \<and> loop_begun cs))"

section \<open>Acquiring the blocks\<close>

lemma plain_acquire:
  assumes mem: "mem_laws E" and f: "plain_blocks lg0 f"
    and bs: "\<And>q v. priv_data v = priv_data f \<Longrightarrow> io_blocks (priv_data (store q v)) = io_blocks (priv_data f) @ opt q"
    and lg: "\<And>q v. log (store q v) = log v"
    and run: "acquire E b n store f = Some (r, f')"
  shows "plain_blocks lg0 f'"
proof -
  let ?p = "TN_MEM_ACQUIRE E (log f) b n"
  let ?lg = "(Mem_acquire b n ?p, TN_SUCCESS) # log f"
  from run have f': "f' = store ?p (f\<lparr>log := ?lg\<rparr>)" by (auto simp: acquire_def Let_def)
  have "io_blocks (priv_data f') = io_blocks (priv_data f) @ opt ?p"
    by (simp add: f' bs)
  moreover have "log f' = ?lg" by (simp add: f' lg)
  moreover obtain cs where "log f = cs @ lg0" "\<not> loop_begun cs" using f by (auto simp: plain_blocks_def)
  then have "\<exists>cs. ?lg = cs @ lg0 \<and> \<not> loop_begun cs"
    by (intro exI [of _ "(Mem_acquire b n ?p, TN_SUCCESS) # cs"]) (simp add: loop_begun_def)
  ultimately show ?thesis
    using f owns_acquire [OF mem, of lg0 "log f" "io_blocks (priv_data f)"] by (simp add: plain_blocks_def)
qed

text \<open>Before its \<open>k\<close>-th allocation the pointers from the \<open>k\<close>-th on are null.\<close>

definition null_from :: "nat \<Rightarrow> 't svl_service_priv \<Rightarrow> bool" where
  "null_from k p \<longleftrightarrow>
     (\<forall>q \<in> set (drop k [uv_loop p, tcp_handle p, uv_accept_timer p, uv_prep p, uv_check p, uv_signal p, send_req_ptr p]). q = None)"

lemma outcome_acquire_block:
  assumes "mem_laws E"
    and "\<And>p q. null_from k p \<Longrightarrow> io_blocks (upd q p) = io_blocks p @ opt q \<and> null_from (Suc k) (upd q p)"
  shows "outcome (\<lambda>f. plain_blocks lg0 f \<and> null_from k (priv_data f)) (acquire E b n (\<lambda>q. set_priv (upd q)))
    (\<lambda>f. plain_blocks lg0 f \<and> null_from (Suc k) (priv_data f)) (plain_blocks lg0)"
proof (rule outcomeI)
  fix f r f' assume f: "plain_blocks lg0 f \<and> null_from k (priv_data f)"
    and run: "acquire E b n (\<lambda>q. set_priv (upd q)) f = Some (r, f')"
  have "plain_blocks lg0 f'"
    by (rule plain_acquire [OF assms(1) _ _ _ run]) (use f assms(2) in \<open>auto simp: set_priv_def\<close>)
  moreover have "null_from (Suc k) (priv_data f')"
    using run f assms(2) by (auto simp: acquire_def Let_def set_priv_def)
  ultimately show "if r = TN_SUCCESS then plain_blocks lg0 f' \<and> null_from (Suc k) (priv_data f') else plain_blocks lg0 f'"
    by simp
qed

lemma outcome_acquire_stmts:
  assumes "mem_laws E"
  shows "outcome (\<lambda>f. plain_blocks lg0 f \<and> null_from 0 (priv_data f)) (guards (acquire_stmts E junk n))
    (plain_blocks lg0) (plain_blocks lg0)"
  unfolding acquire_stmts_def
  by ((rule outcome_guards_Cons, rule outcome_acquire_block [OF assms],
       simp add: null_from_def io_blocks_def)+, rule outcome_guards_Nil) simp

lemma plain_keeps:
  assumes "priv_data f' = (priv_data f)\<lparr>send_req_list := x\<rparr>" and "log f' = log f"
  shows "plain_blocks lg0 f' = plain_blocks lg0 f"
  using assms by (simp add: plain_blocks_def io_blocks_def)

lemma fill_send_reqs_plain: "fill_send_reqs E k i f = Some (r, f') \<Longrightarrow> plain_blocks lg0 f' = plain_blocks lg0 f"
proof (induction k arbitrary: i f)
  case (Suc k)
  obtain r1 l where push: "tn_list_ptr_push_back E (send_req_list (priv_data f)) i = (r1, l)" by fastforce
  let ?f = "set_priv (\<lambda>p. p\<lparr>send_req_list := l\<rparr>) f"
  have "plain_blocks lg0 ?f = plain_blocks lg0 f" by (rule plain_keeps) (simp_all add: set_priv_def)
  with Suc.prems push Suc.IH [of "Suc i" ?f] show ?case by (simp add: Let_def split: if_splits)
qed simp

text \<open>The part of the set-up before the event loop.\<close>

definition memory_stmts :: "'t ext \<Rightarrow> svl_service_write_req \<Rightarrow> u64 \<Rightarrow> 't io_frame stmt list" where
  "memory_stmts E junk n = acquire_stmts E junk n @
     [setup_obj (tn_list_ptr_setup E n) (\<lambda>x. set_priv (\<lambda>p. p\<lparr>send_req_list := x\<rparr>)), fill_send_reqs E (unat n) 0]"

lemma outcome_memory_stmts:
  assumes "mem_laws E"
  shows "outcome (\<lambda>f. plain_blocks lg0 f \<and> null_from 0 (priv_data f)) (guards (memory_stmts E junk n))
    (plain_blocks lg0) (plain_blocks lg0)"
proof -
  have list: "outcome (plain_blocks lg0) (setup_obj res (\<lambda>x. set_priv (\<lambda>p. p\<lparr>send_req_list := x\<rparr>))) (plain_blocks lg0) (plain_blocks lg0)"
    for res by (rule outcome_obj) (rule plain_keeps, simp_all add: set_priv_def)
  have fill: "outcome (plain_blocks lg0) (fill_send_reqs E k i) (plain_blocks lg0) (plain_blocks lg0)" for k i
    by (rule outcomeI) (metis fill_send_reqs_plain)
  show ?thesis
    unfolding memory_stmts_def
    by (rule outcome_guards_append, rule outcome_acquire_stmts [OF assms], rule outcome_guards) (auto simp: list fill)
qed

section \<open>Starting the event loop\<close>

lemma io_uv_result:
  assumes "io_uv E sel c f = Some (r, f')"
  obtains h where "sel (priv_data f) = Some h" and "f' = f\<lparr>log := (c h f, r) # log f, io_ret := r\<rparr>"
  using assms by (auto simp: io_uv_def uv_do_def Let_def split: option.splits)

text \<open>The handles of the loop in the order in which they are initialised; \<open>k\<close> of them are.\<close>

definition io_handles :: "'t svl_service_priv \<Rightarrow> handle option list" where
  "io_handles p = [uv_accept_timer p, uv_prep p, uv_check p, uv_signal p, tcp_handle p]"

definition started :: "uv_log \<Rightarrow> nat \<Rightarrow> 't io_frame \<Rightarrow> bool" where
  "started lg0 k f \<longleftrightarrow> loop_blocks lg0 f \<and>
     (\<forall>i < 5. \<forall>h. io_handles (priv_data f) ! i = Some h \<longrightarrow> status (log f) h = (if i < k then Active else Allocated))"

lemma started_loop_blocks: "started lg0 k f \<Longrightarrow> loop_blocks lg0 f"
  by (simp add: started_def)

lemma less_5: "(i :: nat) < 5 \<longleftrightarrow> i = 0 \<or> i = 1 \<or> i = 2 \<or> i = 3 \<or> i = 4"
  by auto

lemma io_handles_distinct:
  assumes "distinct (io_blocks p)" and "i < 5" and "j < 5" and "i \<noteq> j"
    and "io_handles p ! i = Some h" and "io_handles p ! j = Some h'"
  shows "h \<noteq> h'"
  using assms unfolding less_5 io_handles_def io_blocks_def by (elim disjE) (auto split: option.splits)

lemma io_handles_blocks:
  assumes "i < 5" and "io_handles p ! i = Some h"
  shows "h \<in> set (io_blocks p)" and "distinct (io_blocks p) \<Longrightarrow> uv_loop p \<noteq> Some h"
  using assms unfolding less_5 io_handles_def io_blocks_def by (elim disjE; auto split: option.splits)+

text \<open>A call that libuv allows now and that only the handle \<open>h\<close> may notice.\<close>

lemma loop_blocks_call:
  assumes f: "loop_blocks lg0 f" and h: "h \<in> set (io_blocks (priv_data f))" and loop: "uv_loop (priv_data f) \<noteq> Some h \<or> s = Active"
    and call: "call_ok (log f) c" and st: "status ((c, r) # log f) = (status (log f))(h := s)" and s: "s = Allocated \<or> s = Active"
  shows "loop_blocks lg0 (f\<lparr>log := (c, r) # log f, io_ret := r'\<rparr>)"
proof -
  from f obtain cs where cs: "log f = cs @ lg0" "loop_begun cs" by (auto simp: loop_blocks_def Let_def)
  from cs have "\<exists>cs'. (c, r) # log f = cs' @ lg0 \<and> loop_begun cs'"
    by (intro exI [of _ "(c, r) # cs"]) (auto simp: loop_begun_def)
  then show ?thesis
    using f h loop call s unfolding loop_blocks_def Let_def by (auto simp: st simp del: status.simps)
qed

text \<open>The calls that turn memory into a handle, and those that use a handle.\<close>

definition inits :: "(handle \<Rightarrow> uv_call) \<Rightarrow> bool" where
  "inits c \<longleftrightarrow> (\<forall>lg h r. call_ok lg (c h) = (status lg h = Allocated) \<and>
     status ((c h, r) # lg) = (if r = TN_SUCCESS then (status lg)(h := Active) else status lg))"

definition uses :: "(handle \<Rightarrow> 't io_frame \<Rightarrow> uv_call) \<Rightarrow> bool" where
  "uses c \<longleftrightarrow> (\<forall>lg h f r. call_ok lg (c h f) = (status lg h = Active) \<and> status ((c h f, r) # lg) = status lg)"

lemma inits_calls: "inits Uv_timer_init" "inits Uv_prepare_init" "inits Uv_check_init" "inits Uv_signal_init" "inits Uv_tcp_init"
  by (simp_all add: inits_def fun_eq_iff)

lemma uses_calls:
  "uses (\<lambda>h f. Uv_timer_start h a b)" "uses (\<lambda>h f. Uv_prepare_start h)" "uses (\<lambda>h f. Uv_check_start h)"
  "uses (\<lambda>h f. Uv_signal_start h)" "uses (\<lambda>h f. Uv_tcp_nodelay h)" "uses (\<lambda>h f. Uv_tcp_bind h (host_listen f))"
  "uses (\<lambda>h f. Uv_listen h (backlog f))"
  by (simp_all add: uses_def fun_eq_iff)

lemma outcome_init:
  assumes c: "inits c" and k: "k < 5" "\<And>p. io_handles p ! k = sel p"
  shows "outcome (started lg0 k) (io_uv E sel (\<lambda>h f. c h)) (started lg0 (Suc k)) (loop_blocks lg0)"
proof (rule outcomeI)
  fix f r f' assume f: "started lg0 k f" and run: "io_uv E sel (\<lambda>h f. c h) f = Some (r, f')"
  from run obtain h where h: "sel (priv_data f) = Some h" and f': "f' = f\<lparr>log := (c h, r) # log f, io_ret := r\<rparr>"
    by (rule io_uv_result)
  have hk: "io_handles (priv_data f) ! k = Some h" using k h by simp
  have lb: "loop_blocks lg0 f" and d: "distinct (io_blocks (priv_data f))" using f by (simp_all add: started_def loop_blocks_def Let_def)
  have al: "status (log f) h = Allocated" using f k hk by (simp add: started_def)
  have st: "status ((c h, r) # log f) = (status (log f))(h := if r = TN_SUCCESS then Active else Allocated)"
    using c al by (auto simp: inits_def fun_upd_idem simp del: status.simps)
  have "loop_blocks lg0 f'"
    unfolding f' by (rule loop_blocks_call [OF lb io_handles_blocks(1) [OF k(1) hk] _ _ st])
      (use c al io_handles_blocks(2) [OF k(1) hk d] in \<open>auto simp: inits_def\<close>)
  moreover have st': "status (log f') = (status (log f))(h := if r = TN_SUCCESS then Active else Allocated)"
    using st by (simp add: f' del: status.simps)
  have "started lg0 (Suc k) f'" if "r = TN_SUCCESS"
    unfolding started_def
  proof (intro conjI allI impI)
    show "loop_blocks lg0 f'" by fact
    fix i h' assume i: "i < 5" "io_handles (priv_data f') ! i = Some h'"
    then have "status (log f) h' = (if i < k then Active else Allocated)" using f by (simp add: started_def f')
    moreover have "h' = h \<longleftrightarrow> i = k" using io_handles_distinct [OF d i(1) k(1) _ _ hk] i(2) hk by (auto simp: f')
    ultimately show "status (log f') h' = (if i < Suc k then Active else Allocated)"
      using that st' by auto
  qed
  ultimately show "if r = TN_SUCCESS then started lg0 (Suc k) f' else loop_blocks lg0 f'" by simp
qed

lemma outcome_use:
  assumes c: "uses c" and k: "j < k" "j < 5" "\<And>p. io_handles p ! j = sel p"
  shows "outcome (started lg0 k) (io_uv E sel c) (started lg0 k) (loop_blocks lg0)"
proof (rule outcomeI)
  fix f r f' assume f: "started lg0 k f" and run: "io_uv E sel c f = Some (r, f')"
  from run obtain h where h: "sel (priv_data f) = Some h" and f': "f' = f\<lparr>log := (c h f, r) # log f, io_ret := r\<rparr>"
    by (rule io_uv_result)
  have hj: "io_handles (priv_data f) ! j = Some h" using k h by simp
  have ac: "status (log f) h = Active" using f k hj by (simp add: started_def)
  have st: "status ((c h f, r) # log f) = (status (log f))(h := Active)"
    using c ac by (auto simp: uses_def fun_upd_idem simp del: status.simps)
  have "loop_blocks lg0 f'"
    unfolding f' by (rule loop_blocks_call [OF started_loop_blocks [OF f] io_handles_blocks(1) [OF k(2) hj] _ _ st])
      (use c ac in \<open>auto simp: uses_def\<close>)
  moreover have "status (log f') = status (log f)" using c by (simp add: f' uses_def del: status.simps)
  moreover have "priv_data f' = priv_data f" by (simp add: f')
  ultimately show "if r = TN_SUCCESS then started lg0 k f' else loop_blocks lg0 f'"
    using f by (simp add: started_def)
qed

lemma outcome_init_use:
  assumes "inits c" and "uses d" and k: "k < 5" "\<And>p. io_handles p ! k = sel p"
    and "outcome (started lg0 (Suc k)) (guards ps) Q (loop_blocks lg0)"
  shows "outcome (started lg0 k) (guards (io_uv E sel (\<lambda>h f. c h) # io_uv E sel d # ps)) Q (loop_blocks lg0)"
proof (rule outcome_guards_Cons [OF outcome_init [OF assms(1) k]])
  show "outcome (started lg0 (Suc k)) (guards (io_uv E sel d # ps)) Q (loop_blocks lg0)"
    by (rule outcome_guards_Cons [OF outcome_use [OF assms(2) _ k]]) (use assms(5) in simp_all)
qed

text \<open>The first call of libuv, which makes the event loop.\<close>

lemma outcome_loop_init:
  "outcome (plain_blocks lg0) (io_uv E uv_loop (\<lambda>h f. Uv_loop_init h)) (started lg0 0)
     (\<lambda>f. plain_blocks lg0 f \<or> loop_blocks lg0 f)"
proof (rule outcomeI)
  fix f r f' assume f: "plain_blocks lg0 f" and run: "io_uv E uv_loop (\<lambda>h f. Uv_loop_init h) f = Some (r, f')"
  from run obtain lp where lp: "uv_loop (priv_data f) = Some lp"
    and f': "f' = f\<lparr>log := (Uv_loop_init lp, r) # log f, io_ret := r\<rparr>" by (rule io_uv_result)
  let ?bs = "io_blocks (priv_data f)"
  from f obtain cs where cs: "log f = cs @ lg0" "\<not> loop_begun cs" and own: "owns lg0 (log f) ?bs" and ok: "log_ok (log f)"
    by (auto simp: plain_blocks_def)
  from lp have mem: "lp \<in> set ?bs" by (simp add: io_blocks_def)
  with own have al: "status (log f) lp = Allocated" by (simp add: owns_def)
  have log: "\<exists>cs'. log f' = cs' @ lg0 \<and> loop_begun cs' = (r = TN_SUCCESS)"
    using cs by (intro exI [of _ "(Uv_loop_init lp, r) # cs"]) (auto simp: f' loop_begun_def)
  have ok': "log_ok (log f')" using ok al by (simp add: f')
  have p': "priv_data f' = priv_data f" by (simp add: f')
  have st: "status (log f') = (if r = TN_SUCCESS then (status (log f))(lp := Active) else status (log f))"
    by (auto simp: f' fun_eq_iff)
  show "if r = TN_SUCCESS then started lg0 0 f' else plain_blocks lg0 f' \<or> loop_blocks lg0 f'"
  proof (cases "r = TN_SUCCESS")
    case True
    have "loop_blocks lg0 f'"
      using own ok' log True mem lp unfolding loop_blocks_def Let_def p' by (auto simp: st owns_def)
    moreover have "status (log f') h = Allocated" if "i < 5" "io_handles (priv_data f) ! i = Some h" for i h
      using io_handles_blocks [OF that] own lp by (auto simp: owns_def st)
    ultimately show ?thesis using True by (simp add: started_def p')
  next
    case False
    then show ?thesis using own ok' log by (simp add: plain_blocks_def p' st owns_def)
  qed
qed

lemma outcome_listen_blocks: "outcome (started lg0 4) (listen_stmt E) (\<lambda>f. True) (loop_blocks lg0)"
proof -
  have "outcome (started lg0 4) (guards (listen_stmts E)) (started lg0 5) (loop_blocks lg0)"
    unfolding listen_stmts_def
    apply (rule outcome_guards_Cons, rule outcome_init [of _ 4, simplified], rule inits_calls, simp add: io_handles_def)
    apply ((rule outcome_guards_Cons, rule outcome_use [of _ 4], rule uses_calls, simp, simp, simp add: io_handles_def)+)
    by (rule outcome_guards_Cons, rule outcomeI, use started_loop_blocks in auto, rule outcome_guards_Nil)
  then show ?thesis
    unfolding outcome_def listen_stmt_def Let_def by auto
qed

text \<open>The part of the set-up that starts the event loop.\<close>

lemma outcome_uv_stmts:
  "outcome (plain_blocks lg0) (guards (uv_start_stmts E @ [listen_stmt E])) (\<lambda>f. True)
     (\<lambda>f. plain_blocks lg0 f \<or> loop_blocks lg0 f)"
proof -
  have four: "(4 :: nat) = Suc (Suc (Suc (Suc 0)))" by simp
  have "outcome (started lg0 0) (guards (tl (uv_start_stmts E) @ [listen_stmt E])) (\<lambda>f. True) (loop_blocks lg0)"
    unfolding uv_start_stmts_def list.sel append.simps
    by (rule outcome_init_use [OF inits_calls(1) uses_calls(1)], simp, simp add: io_handles_def,
        rule outcome_init_use [OF inits_calls(2) uses_calls(2)], simp, simp add: io_handles_def,
        rule outcome_init_use [OF inits_calls(3) uses_calls(3)], simp, simp add: io_handles_def,
        rule outcome_init_use [OF inits_calls(4) uses_calls(4)], simp, simp add: io_handles_def,
        rule outcome_guards_Cons, rule outcome_listen_blocks [unfolded four], rule outcome_guards_Nil) simp
  then have "outcome (started lg0 0) (guards (tl (uv_start_stmts E) @ [listen_stmt E])) (\<lambda>f. True)
     (\<lambda>f. plain_blocks lg0 f \<or> loop_blocks lg0 f)" by (rule outcome_weaken) simp_all
  from outcome_guards_Cons [OF outcome_loop_init this] show ?thesis by (simp add: uv_start_stmts_def)
qed

section \<open>Giving the blocks back\<close>

lemma status_release_all:
  "status (fold mem_release ps lg) a = (if Some a \<in> set ps then Absent else status lg a)"
  by (induction ps arbitrary: lg) (auto simp: mem_release_def split: option.splits)

lemma log_ok_release_all:
  assumes "distinct (concat (map opt ps))"
  shows "log_ok (fold mem_release ps lg) \<longleftrightarrow>
    log_ok lg \<and> (\<forall>a. Some a \<in> set ps \<longrightarrow> status lg a = Allocated \<or> is_closing_status (status lg a))"
  using assms
proof (induction ps arbitrary: lg)
  case (Cons p ps)
  show ?case
  proof (cases p)
    case None
    with Cons show ?thesis by simp
  next
    case (Some b)
    with Cons.prems have "Some b \<notin> set ps" by force
    with Cons Some show ?thesis by auto
  qed
qed simp

lemma release_all_log: "\<exists>cs. fold mem_release ps lg = cs @ lg \<and> \<not> loop_begun cs"
proof (induction ps arbitrary: lg)
  case Nil
  then show ?case by (simp add: loop_begun_def)
next
  case (Cons p ps)
  show ?case
  proof (cases p)
    case None
    with Cons show ?thesis by simp
  next
    case (Some b)
    from Cons [of "mem_release p lg"] obtain cs where "fold mem_release ps (mem_release p lg) = cs @ mem_release p lg" "\<not> loop_begun cs"
      by blast
    with Some show ?thesis by (intro exI [of _ "cs @ [(Mem_release b, TN_SUCCESS)]"]) (auto simp: loop_begun_def)
  qed
qed

text \<open>The pointers that the code at the label releases.\<close>

definition released :: "'t svl_service_priv \<Rightarrow> addr option list" where
  "released p = [uv_check p, uv_prep p, uv_accept_timer p, tcp_handle p, uv_loop p, send_req_ptr p]"

lemma io_cleanup_log:
  "log (leave_io (io_cleanup E f)) = fold mem_release (released (priv_data f)) (log f)"
  "uv_signal (priv_data (leave_io (io_cleanup E f))) = uv_signal (priv_data f)"
  by (simp_all add: io_cleanup_def Let_def release_field_def set_priv_def release_mem_def svl_service_set_state_def leave_io_def
      world.defs released_def)

lemma released_blocks:
  "set (io_blocks p) = {a. Some a \<in> set (released p)} \<union> set_option (uv_signal p)"
  by (auto simp: io_blocks_def released_def split: option.splits)

lemma released_distinct:
  assumes "distinct (io_blocks p)"
  shows "distinct (concat (map opt (released p)))" and "uv_signal p = Some a \<Longrightarrow> Some a \<notin> set (released p)"
  using assms by (auto simp: io_blocks_def released_def split: option.splits)

section \<open>A set-up that fails\<close>

lemma failed_setup_blocks:
  assumes mem: "mem_laws E" and w: "log_ok (log w)" "uv_signal (priv_data w) = None" "send_req_ptr (priv_data w) = None"
    and run: "guards (io_setup_stmts E junk n) (io_start w) = Some (r, f)" and r: "r \<noteq> TN_SUCCESS"
  shows "plain_blocks (log w) f \<or> loop_blocks (log w) f"
proof -
  let ?ends = "\<lambda>f. plain_blocks (log w) f \<or> loop_blocks (log w) f"
  have "outcome (\<lambda>f. plain_blocks (log w) f \<and> null_from 0 (priv_data f)) (guards (memory_stmts E junk n))
      (plain_blocks (log w)) ?ends"
    by (rule outcome_weaken [OF outcome_memory_stmts [OF mem, of "log w"]]) auto
  from outcome_guards_append [OF this outcome_uv_stmts]
  have stmts: "outcome (\<lambda>f. plain_blocks (log w) f \<and> null_from 0 (priv_data f)) (guards (io_setup_stmts E junk n)) (\<lambda>f. True) ?ends"
    by (simp add: io_setup_stmts_def memory_stmts_def)
  have "plain_blocks (log w) (io_start w) \<and> null_from 0 (priv_data (io_start w))"
    using w by (simp add: plain_blocks_def null_from_def io_blocks_def owns_refl loop_begun_def enter_io_def set_priv_def
        world.defs io_frame.defs)
  from outcomeD [OF stmts this run] r show ?thesis by simp
qed

lemma released_outcome:
  fixes f :: "'t io_frame"
  defines "lg \<equiv> fold mem_release (released (priv_data f)) (log f)"
  assumes f: "plain_blocks lg0 f \<or> loop_blocks lg0 f"
  shows "\<exists>cs s. lg = cs @ lg0 \<and> (log_ok lg \<longleftrightarrow> \<not> loop_begun cs) \<and> s \<in> {Allocated, Active} \<and>
    status lg = (\<lambda>a. if uv_signal (priv_data f) = Some a then s else status lg0 a)"
proof -
  let ?bs = "io_blocks (priv_data f)" and ?rel = "released (priv_data f)"
  from f have d: "distinct ?bs" and ok: "log_ok (log f)" and old: "\<forall>a. a \<notin> set ?bs \<longrightarrow> status (log f) a = status lg0 a"
    and new: "\<forall>a \<in> set ?bs. status lg0 a = Absent" and st: "\<forall>a \<in> set ?bs. status (log f) a \<in> {Allocated, Active}"
    unfolding plain_blocks_def loop_blocks_def owns_def Let_def by auto
  from f obtain cs0 where cs0: "log f = cs0 @ lg0" and begun:
    "if loop_begun cs0 then \<exists>lp. uv_loop (priv_data f) = Some lp \<and> status (log f) lp = Active
     else \<forall>a \<in> set ?bs. status (log f) a = Allocated"
    unfolding plain_blocks_def loop_blocks_def owns_def Let_def by auto
  obtain cs1 where cs1: "lg = cs1 @ log f" "\<not> loop_begun cs1" unfolding lg_def using release_all_log by blast
  have "lg = (cs1 @ cs0) @ lg0" "loop_begun (cs1 @ cs0) = loop_begun cs0"
    using cs0 cs1 by (auto simp: loop_begun_def)
  moreover have "log_ok lg \<longleftrightarrow> \<not> loop_begun cs0"
    unfolding lg_def log_ok_release_all [OF released_distinct(1) [OF d]]
    using ok begun st by (auto simp: released_blocks [of "priv_data f"] released_def split: if_splits)
  moreover define s where "s = (case uv_signal (priv_data f) of Some a \<Rightarrow> status (log f) a | None \<Rightarrow> Allocated)"
  have "s \<in> {Allocated, Active}"
    using st released_blocks [of "priv_data f"] by (auto simp: s_def split: option.splits)
  moreover have "status lg a = (if uv_signal (priv_data f) = Some a then s else status lg0 a)" for a
    unfolding lg_def status_release_all
    using old new released_distinct(2) [OF d] released_blocks [of "priv_data f"] by (auto simp: s_def)
  then have "status lg = (\<lambda>a. if uv_signal (priv_data f) = Some a then s else status lg0 a)" by blast
  ultimately show ?thesis by metis
qed

text \<open>
  C24. Memory of a failed start.  If the set-up of the IO thread fails on a service that has not been
  started before, whichever statement it is, the code at the cleanup label gives back every block the
  set-up has acquired except the signal handle, which is lost; and it keeps the rules of libuv and of
  the allocator exactly if the event loop had not been initialised by then: otherwise it releases
  the loop, and any handles on it, without closing them.
\<close>

theorem io_thread_failed_memory:
  assumes "mem_laws E" and "log_ok (log w)" and "service_priv w \<noteq> None" and "uv_signal (priv_data w) = None"
    and "send_req_ptr (priv_data w) = None"
    and "guards (io_setup_stmts E junk (buffer_count w)) (io_start w) = Some (r, f)" and "r \<noteq> TN_SUCCESS"
  shows "\<exists>w' cs s. svl_service_io_thread E junk loop w = Some w' \<and> log w' = cs @ log w \<and>
    (log_ok (log w') \<longleftrightarrow> \<not> loop_begun cs) \<and> s \<in> {Allocated, Active} \<and>
    status (log w') = (\<lambda>a. if uv_signal (priv_data w') = Some a then s else status (log w) a)"
proof -
  have "svl_service_io_thread E junk loop w = Some (leave_io (io_cleanup E f))"
    using assms(3,6,7) by (auto simp: svl_service_io_thread_def Let_def)
  moreover from failed_setup_blocks [OF assms(1,2,4-7)] released_outcome [of "log w" f]
  have "\<exists>cs s. log (leave_io (io_cleanup E f)) = cs @ log w \<and> (log_ok (log (leave_io (io_cleanup E f))) \<longleftrightarrow> \<not> loop_begun cs) \<and>
      s \<in> {Allocated, Active} \<and> status (log (leave_io (io_cleanup E f))) =
        (\<lambda>a. if uv_signal (priv_data (leave_io (io_cleanup E f))) = Some a then s else status (log w) a)"
    unfolding io_cleanup_log by blast
  ultimately show ?thesis by blast
qed

text \<open>An environment in which the timer cannot be initialised, and one in which the memory for the array of write requests is missing.\<close>

definition ref_no_timer :: "robj ext" where
  "ref_no_timer = ref_ext\<lparr>uv_ret := (\<lambda>lg c. case c of Uv_timer_init h \<Rightarrow> UV_ENOMEM | _ \<Rightarrow> TN_SUCCESS)\<rparr>"

definition ref_no_reqs :: "robj ext" where
  "ref_no_reqs = ref_ext\<lparr>TN_MEM_ACQUIRE := (\<lambda>lg b n. if b = Blk_write_req then None else TN_MEM_ACQUIRE ref_ext lg b n)\<rparr>"

lemma ref_failing_mem: "mem_laws ref_no_timer" "mem_laws ref_no_reqs"
  using env_okD(7) [OF ref_env] by (auto simp: mem_laws_def ref_no_timer_def ref_no_reqs_def)

lemma ref_failing_simps:
  "sizeof ref_no_timer = (\<lambda>_. 128)" "TN_MEM_ACQUIRE ref_no_timer = (\<lambda>lg b n. Some (ref_fresh lg))"
  "tn_list_ptr_setup ref_no_timer = (\<lambda>n. (TN_SUCCESS, RList (unat n) []))"
  "uv_ret ref_no_timer lg (Uv_loop_init h) = TN_SUCCESS" "uv_ret ref_no_timer lg (Uv_timer_init h) = UV_ENOMEM"
  "sizeof ref_no_reqs = (\<lambda>_. 128)"
  "TN_MEM_ACQUIRE ref_no_reqs lg b n = (if b = Blk_write_req then None else Some (ref_fresh lg))"
  by (simp_all add: ref_no_timer_def ref_no_reqs_def)

lemma ref_no_reqs_fails:
  "\<exists>f. guards (io_setup_stmts ref_no_reqs ref_req 0) (io_start starting_world) = Some (UV_ENOMEM, f) \<and> \<not> loop_begun (log f)"
  by (simp add: loop_begun_def io_setup_eval acquire_def ref_failing_simps Let_def starting_world_def ref_world_def world.defs del: status.simps)

lemma ref_no_timer_memory:
  "\<exists>f. guards (memory_stmts ref_no_timer ref_req 0) (io_start starting_world) = Some (TN_SUCCESS, f) \<and>
     uv_loop (priv_data f) = Some 1 \<and> uv_accept_timer (priv_data f) = Some 3"
  by (simp add: memory_stmts_def acquire_stmts_def set_priv_def enter_io_def io_frame.defs acquire_def setup_obj_def
      ref_failing_simps Let_def starting_world_def ref_world_def world.defs)

lemma ref_no_timer_fails:
  "\<exists>f. guards (io_setup_stmts ref_no_timer ref_req 0) (io_start starting_world) = Some (UV_ENOMEM, f) \<and> loop_begun (log f)"
proof -
  from ref_no_timer_memory obtain f where "guards (memory_stmts ref_no_timer ref_req 0) (io_start starting_world) = Some (TN_SUCCESS, f)"
    and "uv_loop (priv_data f) = Some 1" "uv_accept_timer (priv_data f) = Some 3" by blast
  moreover have "io_setup_stmts ref_no_timer ref_req 0 = memory_stmts ref_no_timer ref_req 0 @ uv_start_stmts ref_no_timer @ [listen_stmt ref_no_timer]"
    by (simp add: io_setup_stmts_def memory_stmts_def)
  ultimately show ?thesis
    by (simp add: guards_append uv_start_stmts_def io_uv_def uv_do_def Let_def ref_failing_simps loop_begun_def) blast
qed

lemma starting_thread:
  assumes "guards (io_setup_stmts E ref_req 0) (io_start starting_world) = Some (UV_ENOMEM, f)"
    and "svl_service_io_thread E ref_req loop starting_world = Some w'"
  shows "loop_begun (log w') \<longleftrightarrow> loop_begun (log f)"
proof -
  have "w' = leave_io (io_cleanup E f)"
    using assms by (auto simp: svl_service_io_thread_def Let_def starting_world_def ref_world_def)
  moreover obtain cs where "fold mem_release (released (priv_data f)) (log f) = cs @ log f" "\<not> loop_begun cs"
    using release_all_log by blast
  ultimately show ?thesis by (auto simp: io_cleanup_log loop_begun_def)
qed

theorem io_thread_failed_memory_witness:
  "(\<exists>w'. svl_service_io_thread ref_no_timer ref_req (\<lambda>_. None) starting_world = Some w' \<and> \<not> log_ok (log w')) \<and>
   (\<exists>w'. svl_service_io_thread ref_no_reqs ref_req (\<lambda>_. None) starting_world = Some w' \<and> log_ok (log w'))"
proof -
  have w: "log_ok (log starting_world)" "service_priv starting_world \<noteq> None" "uv_signal (priv_data starting_world) = None"
    "send_req_ptr (priv_data starting_world) = None" "buffer_count starting_world = 0" "log starting_world = []"
    by (simp_all add: starting_world_def ref_world_def zero_priv_def)
  from ref_no_timer_fails obtain f where
    f: "guards (io_setup_stmts ref_no_timer ref_req 0) (io_start starting_world) = Some (UV_ENOMEM, f)" "loop_begun (log f)" by blast
  from ref_no_reqs_fails obtain g where
    g: "guards (io_setup_stmts ref_no_reqs ref_req 0) (io_start starting_world) = Some (UV_ENOMEM, g)" "\<not> loop_begun (log g)" by blast
  show ?thesis
    using io_thread_failed_memory [OF ref_failing_mem(1) w(1-4), unfolded w(5), OF f(1), of "\<lambda>_. None"]
      io_thread_failed_memory [OF ref_failing_mem(2) w(1-4), unfolded w(5), OF g(1), of "\<lambda>_. None"]
      starting_thread [OF f(1)] starting_thread [OF g(1)] f(2) g(2) w(6) by auto
qed

end
