(* ===== verification/Svl_Plugin.thy ===== *)
theory Svl_Plugin
  imports Svl_Reference_Run
begin

text \<open>
  The functions the plugin exports, \<^verbatim>\<open>src/svlynx/plugin.c\<close>: thin wrappers of socklynx, and the life of
  one service behind a pointer that the caller keeps.

  socklynx is not part of the repository; its functions are the fields of the record \<open>sl_ext\<close>, over
  an opaque type \<open>'y\<close> of its objects.  A pointer argument is an option, \<open>None\<close> for \<^verbatim>\<open>NULL\<close>.  The
  result of a socklynx function is an \<^verbatim>\<open>int32_t\<close>, here an \<open>int\<close>.
\<close>

section \<open>socklynx\<close>

record 'y sl_ext =
  SL_OK :: int
  SL_SOCK_TYPE_DGRAM :: int
  SL_SOCK_PROTO_UDP :: int
  sl_null_code :: int
  sl_fail_code :: "int \<Rightarrow> int"
  sl_sys_setup :: "'y \<Rightarrow> int \<times> 'y"
  sl_sys_cleanup :: "'y \<Rightarrow> int \<times> 'y"
  sl_sock_nonblocking_set :: "'y option \<Rightarrow> int \<times> 'y option"
  sl_sock_blocking_set :: "'y option \<Rightarrow> int \<times> 'y option"
  sl_sock_create :: "int \<Rightarrow> int \<Rightarrow> 'y \<Rightarrow> int \<times> 'y"
  sl_sock_bind :: "'y \<Rightarrow> int \<times> 'y"
  sl_sock_close :: "'y \<Rightarrow> int \<times> 'y"
  sl_sock_send :: "'y \<Rightarrow> 'y \<Rightarrow> int \<Rightarrow> 'y \<Rightarrow> int \<times> 'y \<times> 'y \<times> 'y"
  sl_sock_recv :: "'y \<Rightarrow> 'y \<Rightarrow> int \<Rightarrow> 'y \<Rightarrow> int \<times> 'y \<times> 'y \<times> 'y"

text \<open>
  \<open>sl_null_code\<close> and \<open>sl_fail_code r\<close> are what \<^verbatim>\<open>SL_GUARD_NULL\<close> and \<^verbatim>\<open>SL_GUARD\<close> return for a null pointer and
  for a result \<open>r\<close> that is not zero.
\<close>

definition socklynx_setup :: "'y sl_ext \<Rightarrow> 'y \<Rightarrow> int \<times> 'y" where
  "socklynx_setup L sys = sl_sys_setup L sys"

definition socklynx_cleanup :: "'y sl_ext \<Rightarrow> 'y \<Rightarrow> int \<times> 'y" where
  "socklynx_cleanup L sys = sl_sys_cleanup L sys"

definition socklynx_socket_nonblocking :: "'y sl_ext \<Rightarrow> 'y option \<Rightarrow> u32 \<Rightarrow> int \<times> 'y option" where
  "socklynx_socket_nonblocking L sock enabled =
     (if enabled \<noteq> 0 then sl_sock_nonblocking_set L sock else sl_sock_blocking_set L sock)"

definition socklynx_socket_open :: "'y sl_ext \<Rightarrow> 'y option \<Rightarrow> int \<times> 'y option" where
  "socklynx_socket_open L sock =
     (case sock of
        None \<Rightarrow> (sl_null_code L, None)
      | Some s \<Rightarrow>
          (case sl_sock_create L (SL_SOCK_TYPE_DGRAM L) (SL_SOCK_PROTO_UDP L) s of (r, s) \<Rightarrow>
             if r \<noteq> 0 then (sl_fail_code L r, Some s)
             else (case sl_sock_bind L s of (r, s) \<Rightarrow>
                     if r \<noteq> 0 then (sl_fail_code L r, Some s) else (SL_OK L, Some s))))"

definition socklynx_socket_close :: "'y sl_ext \<Rightarrow> 'y option \<Rightarrow> int \<times> 'y option" where
  "socklynx_socket_close L sock =
     (case sock of
        None \<Rightarrow> (sl_null_code L, None)
      | Some s \<Rightarrow> (case sl_sock_close L s of (r, s) \<Rightarrow> (r, Some s)))"

definition socklynx_socket_send ::
  "'y sl_ext \<Rightarrow> 'y option \<Rightarrow> 'y option \<Rightarrow> int \<Rightarrow> 'y option \<Rightarrow> int \<times> 'y option \<times> 'y option \<times> 'y option" where
  "socklynx_socket_send L sock buf bufcount endpoint =
     (case (sock, buf, endpoint) of
        (Some s, Some b, Some e) \<Rightarrow>
          (case sl_sock_send L s b bufcount e of (r, s, b, e) \<Rightarrow> (r, Some s, Some b, Some e))
      | _ \<Rightarrow> (sl_null_code L, sock, buf, endpoint))"

definition socklynx_socket_recv ::
  "'y sl_ext \<Rightarrow> 'y option \<Rightarrow> 'y option \<Rightarrow> int \<Rightarrow> 'y option \<Rightarrow> int \<times> 'y option \<times> 'y option \<times> 'y option" where
  "socklynx_socket_recv L sock buf bufcount endpoint =
     (case (sock, buf, endpoint) of
        (Some s, Some b, Some e) \<Rightarrow>
          (case sl_sock_recv L s b bufcount e of (r, s, b, e) \<Rightarrow> (r, Some s, Some b, Some e))
      | _ \<Rightarrow> (sl_null_code L, sock, buf, endpoint))"

section \<open>Setting a service up\<close>

text \<open>
  \<open>service_ptr\<close> is the caller's pointer to its service pointer.  The result is the status, the
  socklynx system, the two pointers and the world.
\<close>

definition servlynx_setup ::
  "'t ext \<Rightarrow> 'y sl_ext \<Rightarrow> svl_service_write_req \<Rightarrow> 'y option \<Rightarrow> addr option option \<Rightarrow> 't world \<Rightarrow>
     (code \<times> 'y option \<times> addr option option \<times> 't world) option" where
  "servlynx_setup E L junk sys service_ptr w =
     (case (sys, service_ptr) of
        (Some y, Some p) \<Rightarrow>
          if p \<noteq> None then Some (TN_SUCCESS, sys, service_ptr, w)
          else
            (case sl_sys_setup L y of (r, y) \<Rightarrow>
               if r \<noteq> 0 then Some (TN_ERROR, Some y, service_ptr, w)
               else
                 let a = TN_MEM_ACQUIRE E (log w) Blk_service (sizeof E Blk_service);
                     w = w\<lparr>log := (Mem_acquire Blk_service (sizeof E Blk_service) a, TN_SUCCESS) # log w\<rparr>
                 in if a = None then Some (TN_ERROR, Some y, Some None, w)
                    else
                      (case svl_service_setup E junk 1000 w of
                         None \<Rightarrow> None
                       | Some (r, w) \<Rightarrow> Some (r, Some y, Some a, w)))
      | _ \<Rightarrow> Some (TN_ERROR, sys, service_ptr, w))"

section \<open>Waiting for a state\<close>

text \<open>
  The polling loop.  \<open>idle k\<close> is what the IO thread does to the world while the caller sleeps for the
  \<open>k\<close>-th time, \<open>total_ms\<close> is \<^verbatim>\<open>total_wait_ms\<close>, an \<^verbatim>\<open>int\<close> whose overflow is undefined.  The result is the status,
  the number of sleeps and the world.
\<close>

function wait_loop ::
  "(nat \<Rightarrow> 't world \<Rightarrow> 't world) \<Rightarrow> svl_service_state_t \<Rightarrow> int \<Rightarrow> nat \<Rightarrow> int \<Rightarrow> 't world \<Rightarrow>
     (code \<times> nat \<times> 't world) option" where
  "wait_loop idle desired wait_ms k total_ms w =
     (if svl_service_state w = desired then Some (TN_SUCCESS, k, w)
      else
        let w = idle k w; total_ms = total_ms + 50 in
        if 2 ^ 31 \<le> total_ms then None
        else if wait_ms \<le> total_ms then Some (TN_ERROR, Suc k, w)
        else wait_loop idle desired wait_ms (Suc k) total_ms w)"
  by pat_completeness auto
termination
  by (relation "measure (\<lambda>(idle, desired, wait_ms, k, total_ms, w). nat (wait_ms - total_ms))") auto

declare wait_loop.simps [simp del]

definition service_state_wait ::
  "(nat \<Rightarrow> 't world \<Rightarrow> 't world) \<Rightarrow> svl_service_state_t \<Rightarrow> int \<Rightarrow> 't world \<Rightarrow> (code \<times> nat \<times> 't world) option" where
  "service_state_wait idle desired wait_ms w = wait_loop idle desired wait_ms 0 0 w"

section \<open>Stopping and cleaning up\<close>

text \<open>
  \<open>io\<close> is what the IO thread does until it ends, while \<^verbatim>\<open>svl_service_stop\<close> joins it; \<open>idle1\<close> and \<open>idle2\<close> are
  what it does during the sleeps of the first and of the second wait.  The switch falls through from
  starting to started and from there to the wait.
\<close>

definition service_stop ::
  "'t ext \<Rightarrow> ('t world \<Rightarrow> 't world) \<Rightarrow> (nat \<Rightarrow> 't world \<Rightarrow> 't world) \<Rightarrow> (nat \<Rightarrow> 't world \<Rightarrow> 't world) \<Rightarrow>
     addr option \<Rightarrow> 't world \<Rightarrow> (code \<times> 't world) option" where
  "service_stop E io idle1 idle2 service w =
     (let finish = (\<lambda>w. case service_state_wait idle2 SVL_SERVICE_STOPPED 500 w of
                         None \<Rightarrow> None
                       | Some (r, k, w) \<Rightarrow> if r \<noteq> TN_SUCCESS then Some (TN_ERROR, w) else Some (TN_SUCCESS, w));
          started = (\<lambda>w. case svl_service_stop E io w of
                           (r, w) \<Rightarrow> if r \<noteq> TN_SUCCESS then Some (TN_ERROR, w) else finish w)
      in if service = None then Some (TN_ERROR, w)
         else case svl_service_state w of
             SVL_SERVICE_STARTING \<Rightarrow>
               (case service_state_wait idle1 SVL_SERVICE_STARTED 500 w of
                  None \<Rightarrow> None
                | Some (r, k, w) \<Rightarrow> if r \<noteq> TN_SUCCESS then Some (TN_ERROR, w) else started w)
           | SVL_SERVICE_STARTED \<Rightarrow> started w
           | SVL_SERVICE_NEW \<Rightarrow> finish w
           | SVL_SERVICE_STOPPING \<Rightarrow> finish w
           | SVL_SERVICE_STOPPED \<Rightarrow> finish w
           | SVL_SERVICE_ERROR \<Rightarrow> Some (TN_ERROR, w)
           | SVL_SERVICE_INVALID \<Rightarrow> Some (TN_ERROR, w))"

definition servlynx_cleanup ::
  "'t ext \<Rightarrow> 'y sl_ext \<Rightarrow> ('t world \<Rightarrow> 't world) \<Rightarrow> (nat \<Rightarrow> 't world \<Rightarrow> 't world) \<Rightarrow> (nat \<Rightarrow> 't world \<Rightarrow> 't world) \<Rightarrow>
     'y option \<Rightarrow> addr option option \<Rightarrow> 't world \<Rightarrow> (code \<times> 'y option \<times> addr option option \<times> 't world) option" where
  "servlynx_cleanup E L io idle1 idle2 sys service_ptr w =
     (case (case service_ptr of
              None \<Rightarrow> Some (None, w)
            | Some p \<Rightarrow>
                (case service_stop E io idle1 idle2 p w of
                   None \<Rightarrow> None
                 | Some (r, w) \<Rightarrow> Some (Some None, release_mem p w))) of
        None \<Rightarrow> None
      | Some (service_ptr, w) \<Rightarrow>
          Some (TN_SUCCESS, (case sys of None \<Rightarrow> None | Some y \<Rightarrow> Some (snd (sl_sys_cleanup L y))), service_ptr, w))"

definition servlynx_start :: "'t ext \<Rightarrow> addr option \<Rightarrow> tn_endpoint_t option \<Rightarrow> 't world \<Rightarrow> code \<times> 't world" where
  "servlynx_start E service endpoint w =
     (if service = None then (TN_ERROR, w)
      else
        (case (case endpoint of None \<Rightarrow> (TN_SUCCESS, w) | Some ep \<Rightarrow> svl_service_listen ep w) of
           (r, w) \<Rightarrow> if r \<noteq> TN_SUCCESS then (TN_ERROR, w) else svl_service_start E w))"

definition servlynx_stop ::
  "'t ext \<Rightarrow> ('t world \<Rightarrow> 't world) \<Rightarrow> (nat \<Rightarrow> 't world \<Rightarrow> 't world) \<Rightarrow> (nat \<Rightarrow> 't world \<Rightarrow> 't world) \<Rightarrow>
     addr option \<Rightarrow> 't world \<Rightarrow> (code \<times> 't world) option" where
  "servlynx_stop E io idle1 idle2 service w =
     (if service = None then Some (TN_ERROR, w) else service_stop E io idle1 idle2 service w)"

text \<open>
  \<open>arr\<close> and \<open>cnt\<close> tell whether the two out-parameters are there.  The result is the status, whether
  the array pointer is set, the count and the world.
\<close>

definition servlynx_events_acquire ::
  "'t ext \<Rightarrow> addr option \<Rightarrow> bool \<Rightarrow> bool \<Rightarrow> 't world \<Rightarrow> (code \<times> bool \<times> u64 \<times> 't world) option" where
  "servlynx_events_acquire E service arr cnt w =
     (if service = None \<or> \<not> arr \<or> \<not> cnt then Some (TN_ERROR, False, 0, w)
      else
        (case svl_service_events_acquire E w of
           None \<Rightarrow> None
         | Some (r, out, n, w) \<Rightarrow>
             if r \<noteq> TN_SUCCESS then Some (TN_ERROR, out, n, w) else Some (TN_SUCCESS, out, n, w)))"

definition servlynx_events_release :: "'t ext \<Rightarrow> addr option \<Rightarrow> 't world \<Rightarrow> (code \<times> 't world) option" where
  "servlynx_events_release E service w =
     (if service = None then Some (TN_ERROR, w)
      else
        (case svl_service_events_release E w of
           None \<Rightarrow> None
         | Some (r, w) \<Rightarrow> if r \<noteq> TN_SUCCESS then Some (TN_ERROR, w) else Some (TN_SUCCESS, w)))"

section \<open>A concrete socklynx\<close>

definition ref_sl :: "unit sl_ext" where
  "ref_sl = \<lparr>SL_OK = 0, SL_SOCK_TYPE_DGRAM = 2, SL_SOCK_PROTO_UDP = 17, sl_null_code = -1, sl_fail_code = (\<lambda>_. -1),
     sl_sys_setup = (\<lambda>y. (0, y)), sl_sys_cleanup = (\<lambda>y. (0, y)), sl_sock_nonblocking_set = (\<lambda>s. (0, s)),
     sl_sock_blocking_set = (\<lambda>s. (0, s)), sl_sock_create = (\<lambda>ty proto s. (0, s)), sl_sock_bind = (\<lambda>s. (0, s)),
     sl_sock_close = (\<lambda>s. (0, s)), sl_sock_send = (\<lambda>s b n e. (0, s, b, e)), sl_sock_recv = (\<lambda>s b n e. (0, s, b, e))\<rparr>"

section \<open>How long the wait is\<close>

text \<open>The world after \<open>k\<close> sleeps, and how often the loop looks at the state.\<close>

primrec after_sleeps :: "(nat \<Rightarrow> 't world \<Rightarrow> 't world) \<Rightarrow> nat \<Rightarrow> 't world \<Rightarrow> 't world" where
  "after_sleeps idle 0 w = w"
| "after_sleeps idle (Suc k) w = idle k (after_sleeps idle k w)"

definition polls :: "int \<Rightarrow> nat" where
  "polls wait_ms = nat (max 1 ((wait_ms + 49) div 50))"

text \<open>The wait as a search: the first of the polls that sees the state.\<close>

definition wait_search ::
  "(nat \<Rightarrow> 't world \<Rightarrow> 't world) \<Rightarrow> svl_service_state_t \<Rightarrow> nat \<Rightarrow> nat \<Rightarrow> 't world \<Rightarrow> code \<times> nat \<times> 't world" where
  "wait_search idle desired k n w =
     (case find (\<lambda>j. svl_service_state (after_sleeps idle j w) = desired) [k..<n] of
        Some j \<Rightarrow> (TN_SUCCESS, j, after_sleeps idle j w)
      | None \<Rightarrow> (TN_ERROR, n, after_sleeps idle n w))"

lemma polls_bound: "wait_ms \<le> 50 * int (polls wait_ms)" "k < polls wait_ms \<Longrightarrow> k = 0 \<or> 50 * int k < wait_ms"
  unfolding polls_def by (auto simp: max_def split: if_splits)

lemma wait_loop_search:
  assumes "k < polls wait_ms" and "wait_ms \<le> 2 ^ 31 - 50"
  shows "wait_loop idle desired wait_ms k (50 * int k) (after_sleeps idle k w) =
    Some (wait_search idle desired k (polls wait_ms) w)"
  using assms
proof (induction "polls wait_ms - k" arbitrary: k rule: less_induct)
  case less
  let ?w = "after_sleeps idle k w"
  have upt: "[k..<polls wait_ms] = k # [Suc k..<polls wait_ms]" using less.prems(1) by (rule upt_conv_Cons)
  have small: "50 * int (Suc k) < 2 ^ 31" using polls_bound(2) [OF less.prems(1)] less.prems(2) by auto
  show ?case
  proof (cases "svl_service_state ?w = desired")
    case True
    then show ?thesis by (simp add: wait_loop.simps [of _ _ _ k] wait_search_def upt)
  next
    case False
    show ?thesis
    proof (cases "Suc k < polls wait_ms")
      case True
      then have "50 * int (Suc k) < wait_ms" using polls_bound(2) [OF True] by auto
      moreover have "wait_search idle desired k (polls wait_ms) w = wait_search idle desired (Suc k) (polls wait_ms) w"
        using False by (simp add: wait_search_def upt)
      ultimately show ?thesis
        using False small less.hyps [of "Suc k"] True less.prems
        by (simp add: wait_loop.simps [of _ _ _ k] Let_def add.commute)
    next
      case last: False
      with less.prems(1) have n: "polls wait_ms = Suc k" by simp
      with polls_bound(1) [of wait_ms] have "wait_ms \<le> 50 * int k + 50" by simp
      then show ?thesis
        using False small n by (simp add: wait_loop.simps [of _ _ _ k] Let_def wait_search_def)
    qed
  qed
qed

text \<open>
  C37. The polling loop always ends, and it is a search through the first ceil(wait_ms / 50) looks at
  the state, at least one: it succeeds at the first look that sees the wanted state and fails after
  the last one.  The state loaded after the last sleep is not looked at.
\<close>

theorem service_state_wait_is_search:
  assumes "wait_ms \<le> 2 ^ 31 - 50"
  shows "service_state_wait idle desired wait_ms w = Some (wait_search idle desired 0 (polls wait_ms) w)"
proof -
  have "0 < polls wait_ms" by (simp add: polls_def)
  from wait_loop_search [OF this assms, of idle desired w] show ?thesis by (simp add: service_state_wait_def)
qed

text \<open>A service that is stopped by the eleventh look, half a second later, is not seen.\<close>

definition ref_idle :: "nat \<Rightarrow> robj world \<Rightarrow> robj world" where
  "ref_idle k w = (if k = 9 then svl_service_set_state SVL_SERVICE_STOPPED w else w)"

theorem service_state_wait_is_search_witness:
  "service_state_wait ref_idle SVL_SERVICE_STOPPED 500 ref_world =
     Some (TN_ERROR, 10, svl_service_set_state SVL_SERVICE_STOPPED ref_world)"
proof -
  have w: "after_sleeps ref_idle k ref_world = ref_world" if "k \<le> 9" for k
    using that by (induction k) (auto simp: ref_idle_def)
  have "after_sleeps ref_idle (Suc 9) ref_world = svl_service_set_state SVL_SERVICE_STOPPED ref_world"
    unfolding after_sleeps.simps(2) using w [of 9] by (simp add: ref_idle_def)
  then have last: "after_sleeps ref_idle 10 ref_world = svl_service_set_state SVL_SERVICE_STOPPED ref_world" by simp
  have none: "find (\<lambda>j. svl_service_state (after_sleeps ref_idle j ref_world) = SVL_SERVICE_STOPPED) [0..<10] = None"
    unfolding find_None_iff using w by (auto simp: svl_service_state_def ref_world_def)
  have "service_state_wait ref_idle SVL_SERVICE_STOPPED 500 ref_world =
      Some (wait_search ref_idle SVL_SERVICE_STOPPED 0 (polls 500) ref_world)"
    by (rule service_state_wait_is_search) simp
  moreover have "polls 500 = 10" by (simp add: polls_def)
  ultimately show ?thesis using none last by (simp add: wait_search_def)
qed

section \<open>Stopping\<close>

lemma wait_result:
  assumes "wait_loop idle desired wait_ms k t w = Some (r, n, w')"
  shows "r = TN_SUCCESS \<Longrightarrow> service_state w' = desired" and "r = TN_SUCCESS \<or> r = TN_ERROR"
  using assms
proof (induction idle desired wait_ms k t w rule: wait_loop.induct)
  case (1 idle desired wait_ms k t w)
  note eq = wait_loop.simps [of idle desired wait_ms k t w]
  {
    case 1
    with "1.IH"(1) show ?case
      by (subst (asm) eq) (auto simp: Let_def svl_service_state_def split: if_splits)
  next
    case 2
    with "1.IH"(2) show ?case
      by (subst (asm) eq) (auto simp: Let_def split: if_splits)
  }
qed

text \<open>
  C38. If servlynx_stop reports success, the service is stopped, whatever the IO thread does
  meanwhile.
\<close>

theorem servlynx_stop_success:
  assumes "servlynx_stop E io idle1 idle2 service w = Some (TN_SUCCESS, w')"
  shows "service_state w' = SVL_SERVICE_STOPPED"
proof -
  have fin: "service_state v' = SVL_SERVICE_STOPPED"
    if "service_state_wait idle2 SVL_SERVICE_STOPPED 500 v = Some (TN_SUCCESS, k, v')" for v v' k
    using wait_result(1) [OF that [unfolded service_state_wait_def]] by simp
  show ?thesis
    using assms unfolding servlynx_stop_def service_stop_def
    by (cases "svl_service_state w") (auto simp: Let_def split: if_splits option.splits prod.splits dest: fin)
qed

theorem servlynx_stop_success_witness:
  "\<exists>w'. servlynx_stop ref_ext id ref_idle ref_idle (Some 1) (ref_world\<lparr>service_state := SVL_SERVICE_STOPPED\<rparr>) = Some (TN_SUCCESS, w') \<and>
     service_state w' = SVL_SERVICE_STOPPED"
proof -
  have "servlynx_stop ref_ext id ref_idle ref_idle (Some 1) (ref_world\<lparr>service_state := SVL_SERVICE_STOPPED\<rparr>) =
      Some (TN_SUCCESS, ref_world\<lparr>service_state := SVL_SERVICE_STOPPED\<rparr>)"
    by (simp add: servlynx_stop_def service_stop_def svl_service_state_def service_state_wait_def wait_loop.simps)
  from servlynx_stop_success [OF this] this show ?thesis by blast
qed

text \<open>
  Stopping a started service succeeds at once if the IO thread can be joined: the thread is told
  to stop, joined, and the service is stopped without a single poll.
\<close>

theorem servlynx_stop_started:
  assumes "service \<noteq> None" and "service_state w = SVL_SERVICE_STARTED"
    and "w1 = io (w\<lparr>service_state := SVL_SERVICE_STOPPING\<rparr>)" and "uv_ret E (log w1) Thread_join = TN_SUCCESS"
  shows "servlynx_stop E io idle1 idle2 service w =
    Some (TN_SUCCESS, w1\<lparr>log := (Thread_join, TN_SUCCESS) # log w1, service_state := SVL_SERVICE_STOPPED\<rparr>)"
proof -
  let ?w = "w1\<lparr>log := (Thread_join, TN_SUCCESS) # log w1, service_state := SVL_SERVICE_STOPPED\<rparr>"
  have "svl_service_stop E io w = (TN_SUCCESS, ?w)"
    using assms(2,4) by (simp add: svl_service_stop_def svl_service_state_def svl_service_set_state_def Let_def assms(3))
  moreover have "service_state_wait idle2 SVL_SERVICE_STOPPED 500 ?w = Some (TN_SUCCESS, 0, ?w)"
    by (simp add: service_state_wait_def wait_loop.simps svl_service_state_def)
  ultimately show ?thesis
    using assms(1,2) by (simp add: servlynx_stop_def service_stop_def svl_service_state_def Let_def)
qed

theorem servlynx_stop_started_witness:
  "\<exists>w'. servlynx_stop ref_ext id ref_idle ref_idle (Some 1) (world_of ref_connected) = Some (TN_SUCCESS, w')"
proof -
  have "uv_ret ref_ext lg c = TN_SUCCESS" for lg c by simp
  with servlynx_stop_started [OF _ ref_connected_service(1) refl, of "Some 1" ref_ext id ref_idle ref_idle]
  show ?thesis by auto
qed

text \<open>
  Stopping a service that was never started fails, after half a second of polling for a state
  that nothing will set.
\<close>

theorem servlynx_stop_new_fails:
  assumes "service \<noteq> None" and "service_state w = SVL_SERVICE_NEW"
  shows "servlynx_stop E io idle1 (\<lambda>_ w. w) service w = Some (TN_ERROR, w)"
proof -
  have w: "after_sleeps (\<lambda>_ w. w) k w = w" for k by (induction k) simp_all
  have none: "find (\<lambda>j. svl_service_state (after_sleeps (\<lambda>_ w. w) j w) = SVL_SERVICE_STOPPED) [0..<polls 500] = None"
    unfolding find_None_iff w using assms(2) by (simp add: svl_service_state_def)
  have "service_state_wait (\<lambda>_ w. w) SVL_SERVICE_STOPPED 500 w =
      Some (wait_search (\<lambda>_ w. w) SVL_SERVICE_STOPPED 0 (polls 500) w)"
    by (rule service_state_wait_is_search) simp
  then have "service_state_wait (\<lambda>_ w. w) SVL_SERVICE_STOPPED 500 w = Some (TN_ERROR, polls 500, w)"
    using none w by (simp add: wait_search_def)
  with assms show ?thesis by (simp add: servlynx_stop_def service_stop_def svl_service_state_def Let_def)
qed

theorem servlynx_stop_new_fails_witness:
  "servlynx_stop ref_ext id ref_idle (\<lambda>_ w. w) (Some 1) ref_world = Some (TN_ERROR, ref_world)"
  by (rule servlynx_stop_new_fails) (simp_all add: ref_world_def)

section \<open>Cleaning up\<close>

text \<open>
  Cleaning up a stopped service takes the caller's pointer away and releases the structure of the
  service, and no other block: what svl_service_setup and the IO thread allocated stays allocated.
\<close>

theorem servlynx_cleanup_releases_only_service:
  assumes "service_state w = SVL_SERVICE_STOPPED"
  shows "\<exists>w'. servlynx_cleanup E L io idle1 idle2 sys (Some (Some a)) w =
      Some (TN_SUCCESS, map_option (\<lambda>y. snd (sl_sys_cleanup L y)) sys, Some None, w') \<and>
    status (log w') a = Absent \<and> (\<forall>b. b \<noteq> a \<longrightarrow> status (log w') b = status (log w) b)"
proof -
  have "service_stop E io idle1 idle2 (Some a) w = Some (TN_SUCCESS, w)"
    using assms by (simp add: service_stop_def svl_service_state_def service_state_wait_def wait_loop.simps)
  then show ?thesis by (auto simp: servlynx_cleanup_def release_mem_def split: option.split)
qed

theorem servlynx_cleanup_releases_only_service_witness:
  "\<exists>w'. servlynx_cleanup ref_ext ref_sl id ref_idle ref_idle None (Some (Some 99))
       ((world_of ref_connected)\<lparr>service_state := SVL_SERVICE_STOPPED\<rparr>) =
     Some (TN_SUCCESS, None, Some None, w') \<and> status (log w') 1 = Allocated"
proof -
  have "status (log (world_of ref_connected)) 1 = Allocated"
    using ref_connected_world [symmetric] by (simp add: ref_eval)
  with servlynx_cleanup_releases_only_service [of "(world_of ref_connected)\<lparr>service_state := SVL_SERVICE_STOPPED\<rparr>" ref_ext ref_sl id
      ref_idle ref_idle None 99] show ?thesis by fastforce
qed

section \<open>Setting up again\<close>

text \<open>
  If svl_service_setup fails, servlynx_setup returns its error but keeps the pointer to the new
  structure, so that the next servlynx_setup reports success without setting anything up.
\<close>

theorem servlynx_setup_retry_reports_success:
  assumes "sl_sys_setup L y = (0, y')"
    and "TN_MEM_ACQUIRE E (log w) Blk_service (sizeof E Blk_service) = Some a"
    and "svl_service_setup E junk 1000
      (w\<lparr>log := (Mem_acquire Blk_service (sizeof E Blk_service) (Some a), TN_SUCCESS) # log w\<rparr>) = Some (r, w1)"
    and "r \<noteq> TN_SUCCESS"
  shows "\<exists>sys sp. servlynx_setup E L junk (Some y) (Some None) w = Some (r, sys, sp, w1) \<and>
    servlynx_setup E L junk' sys sp w1 = Some (TN_SUCCESS, sys, sp, w1)"
  using assms by (simp add: servlynx_setup_def Let_def)

text \<open>An environment that runs out of memory when the private data of the service is allocated.\<close>

definition ref_no_priv :: "robj ext" where
  "ref_no_priv = ref_ext\<lparr>TN_MEM_ACQUIRE := (\<lambda>lg b n. if b = Blk_priv then None else Some (ref_fresh lg))\<rparr>"

theorem servlynx_setup_retry_reports_success_witness:
  "\<exists>sys sp w1. servlynx_setup ref_no_priv ref_sl ref_req (Some ()) (Some None) ref_world = Some (TN_ERROR, sys, sp, w1) \<and>
     servlynx_setup ref_no_priv ref_sl ref_req sys sp w1 = Some (TN_SUCCESS, sys, sp, w1)"
proof -
  have sl: "sl_sys_setup ref_sl () = (0, ())" by (simp add: ref_sl_def)
  have a: "TN_MEM_ACQUIRE ref_no_priv (log ref_world) Blk_service (sizeof ref_no_priv Blk_service) = Some 1"
    by (simp add: ref_no_priv_def ref_world_def)
  have "\<exists>w1. svl_service_setup ref_no_priv ref_req 1000
      (ref_world\<lparr>log := (Mem_acquire Blk_service (sizeof ref_no_priv Blk_service) (Some 1), TN_SUCCESS) # log ref_world\<rparr>) =
        Some (TN_ERROR, w1)"
    by (simp add: svl_service_setup_def svl_service_set_state_def acquire_def Let_def ref_no_priv_def)
  then show ?thesis
    using servlynx_setup_retry_reports_success [OF sl a] by (metis code.distinct(1))
qed

end
