(* ===== verification/Svl_Commands.thy ===== *)
theory Svl_Commands
  imports Svl_Safety
begin

text \<open>
  What a call of the command API (\<^verbatim>\<open>svl_service_cmd_open\<close>, \<^verbatim>\<open>svl_service_cmd_close\<close>, \<^verbatim>\<open>svl_service_cmd_send\<close>
  in \<^verbatim>\<open>src/svlynx/service.c\<close>) does to the queue between the main thread and the IO thread.
\<close>

text \<open>
  The result of a call that queues a command: an error leaves the queue alone and stores the invalid
  identifier; success appends one command and stores its identifier.
\<close>

definition queues :: "'t view \<Rightarrow> bool \<Rightarrow> (tn_cmd \<Rightarrow> bool) \<Rightarrow> 't world \<Rightarrow> code \<times> u64 \<times> 't world \<Rightarrow> bool" where
  "queues V ok P w res \<longleftrightarrow>
     (case res of (r, i, w') \<Rightarrow>
        if ok
        then r = TN_SUCCESS \<and> (\<exists>c. P c \<and> cmd_id c = i \<and> cmd_ready V (cmds w') = cmd_ready V (cmds w) @ [c])
        else r = TN_ERROR \<and> i = UINT64_MAX \<and> cmd_ready V (cmds w') = cmd_ready V (cmds w))"

lemma queue_cmd_queues:
  assumes "env_ok E V" and "cmds_ok V nc (cmds w)" and "\<And>c. cmd_id (fill c) = cmd_id c"
    and "\<And>c. cmd_type c = ty \<Longrightarrow> P (fill c)"
  shows "\<exists>res. queue_cmd E ty fill w = Some res \<and> queues V (cmd_free V (cmds w) \<noteq> 0) P w res"
proof -
  from queue_cmd_result [OF assms(1-3), of ty] obtain l where
    "if cmd_free V (cmds w) = 0
     then queue_cmd E ty fill w = Some (TN_ERROR, UINT64_MAX, w\<lparr>cmds := l\<rparr>) \<and> cmd_ready V l = cmd_ready V (cmds w)
     else \<exists>c. cmd_type c = ty \<and> queue_cmd E ty fill w = Some (TN_SUCCESS, cmd_id c, w\<lparr>cmds := l\<rparr>) \<and>
       cmd_ready V l = cmd_ready V (cmds w) @ [fill c]" by blast
  with assms(3,4) show ?thesis
    by (cases "cmd_free V (cmds w) = 0") (auto simp: queues_def)
qed

text \<open>The three calls, with the condition under which each of them queues its command.\<close>

lemma cmd_calls_queue:
  assumes env: "env_ok E V" and ok: "cmds_ok V nc (cmds w)"
  shows "\<exists>res. svl_service_cmd_open E ep w = Some res \<and>
      queues V (service_state w = SVL_SERVICE_STARTED \<and> cmd_free V (cmds w) \<noteq> 0)
        (\<lambda>c. cmd_type c = TN_CMD_CLIENT_OPEN \<and> cmd_endpoint c = ep) w res"
    and "\<exists>res. svl_service_cmd_close E cid w = Some res \<and>
      queues V (service_state w = SVL_SERVICE_STARTED \<and> cmd_free V (cmds w) \<noteq> 0)
        (\<lambda>c. cmd_type c = TN_CMD_CLIENT_CLOSE \<and> cmd_client_id c = cid) w res"
    and "n \<noteq> 0 \<Longrightarrow> \<exists>res. svl_service_cmd_send E cid msg n w = Some res \<and>
      queues V (service_state w = SVL_SERVICE_STARTED \<and> fst (tn_queue_spsc_peek E (write_reqs_free w)) = TN_SUCCESS \<and>
          cmd_free V (cmds w) \<noteq> 0)
        (\<lambda>c. cmd_type c = TN_CMD_CLIENT_SEND \<and> cmd_client_id c = cid \<and> cmd_buffer c = msg \<and> cmd_len c = n) w res"
proof -
  show "\<exists>res. svl_service_cmd_open E ep w = Some res \<and>
      queues V (service_state w = SVL_SERVICE_STARTED \<and> cmd_free V (cmds w) \<noteq> 0)
        (\<lambda>c. cmd_type c = TN_CMD_CLIENT_OPEN \<and> cmd_endpoint c = ep) w res"
    using queue_cmd_queues [OF assms, where fill = "\<lambda>c. c\<lparr>cmd_endpoint := ep\<rparr>" and ty = TN_CMD_CLIENT_OPEN
        and P = "\<lambda>c. cmd_type c = TN_CMD_CLIENT_OPEN \<and> cmd_endpoint c = ep"]
    by (cases "service_state w = SVL_SERVICE_STARTED")
      (simp_all add: svl_service_cmd_open_def svl_service_state_def queues_def)
  show "\<exists>res. svl_service_cmd_close E cid w = Some res \<and>
      queues V (service_state w = SVL_SERVICE_STARTED \<and> cmd_free V (cmds w) \<noteq> 0)
        (\<lambda>c. cmd_type c = TN_CMD_CLIENT_CLOSE \<and> cmd_client_id c = cid) w res"
    using queue_cmd_queues [OF assms, where fill = "\<lambda>c. c\<lparr>cmd_client_id := cid\<rparr>" and ty = TN_CMD_CLIENT_CLOSE
        and P = "\<lambda>c. cmd_type c = TN_CMD_CLIENT_CLOSE \<and> cmd_client_id c = cid"]
    by (cases "service_state w = SVL_SERVICE_STARTED")
      (simp_all add: svl_service_cmd_close_def svl_service_state_def queues_def)
  obtain r req where peek: "tn_queue_spsc_peek E (write_reqs_free w) = (r, req)" by fastforce
  assume n: "n \<noteq> 0"
  consider "service_state w \<noteq> SVL_SERVICE_STARTED" | "service_state w = SVL_SERVICE_STARTED" "r \<noteq> TN_SUCCESS"
    | "service_state w = SVL_SERVICE_STARTED" "r = TN_SUCCESS" by blast
  then show "\<exists>res. svl_service_cmd_send E cid msg n w = Some res \<and>
      queues V (service_state w = SVL_SERVICE_STARTED \<and> fst (tn_queue_spsc_peek E (write_reqs_free w)) = TN_SUCCESS \<and>
          cmd_free V (cmds w) \<noteq> 0)
        (\<lambda>c. cmd_type c = TN_CMD_CLIENT_SEND \<and> cmd_client_id c = cid \<and> cmd_buffer c = msg \<and> cmd_len c = n) w res"
  proof cases
    case 3
    with queue_cmd_queues [OF assms, where fill = "\<lambda>c. c\<lparr>cmd_client_id := cid, cmd_buffer := msg, cmd_len := n, cmd_priv := req\<rparr>"
        and ty = TN_CMD_CLIENT_SEND
        and P = "\<lambda>c. cmd_type c = TN_CMD_CLIENT_SEND \<and> cmd_client_id c = cid \<and> cmd_buffer c = msg \<and> cmd_len c = n"]
    show ?thesis by (simp add: svl_service_cmd_send_def svl_service_state_def peek n)
  qed (simp_all add: svl_service_cmd_send_def svl_service_state_def peek n queues_def)
qed



end
