(* ===== verification/Svl_Apps.thy ===== *)
theory Svl_Apps
  imports Svl_Config Svl_Commands
begin

text \<open>
  The two programs built on the service: the load generator \<^verbatim>\<open>src/svlynx_lg/svlynx_lg.c\<close>, which connects
  to a server and sends a message every 64th frame, and the server \<^verbatim>\<open>src/svlynx_sv/svlynx_sv.c\<close>, which
  means to echo what it receives.

  Both poll in frames: they acquire the events, handle each of them, release them and sleep.  \<open>idle n\<close>
  is what the IO thread does to the world during the sleep of frame \<open>n\<close>.  Logging is left out.
\<close>

section \<open>Global variables and the handlers both programs share\<close>

record app_ids =
  cmd_open_id' :: u64
  cmd_close_id' :: u64
  cmd_read_id' :: u64
  client_id' :: u64

definition handle_client_open :: "'t tn_event \<Rightarrow> app_ids \<Rightarrow> app_ids" where
  "handle_client_open evt ids =
     (if cmd_open_id' ids = ev_cmd_id evt then ids\<lparr>client_id' := ev_client_id evt\<rparr> else ids)"

definition handle_client_close :: "'t tn_event \<Rightarrow> app_ids \<Rightarrow> app_ids" where
  "handle_client_close evt ids = ids"

section \<open>The load generator\<close>

definition SVL_LG_MAX_CLIENTS :: u64 where
  "SVL_LG_MAX_CLIENTS = 1000"

definition lg_ids :: "'t ext \<Rightarrow> app_ids" where
  "lg_ids E = \<lparr>cmd_open_id' = TN_CMD_INVALID E, cmd_close_id' = TN_CMD_INVALID E, cmd_read_id' = TN_CMD_INVALID E,
     client_id' = TN_CMD_INVALID E\<rparr>"

text \<open>The message with its final zero byte, \<^verbatim>\<open>msglen\<close> bytes.\<close>

definition lg_msg :: "u8 list" where
  "lg_msg = map of_char ''This is my network message :D'' @ [0]"

definition lg_handle_client_read :: "'t tn_event \<Rightarrow> 't world \<Rightarrow> code option" where
  "lg_handle_client_read evt w =
     (case svl_link_list_get (link_list w) (ev_client_id evt) of (r, link) \<Rightarrow>
        if r \<noteq> TN_SUCCESS then Some TN_EVENT_NOCHAN
        else if link = None then None else Some TN_SUCCESS)"

definition lg_handle_event :: "'t tn_event \<Rightarrow> 't world \<Rightarrow> app_ids \<Rightarrow> app_ids option" where
  "lg_handle_event evt w ids =
     (case ev_type evt of
        TN_EVENT_CLIENT_OPEN \<Rightarrow> Some (handle_client_open evt ids)
      | TN_EVENT_CLIENT_CLOSE \<Rightarrow> Some (handle_client_close evt ids)
      | TN_EVENT_CLIENT_READ \<Rightarrow> (case lg_handle_client_read evt w of None \<Rightarrow> None | Some r \<Rightarrow> Some ids)
      | _ \<Rightarrow> Some ids)"

text \<open>
  The loop over the events: \<open>k\<close> iterations are left, the next one is for index \<open>i\<close>, an \<^verbatim>\<open>int\<close> whose
  overflow is undefined.
\<close>

fun lg_events :: "'t world \<Rightarrow> nat \<Rightarrow> nat \<Rightarrow> app_ids \<Rightarrow> app_ids option" where
  "lg_events w 0 i ids = Some ids"
| "lg_events w (Suc k) i ids =
     (if 2 ^ 31 \<le> Suc i \<or> length (event_updates w) \<le> i then None
      else
        (case event_updates w ! i of
           None \<Rightarrow> None
         | Some e \<Rightarrow>
             (case lg_handle_event e w ids of
                None \<Rightarrow> None
              | Some ids \<Rightarrow> lg_events w k (Suc i) ids)))"

type_synonym 't app_state = "u32 \<times> app_ids \<times> 't world"

definition lg_commands :: "'t ext \<Rightarrow> tn_endpoint_t \<Rightarrow> 't app_state \<Rightarrow> 't app_state option" where
  "lg_commands E ep_connect s =
     (case s of (fr, ids, w) \<Rightarrow>
        if fr = 0 then
          (case svl_service_cmd_open E ep_connect w of
             None \<Rightarrow> None
           | Some (r, i, w) \<Rightarrow> Some (fr + 1, ids\<lparr>cmd_open_id' := i\<rparr>, w))
        else if fr AND 63 = 0 \<and> client_id' ids \<noteq> TN_CMD_INVALID E then
          (case svl_service_cmd_send E (client_id' ids) lg_msg (of_nat (length lg_msg)) w of
             None \<Rightarrow> None
           | Some (r, i, w) \<Rightarrow> Some (fr + 1, ids\<lparr>cmd_read_id' := i\<rparr>, w))
        else Some (fr + 1, ids, w))"

definition lg_frame :: "'t ext \<Rightarrow> tn_endpoint_t \<Rightarrow> 't app_state \<Rightarrow> 't app_state option" where
  "lg_frame E ep_connect s =
     (case s of (fr, ids, w) \<Rightarrow>
        (case svl_service_events_acquire E w of
           None \<Rightarrow> None
         | Some (r, evt_base, evt_count, w) \<Rightarrow>
             (case lg_events w (unat evt_count) 0 ids of
                None \<Rightarrow> None
              | Some ids \<Rightarrow>
                  (case svl_service_events_release E w of
                     None \<Rightarrow> None
                   | Some (r, w) \<Rightarrow> lg_commands E ep_connect (fr, ids, w)))))"

partial_function (option) lg_loop ::
  "'t ext \<Rightarrow> tn_endpoint_t \<Rightarrow> (nat \<Rightarrow> 't world \<Rightarrow> 't world) \<Rightarrow> nat \<Rightarrow> 't app_state \<Rightarrow> 't app_state option" where
  "lg_loop E ep_connect idle n s =
     (case s of (fr, ids, w) \<Rightarrow>
        if svl_service_state w \<noteq> SVL_SERVICE_STARTED then Some s
        else
          (case lg_frame E ep_connect (fr, ids, idle n w) of
             None \<Rightarrow> None
           | Some s \<Rightarrow> lg_loop E ep_connect idle (Suc n) s))"

text \<open>
  \<open>sys\<close> is the status of \<^verbatim>\<open>tn_system_setup\<close>, \<open>from_byte\<close> is \<^verbatim>\<open>tn_endpoint_from_byte\<close>, \<open>idle0\<close> what the IO thread
  does during the first second and \<open>io\<close> what it does until it ends.
\<close>

definition lg_main ::
  "'t ext \<Rightarrow> code \<Rightarrow> (u16 \<Rightarrow> u8 \<Rightarrow> u8 \<Rightarrow> u8 \<Rightarrow> u8 \<Rightarrow> tn_endpoint_t) \<Rightarrow> svl_service_write_req \<Rightarrow> ('t world \<Rightarrow> 't world) \<Rightarrow>
     (nat \<Rightarrow> 't world \<Rightarrow> 't world) \<Rightarrow> ('t world \<Rightarrow> 't world) \<Rightarrow> 't world \<Rightarrow> (code \<times> 't world) option" where
  "lg_main E sys from_byte junk idle0 idle io w =
     (if sys \<noteq> TN_SUCCESS then Some (TN_ERROR, w)
      else
        (case svl_service_setup E junk SVL_LG_MAX_CLIENTS w of
           None \<Rightarrow> None
         | Some (r, w) \<Rightarrow>
             if r \<noteq> TN_SUCCESS then Some (TN_ERROR, w)
             else
               (case svl_service_start E w of (r, w) \<Rightarrow>
                  if r \<noteq> TN_SUCCESS then Some (TN_ERROR, w)
                  else
                    (case lg_loop E (from_byte 7777 127 0 0 1) idle 0 (0, lg_ids E, idle0 w) of
                       None \<Rightarrow> None
                     | Some (fr, ids, w) \<Rightarrow>
                         (case svl_service_stop E io w of (r, w) \<Rightarrow>
                            if r \<noteq> TN_SUCCESS then Some (TN_ERROR, w)
                            else Some (TN_SUCCESS, svl_service_cleanup E w))))))"

section \<open>The server\<close>

definition sv_ids :: app_ids where
  "sv_ids = \<lparr>cmd_open_id' = UINT64_MAX, cmd_close_id' = UINT64_MAX, cmd_read_id' = UINT64_MAX, client_id' = UINT64_MAX\<rparr>"

text \<open>
  The read handler uses a local variable \<^verbatim>\<open>link\<close> that it never assigns; \<open>link\<close> is what that variable
  happens to hold.  The handler rewinds the buffer of the event and queues its bytes for that link.
  It returns the status, the rewound buffer and the world.
\<close>

definition sv_handle_client_read ::
  "'t ext \<Rightarrow> nat option \<Rightarrow> 't tn_event \<Rightarrow> 't world \<Rightarrow> (code \<times> 't \<times> 't world) option" where
  "sv_handle_client_read E link evt w =
     (case ev_priv evt of
        None \<Rightarrow> None
      | Some b \<Rightarrow>
          let b = tn_buffer_read_reset E b in
          (case link of
             None \<Rightarrow> None
           | Some j \<Rightarrow>
               (case deref_link w j of
                  None \<Rightarrow> None
                | Some l \<Rightarrow>
                    (case svl_service_cmd_send E (link_id l) (tn_buffer_read_ptr E b) (tn_buffer_read_length E b) w of
                       None \<Rightarrow> None
                     | Some (r, i, w) \<Rightarrow> if r \<noteq> TN_SUCCESS then Some (r, b, w) else Some (TN_SUCCESS, b, w)))))"

definition sv_handle_client_open :: "'t tn_event \<Rightarrow> app_ids \<Rightarrow> app_ids" where
  "sv_handle_client_open evt ids =
     (if cmd_open_id' ids = ev_cmd_id evt then ids\<lparr>client_id' := ev_client_id evt\<rparr> else ids)"

definition sv_handle_client_close :: "'t tn_event \<Rightarrow> app_ids \<Rightarrow> app_ids" where
  "sv_handle_client_close evt ids = ids"

text \<open>The two programs have the same handlers for open and close events.\<close>

lemma sv_handlers [simp]: "sv_handle_client_open = handle_client_open" "sv_handle_client_close = handle_client_close"
  by (simp_all add: fun_eq_iff sv_handle_client_open_def handle_client_open_def sv_handle_client_close_def handle_client_close_def)

definition sv_handle_event ::
  "'t ext \<Rightarrow> nat option \<Rightarrow> nat \<Rightarrow> 't tn_event \<Rightarrow> 't world \<Rightarrow> app_ids \<Rightarrow> (app_ids \<times> 't world) option" where
  "sv_handle_event E link i evt w ids =
     (case ev_type evt of
        TN_EVENT_CLIENT_OPEN \<Rightarrow> Some (sv_handle_client_open evt ids, w)
      | TN_EVENT_CLIENT_CLOSE \<Rightarrow> Some (sv_handle_client_close evt ids, w)
      | TN_EVENT_CLIENT_READ \<Rightarrow>
          (case sv_handle_client_read E link evt w of
             None \<Rightarrow> None
           | Some (r, b, w) \<Rightarrow> Some (ids, w\<lparr>event_updates := (event_updates w)[i := Some (evt\<lparr>ev_priv := Some b\<rparr>)]\<rparr>))
      | _ \<Rightarrow> Some (ids, w))"

fun sv_events :: "'t ext \<Rightarrow> (nat \<Rightarrow> nat option) \<Rightarrow> nat \<Rightarrow> nat \<Rightarrow> app_ids \<Rightarrow> 't world \<Rightarrow> (app_ids \<times> 't world) option" where
  "sv_events E links 0 i ids w = Some (ids, w)"
| "sv_events E links (Suc k) i ids w =
     (if 2 ^ 31 \<le> Suc i \<or> length (event_updates w) \<le> i then None
      else
        (case event_updates w ! i of
           None \<Rightarrow> None
         | Some e \<Rightarrow>
             (case sv_handle_event E (links i) i e w ids of
                None \<Rightarrow> None
              | Some (ids, w) \<Rightarrow> sv_events E links k (Suc i) ids w)))"

definition sv_frame :: "'t ext \<Rightarrow> (nat \<Rightarrow> nat option) \<Rightarrow> 't app_state \<Rightarrow> 't app_state option" where
  "sv_frame E links s =
     (case s of (fr, ids, w) \<Rightarrow>
        (case svl_service_events_acquire E w of
           None \<Rightarrow> None
         | Some (r, evt_base, evt_count, w) \<Rightarrow>
             (case sv_events E links (unat evt_count) 0 ids w of
                None \<Rightarrow> None
              | Some (ids, w) \<Rightarrow>
                  (case svl_service_events_release E w of
                     None \<Rightarrow> None
                   | Some (r, w) \<Rightarrow> Some (fr + 1, ids, w)))))"

partial_function (option) sv_loop ::
  "'t ext \<Rightarrow> (nat \<Rightarrow> nat \<Rightarrow> nat option) \<Rightarrow> (nat \<Rightarrow> 't world \<Rightarrow> 't world) \<Rightarrow> nat \<Rightarrow> 't app_state \<Rightarrow> 't app_state option" where
  "sv_loop E links idle n s =
     (case s of (fr, ids, w) \<Rightarrow>
        if svl_service_state w \<noteq> SVL_SERVICE_STARTED then Some s
        else
          (case sv_frame E (links n) (fr, ids, idle n w) of
             None \<Rightarrow> None
           | Some s \<Rightarrow> sv_loop E links idle (Suc n) s))"

definition sv_main ::
  "'t ext \<Rightarrow> code \<Rightarrow> (u16 \<Rightarrow> u8 \<Rightarrow> u8 \<Rightarrow> u8 \<Rightarrow> u8 \<Rightarrow> tn_endpoint_t) \<Rightarrow> svl_service_cfg \<Rightarrow> svl_service_write_req \<Rightarrow>
     ('t world \<Rightarrow> 't world) \<Rightarrow> (nat \<Rightarrow> nat \<Rightarrow> nat option) \<Rightarrow> (nat \<Rightarrow> 't world \<Rightarrow> 't world) \<Rightarrow> ('t world \<Rightarrow> 't world) \<Rightarrow>
     't world \<Rightarrow> (code \<times> 't world) option" where
  "sv_main E sys from_byte cfg junk idle0 links idle io w =
     (let max_clients = 100 in
      if sys \<noteq> TN_SUCCESS then Some (TN_ERROR, w)
      else if fst (svl_service_config_setup_default E cfg max_clients) \<noteq> TN_SUCCESS then Some (TN_ERROR, w)
      else
        (case svl_service_setup E junk max_clients w of
           None \<Rightarrow> None
         | Some (r, w) \<Rightarrow>
             if r \<noteq> TN_SUCCESS then Some (TN_ERROR, w)
             else
               (case svl_service_listen (from_byte 7777 0 0 0 0) w of (r, w) \<Rightarrow>
                  if r \<noteq> TN_SUCCESS then Some (TN_ERROR, w)
                  else
                    (case svl_service_start E w of (r, w) \<Rightarrow>
                       if r \<noteq> TN_SUCCESS then Some (TN_ERROR, w)
                       else
                         (case sv_loop E links idle 0 (0, sv_ids, idle0 w) of
                            None \<Rightarrow> None
                          | Some (fr, ids, w) \<Rightarrow>
                              (case svl_service_stop E io w of (r, w) \<Rightarrow>
                                 if r \<noteq> TN_SUCCESS then Some (TN_ERROR, w)
                                 else Some (TN_SUCCESS, svl_service_cleanup E w)))))))"

section \<open>One frame\<close>

text \<open>The events a frame acquires, and what the open handler remembers of them.\<close>

definition acquired :: "'t view \<Rightarrow> 't world \<Rightarrow> 't tn_event list" where
  "acquired V w = take (unat (buffer_count w)) (ev_ready V (events w))"

definition learn :: "'t tn_event \<Rightarrow> app_ids \<Rightarrow> app_ids" where
  "learn e ids = (if ev_type e = TN_EVENT_CLIENT_OPEN then handle_client_open e ids else ids)"

text \<open>The loop index \<^verbatim>\<open>eidx\<close> is an \<^verbatim>\<open>int\<close>; it does not overflow on a batch of this size.\<close>

abbreviation batch_ok :: "'t world \<Rightarrow> bool" where
  "batch_ok w \<equiv> unat (buffer_count w) < 2 ^ 31 - 1"

lemma acquire_keeps:
  "svl_service_events_acquire E w = Some (r, out, n, w') \<Longrightarrow>
     cmds w' = cmds w \<and> service_state w' = service_state w \<and> buffer_count w' = buffer_count w"
  by (auto simp: svl_service_events_acquire_def Let_def split: prod.splits if_splits)

lemma release_event_keeps:
  "release_event E e w = Some w' \<Longrightarrow>
     cmds w' = cmds w \<and> service_state w' = service_state w \<and> buffer_count w' = buffer_count w"
  by (auto simp: release_event_def split: if_splits option.splits)

lemma release_events_keeps:
  "release_events E k i w = Some w' \<Longrightarrow>
     cmds w' = cmds w \<and> service_state w' = service_state w \<and> buffer_count w' = buffer_count w"
proof (induction k arbitrary: i w)
  case (Suc k)
  then obtain w1 e where "release_event E e w = Some w1" "release_events E k (Suc i) w1 = Some w'"
    by (auto split: if_splits option.splits)
  with Suc.IH [of "Suc i" w1] release_event_keeps [of E e w w1] show ?case by simp
qed simp

lemma frame_acquire:
  assumes "env_ok E V" and "reachable E V s" and "\<not> holding s"
  obtains r out w es where
    "svl_service_events_acquire E (world_of s) = Some (r, out, of_nat (length es), w)"
    "es = acquired V (world_of s)" "unat (of_nat (length es) :: u64) = length es"
    "length es \<le> length (event_updates w)" "\<forall>j < length es. event_updates w ! j = Some (es ! j)"
    "length es \<le> unat (buffer_count (world_of s))" "cmds w = cmds (world_of s)"
    "service_state w = service_state (world_of s)" "buffer_count w = buffer_count (world_of s)"
    "\<forall>e \<in> set es. is_read e \<longrightarrow> ev_priv e \<noteq> None"
    "reachable E V (s\<lparr>world_of := w, holding := True\<rparr>)"
proof -
  note inv = sys_invD [OF reachable_inv [OF assms(1,2)]]
  from events_acquire_result [OF assms(1) inv] obtain r out w es where
    acq: "svl_service_events_acquire E (world_of s) = Some (r, out, of_nat (length es), w)"
    and es: "es = (if r = TN_SUCCESS then take (unat (buffer_count (world_of s))) (ev_ready V (events (world_of s))) else [])"
      "ev_ready V (events (world_of s)) \<noteq> [] \<longrightarrow> buffer_count (world_of s) \<noteq> 0 \<longrightarrow> r = TN_SUCCESS"
    and upd: "take (length es) (event_updates w) = map Some es" "length es \<le> unat (buffer_count (world_of s))"
      "length (event_updates w) = length (event_updates (world_of s))"
    and priv: "\<forall>e \<in> set es. is_read e \<longrightarrow> ev_priv e \<noteq> None"
    by blast
  have "es = acquired V (world_of s)" using es by (auto simp: acquired_def split: if_splits)
  moreover have "unat (of_nat (length es) :: u64) = length es" using upd(2) by (metis le_unat_uoi)
  moreover have "length es \<le> length (event_updates w)" using upd(2,3) inv(2) by simp
  moreover have "\<forall>j < length es. event_updates w ! j = Some (es ! j)" using upd(1) by (metis nth_map nth_take)
  moreover have "reachable E V (s\<lparr>world_of := w, holding := True\<rparr>)"
    using run_step [OF assms(2)] main_step.acquire_events [OF assms(3) acq] by (simp add: sys_step_def)
  ultimately show ?thesis using that acq upd(2) priv acquire_keeps [OF acq] by blast
qed

lemma frame_release:
  assumes "env_ok E V" and "reachable E V s" and "holding s"
  obtains w where "svl_service_events_release E (world_of s) = Some (TN_SUCCESS, w)"
    "cmds w = cmds (world_of s)" "service_state w = service_state (world_of s)"
    "buffer_count w = buffer_count (world_of s)" "reachable E V (s\<lparr>world_of := w, holding := False\<rparr>)"
proof -
  from release_step_inv [OF assms(1) reachable_inv [OF assms(1,2)] assms(3)] obtain w where
    w: "svl_service_events_release E (world_of s) = Some (TN_SUCCESS, w)" by blast
  have "reachable E V (s\<lparr>world_of := w, holding := False\<rparr>)"
    using w run_step [OF assms(2)] main_step.release_events [OF assms(3)] by (simp add: sys_step_def)
  from w have "release_events E (unat (event_updates_count (world_of s))) 0 (world_of s) = Some w"
    by (auto simp: svl_service_events_release_def split: option.splits)
  from that [OF w] release_events_keeps [OF this] \<open>reachable E V (s\<lparr>world_of := w, holding := False\<rparr>)\<close>
  show ?thesis by blast
qed

section \<open>The load generator's frame\<close>

lemma lg_handle_event_result: "lg_handle_event e w ids = Some (learn e ids)"
  by (auto simp: lg_handle_event_def learn_def handle_client_close_def lg_handle_client_read_def svl_link_list_get_def
      split: tn_event_type_t.splits)

lemma lg_events_result:
  assumes "i + length es < 2 ^ 31" and "i + length es \<le> length (event_updates w)"
    and "\<forall>j < length es. event_updates w ! (i + j) = Some (es ! j)"
  shows "lg_events w (length es) i ids = Some (fold learn es ids)"
  using assms
proof (induction es arbitrary: i ids)
  case (Cons e es)
  have "event_updates w ! i = Some e" using Cons.prems(3) by force
  moreover have "\<forall>j < length es. event_updates w ! (Suc i + j) = Some (es ! j)"
    using Cons.prems(3) by (auto dest: spec [of _ "Suc _"])
  ultimately show ?case using Cons.IH [of "Suc i" "learn e ids"] Cons.prems(1,2)
    by (simp add: lg_handle_event_result)
qed simp

lemma learn_ids:
  "cmd_open_id' (learn e ids) = cmd_open_id' ids"
  "client_id' (learn e ids) =
     (if ev_type e = TN_EVENT_CLIENT_OPEN \<and> ev_cmd_id e = cmd_open_id' ids then ev_client_id e else client_id' ids)"
  by (simp_all add: learn_def handle_client_open_def)

lemma fold_learn_open_id: "cmd_open_id' (fold learn es ids) = cmd_open_id' ids"
  by (induction es arbitrary: ids) (simp_all add: learn_ids)

lemma fold_learn_client:
  "client_id' (fold learn es ids) =
     (case filter (\<lambda>e. ev_type e = TN_EVENT_CLIENT_OPEN \<and> ev_cmd_id e = cmd_open_id' ids) es of
        [] \<Rightarrow> client_id' ids
      | e # es \<Rightarrow> ev_client_id (last (e # es)))"
proof (induction es rule: rev_induct)
  case (snoc e es)
  then show ?case
    by (auto simp: learn_ids fold_learn_open_id split: list.splits)
qed simp

lemma queue_cmd_keeps:
  "queue_cmd E ty fill w = Some (r, i, w') \<Longrightarrow> service_state w' = service_state w \<and> buffer_count w' = buffer_count w"
  by (auto simp: queue_cmd_def Let_def split: prod.splits if_splits option.splits)

lemma cmd_calls_keep:
  "svl_service_cmd_open E ep w = Some (r, i, w') \<Longrightarrow> service_state w' = service_state w \<and> buffer_count w' = buffer_count w"
  "svl_service_cmd_send E cid msg n w = Some (r, i, w') \<Longrightarrow>
     service_state w' = service_state w \<and> buffer_count w' = buffer_count w"
  by (auto simp: svl_service_cmd_open_def svl_service_cmd_send_def dest!: queue_cmd_keeps split: if_splits prod.splits)

text \<open>
  The commands of a frame: in the first one a connection, in every later one whose number is a
  multiple of 64 the message, once the client is known.
\<close>

definition wants :: "'t ext \<Rightarrow> tn_endpoint_t \<Rightarrow> u32 \<Rightarrow> u64 \<Rightarrow> tn_cmd \<Rightarrow> bool" where
  "wants E ep fr cid c \<longleftrightarrow>
     (if fr = 0 then cmd_type c = TN_CMD_CLIENT_OPEN \<and> cmd_endpoint c = ep
      else fr AND 63 = 0 \<and> cid \<noteq> TN_CMD_INVALID E \<and> cmd_type c = TN_CMD_CLIENT_SEND \<and> cmd_client_id c = cid \<and>
        cmd_buffer c = lg_msg \<and> cmd_len c = of_nat (length lg_msg))"

definition added :: "'t view \<Rightarrow> (tn_cmd \<Rightarrow> bool) \<Rightarrow> 't world \<Rightarrow> 't world \<Rightarrow> bool" where
  "added V P w w' \<longleftrightarrow>
     cmd_ready V (cmds w') = cmd_ready V (cmds w) \<or> (\<exists>c. P c \<and> cmd_ready V (cmds w') = cmd_ready V (cmds w) @ [c])"

lemma queues_added: "queues V ok P w (r, i, w') \<Longrightarrow> (\<And>c. P c \<Longrightarrow> Q c) \<Longrightarrow> added V Q w w'"
  by (auto simp: queues_def added_def split: if_splits)

lemma lg_commands_result:
  assumes env: "env_ok E V" and run: "reachable E V s"
  obtains ids' w where "lg_commands E ep (fr, ids, world_of s) = Some (fr + 1, ids', w)"
    "client_id' ids' = client_id' ids" "reachable E V (s\<lparr>world_of := w\<rparr>)"
    "added V (wants E ep fr (client_id' ids)) (world_of s) w"
    "service_state w = service_state (world_of s)" "buffer_count w = buffer_count (world_of s)"
proof -
  have next_state: "reachable E V s'" if "main_step E s s'" for s'
    using run_step [OF run] that by (simp add: sys_step_def)
  note calls = cmd_calls_queue [OF env io_invD(4) [OF reachable_io_inv [OF env run]]]
  have n: "(of_nat (length lg_msg) :: u64) \<noteq> 0" by (simp add: lg_msg_def)
  consider "fr = 0" | "fr \<noteq> 0" "fr AND 63 = 0 \<and> client_id' ids \<noteq> TN_CMD_INVALID E"
    | "fr \<noteq> 0" "\<not> (fr AND 63 = 0 \<and> client_id' ids \<noteq> TN_CMD_INVALID E)" by blast
  then show ?thesis
  proof cases
    case 1
    from calls(1) [of ep] obtain r i w where
      c: "svl_service_cmd_open E ep (world_of s) = Some (r, i, w)" and q: "queues V (service_state (world_of s) = SVL_SERVICE_STARTED \<and>
        cmd_free V (cmds (world_of s)) \<noteq> 0) (\<lambda>c. cmd_type c = TN_CMD_CLIENT_OPEN \<and> cmd_endpoint c = ep) (world_of s) (r, i, w)"
      by auto
    have "added V (wants E ep fr (client_id' ids)) (world_of s) w"
      by (rule queues_added [OF q]) (simp add: wants_def 1)
    with next_state [OF main_step.cmd_open [OF c]] show ?thesis
      using that [of "ids\<lparr>cmd_open_id' := i\<rparr>" w] cmd_calls_keep(1) [OF c] by (simp add: lg_commands_def 1 c)
  next
    case 2
    from calls(3) [OF n, of "client_id' ids" lg_msg] obtain r i w where
      c: "svl_service_cmd_send E (client_id' ids) lg_msg (of_nat (length lg_msg)) (world_of s) = Some (r, i, w)"
      and q: "queues V (service_state (world_of s) = SVL_SERVICE_STARTED \<and>
          fst (tn_queue_spsc_peek E (write_reqs_free (world_of s))) = TN_SUCCESS \<and> cmd_free V (cmds (world_of s)) \<noteq> 0)
        (\<lambda>c. cmd_type c = TN_CMD_CLIENT_SEND \<and> cmd_client_id c = client_id' ids \<and> cmd_buffer c = lg_msg \<and>
          cmd_len c = of_nat (length lg_msg)) (world_of s) (r, i, w)"
      by auto
    have "added V (wants E ep fr (client_id' ids)) (world_of s) w"
      by (rule queues_added [OF q]) (use 2 in \<open>simp add: wants_def\<close>)
    with next_state [OF main_step.cmd_send [OF n c]] show ?thesis
      using that [of "ids\<lparr>cmd_read_id' := i\<rparr>" w] cmd_calls_keep(2) [OF c] by (simp add: lg_commands_def 2 c)
  next
    case 3
    then have "lg_commands E ep (fr, ids, world_of s) = Some (fr + 1, ids, world_of s)"
      by (auto simp: lg_commands_def)
    then show ?thesis using that [of ids "world_of s"] run by (simp add: added_def)
  qed
qed

lemma lg_frame_step:
  assumes "env_ok E V" and "reachable E V s" and "\<not> holding s" and "w = world_of s" and "batch_ok w"
  obtains ids' w' where "lg_frame E ep (fr, ids, w) = Some (fr + 1, ids', w')"
    "reachable E V (s\<lparr>holding := False, world_of := w'\<rparr>)"
    "client_id' ids' = client_id' (fold learn (acquired V w) ids)"
    "added V (wants E ep fr (client_id' ids')) w w'"
    "service_state w' = service_state w" "buffer_count w' = buffer_count w"
proof -
  obtain r out w1 es where
    acq: "svl_service_events_acquire E w = Some (r, out, of_nat (length es), w1)" "es = acquired V w"
    and len: "unat (of_nat (length es) :: u64) = length es" "length es \<le> length (event_updates w1)"
      "\<forall>j < length es. event_updates w1 ! j = Some (es ! j)" "length es \<le> unat (buffer_count w)"
    and same: "cmds w1 = cmds w" "service_state w1 = service_state w" "buffer_count w1 = buffer_count w"
    and run1: "reachable E V (s\<lparr>world_of := w1, holding := True\<rparr>)"
    using frame_acquire [OF assms(1-3)] unfolding assms(4) .
  obtain w2 where rel: "svl_service_events_release E w1 = Some (TN_SUCCESS, w2)" "cmds w2 = cmds w1"
      "service_state w2 = service_state w1" "buffer_count w2 = buffer_count w1"
    and run2: "reachable E V (s\<lparr>world_of := w2, holding := False\<rparr>)"
    using frame_release [OF assms(1) run1] by auto
  let ?ids = "fold learn es ids"
  obtain ids' w' where cmd: "lg_commands E ep (fr, ?ids, w2) = Some (fr + 1, ids', w')" "client_id' ids' = client_id' ?ids"
      and run3: "reachable E V (s\<lparr>holding := False, world_of := w'\<rparr>)"
      and add: "added V (wants E ep fr (client_id' ?ids)) w2 w'"
      and same': "service_state w' = service_state w2" "buffer_count w' = buffer_count w2"
    using lg_commands_result [OF assms(1) run2, of ep fr ?ids, simplified] .
  have "lg_events w1 (length es) 0 ids = Some ?ids"
    using lg_events_result [of 0 es w1 ids] len assms(5) by simp
  with acq(1) len(1) rel(1) cmd(1) have "lg_frame E ep (fr, ids, w) = Some (fr + 1, ids', w')"
    by (simp add: lg_frame_def)
  moreover have "added V (wants E ep fr (client_id' ids')) w w'"
    using cmd(2) add rel(2) same(1) by (simp add: added_def)
  ultimately show ?thesis using that [OF _ run3] cmd(2) acq(2) same same' rel(3,4) by simp
qed



section \<open>The load generator's loop\<close>

text \<open>What the IO thread does while the main thread sleeps leads from a reachable state to a reachable state.\<close>

definition idle_ok :: "'t ext \<Rightarrow> 't view \<Rightarrow> (nat \<Rightarrow> 't world \<Rightarrow> 't world) \<Rightarrow> bool" where
  "idle_ok E V idle \<longleftrightarrow>
     (\<forall>n s. reachable E V s \<longrightarrow> \<not> holding s \<longrightarrow>
        (\<exists>s'. world_of s' = idle n (world_of s) \<and> reachable E V s' \<and> \<not> holding s' \<and>
           buffer_count (world_of s') = buffer_count (world_of s)))"

lemma lg_loop_step:
  assumes "env_ok E V" and "reachable E V s" and "\<not> holding s" and "batch_ok (world_of s)" and "idle_ok E V idle"
    and "service_state (world_of s) = SVL_SERVICE_STARTED"
  obtains s' ids' where "reachable E V s'" "\<not> holding s'" "batch_ok (world_of s')"
    "service_state (world_of s') = service_state (idle n (world_of s))"
    "lg_loop E ep idle n (fr, ids, world_of s) = lg_loop E ep idle (Suc n) (fr + 1, ids', world_of s')"
proof -
  from assms(2,3,5) obtain s1 where
    s1: "idle n (world_of s) = world_of s1" "reachable E V s1" "\<not> holding s1" "buffer_count (world_of s1) = buffer_count (world_of s)"
    unfolding idle_ok_def by metis
  from s1(4) assms(4) have batch: "batch_ok (world_of s1)" by simp
  obtain ids' w where w: "lg_frame E ep (fr, ids, world_of s1) = Some (fr + 1, ids', w)"
      "reachable E V (s1\<lparr>holding := False, world_of := w\<rparr>)"
      "service_state w = service_state (world_of s1)" "buffer_count w = buffer_count (world_of s1)"
    by (rule lg_frame_step [OF assms(1) s1(2,3) refl batch, of ep fr ids])
  show ?thesis
  proof (rule that [OF w(2)])
    show "lg_loop E ep idle n (fr, ids, world_of s) =
        lg_loop E ep idle (Suc n) (fr + 1, ids', world_of (s1\<lparr>holding := False, world_of := w\<rparr>))"
      by (subst lg_loop.simps) (simp add: assms(6) s1(1) w(1) svl_service_state_def)
  qed (use w(3,4) batch s1(1) in simp_all)
qed

text \<open>
  C32. The main loop of the load generator returns: if the service leaves the state STARTED while the
  main thread sleeps in frame N, the loop ends with a service that is not started any more, after at
  most N + 1 frames, and no frame on the way is undefined.
\<close>

theorem lg_loop_ends:
  assumes "env_ok E V" and "reachable E V s" and "\<not> holding s" and "batch_ok (world_of s)" and "idle_ok E V idle"
    and "\<forall>w. service_state (idle N w) \<noteq> SVL_SERVICE_STARTED" and "n \<le> N"
  shows "\<exists>k ids' w'. lg_loop E ep idle n (fr, ids, world_of s) = Some (fr + of_nat k, ids', w') \<and>
    service_state w' \<noteq> SVL_SERVICE_STARTED \<and> n + k \<le> Suc N"
  using assms(2-4,7)
proof (induction "N - n" arbitrary: n s fr ids)
  case (0 n s)
  then show ?case
  proof (cases "service_state (world_of s) = SVL_SERVICE_STARTED")
    case True
    obtain s' ids' where s': "reachable E V s'" "service_state (world_of s') = service_state (idle n (world_of s))"
        "lg_loop E ep idle n (fr, ids, world_of s) = lg_loop E ep idle (Suc n) (fr + 1, ids', world_of s')"
      by (rule lg_loop_step [OF assms(1) 0(2-4) assms(5) True, of n ep fr ids]) blast
    from 0(1,5) have "n = N" by simp
    with s'(2) assms(6) have "lg_loop E ep idle (Suc n) (fr + 1, ids', world_of s') = Some (fr + 1, ids', world_of s')"
      by (subst lg_loop.simps) (simp add: svl_service_state_def)
    with s' assms(6) \<open>n = N\<close> show ?thesis by (intro exI [of _ 1]) auto
  next
    case False
    then have "lg_loop E ep idle n (fr, ids, world_of s) = Some (fr, ids, world_of s)"
      by (subst lg_loop.simps) (simp add: svl_service_state_def)
    with False 0(5) show ?thesis by (intro exI [of _ 0]) auto
  qed
next
  case (Suc d n s)
  show ?case
  proof (cases "service_state (world_of s) = SVL_SERVICE_STARTED")
    case True
    obtain s' ids' where s': "reachable E V s'" "\<not> holding s'" "batch_ok (world_of s')"
        "lg_loop E ep idle n (fr, ids, world_of s) = lg_loop E ep idle (Suc n) (fr + 1, ids', world_of s')"
      by (rule lg_loop_step [OF assms(1) Suc(3-5) assms(5) True, of n ep fr ids]) blast
    from Suc(2) have "d = N - Suc n" "Suc n \<le> N" by simp_all
    from Suc(1) [OF this(1) s'(1-3) this(2), of "fr + 1" ids'] obtain k ids2 w2 where
      "lg_loop E ep idle (Suc n) (fr + 1, ids', world_of s') = Some (fr + 1 + of_nat k, ids2, w2)"
      "service_state w2 \<noteq> SVL_SERVICE_STARTED" "Suc n + k \<le> Suc N" by blast
    with s'(4) show ?thesis by (intro exI [of _ "Suc k"]) (simp add: add.assoc)
  next
    case False
    then have "lg_loop E ep idle n (fr, ids, world_of s) = Some (fr, ids, world_of s)"
      by (subst lg_loop.simps) (simp add: svl_service_state_def)
    with False Suc(6) show ?thesis by (intro exI [of _ 0]) auto
  qed
qed

theorem lg_loop_ends_witness:
  "\<exists>k ids' w'. lg_loop ref_ext ref_endpoint (\<lambda>n w. snd (svl_service_stop_signal w)) 0 (0, lg_ids ref_ext, world_of ref_connected) =
     Some (of_nat k, ids', w') \<and> service_state w' \<noteq> SVL_SERVICE_STARTED \<and> k \<le> 1"
proof -
  let ?idle = "\<lambda>(n :: nat) w :: robj world. snd (svl_service_stop_signal w)"
  have "idle_ok ref_ext ref_view ?idle"
    unfolding idle_ok_def
  proof (intro allI impI)
    fix n :: nat and s assume s: "reachable ref_ext ref_view s" "\<not> holding s"
    have "reachable ref_ext ref_view (s\<lparr>world_of := ?idle n (world_of s)\<rparr>)"
      using run_step [OF s(1)] main_step.stop_signal [of ref_ext s] by (simp add: sys_step_def)
    with s(2) show "\<exists>s'. world_of s' = ?idle n (world_of s) \<and> reachable ref_ext ref_view s' \<and> \<not> holding s' \<and>
        buffer_count (world_of s') = buffer_count (world_of s)"
      by (intro exI [of _ "s\<lparr>world_of := ?idle n (world_of s)\<rparr>"])
        (simp add: svl_service_stop_signal_def Let_def svl_service_set_state_def)
  qed
  moreover have "\<forall>w. service_state (?idle 0 w) \<noteq> SVL_SERVICE_STARTED"
    by (simp add: svl_service_stop_signal_def Let_def svl_service_set_state_def svl_service_state_def)
  moreover have "batch_ok (world_of ref_connected)" by (simp add: ref_connected_service)
  ultimately show ?thesis
    using lg_loop_ends [OF ref_env ref_run_connected, of ?idle 0 0 ref_endpoint 0 "lg_ids ref_ext"]
    by (simp add: ref_connected_main)
qed

section \<open>The server's frame\<close>

lemma sv_events_no_reads:
  assumes "i + length es < 2 ^ 31" and "i + length es \<le> length (event_updates w)"
    and "\<forall>j < length es. event_updates w ! (i + j) = Some (es ! j)" and "\<forall>e \<in> set es. \<not> is_read e"
  shows "sv_events E links (length es) i ids w = Some (fold learn es ids, w)"
  using assms
proof (induction es arbitrary: i ids)
  case (Cons e es)
  have "event_updates w ! i = Some e" using Cons.prems(3) by force
  moreover have "\<forall>j < length es. event_updates w ! (Suc i + j) = Some (es ! j)"
    using Cons.prems(3) by (auto dest: spec [of _ "Suc _"])
  moreover have "sv_handle_event E (links i) i e w ids = Some (learn e ids, w)"
    using Cons.prems(4)
    by (simp add: sv_handle_event_def learn_def handle_client_close_def is_read_def split: tn_event_type_t.split)
  ultimately show ?case using Cons.IH [of "Suc i" "learn e ids"] Cons.prems(1,2,4) by simp
qed simp

lemma sv_events_read_undefined:
  assumes "\<forall>j < length es. event_updates w ! (i + j) = Some (es ! j)" and "\<exists>e \<in> set es. is_read e"
  shows "sv_events E (\<lambda>i. None) (length es) i ids w = None"
  using assms
proof (induction es arbitrary: i ids)
  case (Cons e es)
  have e: "event_updates w ! i = Some e" using Cons.prems(1) by force
  show ?case
  proof (cases "is_read e")
    case True
    with e show ?thesis
      by (simp add: sv_handle_event_def is_read_def sv_handle_client_read_def Let_def split: option.split)
  next
    case False
    have "\<forall>j < length es. event_updates w ! (Suc i + j) = Some (es ! j)"
      using Cons.prems(1) by (auto dest: spec [of _ "Suc _"])
    moreover have "sv_handle_event E None i e w ids = Some (learn e ids, w)"
      using False
      by (simp add: sv_handle_event_def learn_def handle_client_close_def is_read_def split: tn_event_type_t.split)
    ultimately show ?thesis using Cons.IH [of "Suc i" "learn e ids"] Cons.prems(2) e False by simp
  qed
qed simp

text \<open>
  C33. The server never assigns the variable link of its read handler.  If that variable holds no
  address of a link, then from every reachable state a frame of the server is defined exactly if no
  read event is among those it acquires: the first bytes a client sends are undefined behaviour of
  the program, and never its echo.
\<close>

theorem sv_frame_defined_iff_no_read:
  assumes "env_ok E V" and "reachable E V s" and "\<not> holding s" and "w = world_of s" and "batch_ok w"
  shows "sv_frame E (\<lambda>i. None) (fr, ids, w) \<noteq> None \<longleftrightarrow> (\<forall>e \<in> set (acquired V w). ev_type e \<noteq> TN_EVENT_CLIENT_READ)"
proof -
  obtain r out w1 es where
    acq: "svl_service_events_acquire E w = Some (r, out, of_nat (length es), w1)" "es = acquired V w"
    and len: "unat (of_nat (length es) :: u64) = length es" "length es \<le> length (event_updates w1)"
      "\<forall>j < length es. event_updates w1 ! j = Some (es ! j)" "length es \<le> unat (buffer_count w)"
    and run1: "reachable E V (s\<lparr>world_of := w1, holding := True\<rparr>)"
    using frame_acquire [OF assms(1-3)] unfolding assms(4) .
  obtain w2 where rel: "svl_service_events_release E w1 = Some (TN_SUCCESS, w2)"
    using frame_release [OF assms(1) run1] by auto
  show ?thesis
  proof (cases "\<exists>e \<in> set es. is_read e")
    case True
    then have "sv_events E (\<lambda>i. None) (length es) 0 ids w1 = None"
      using sv_events_read_undefined [of es w1 0 E ids] len(3) by simp
    with True acq len(1) show ?thesis by (auto simp: sv_frame_def is_read_def)
  next
    case False
    then have "sv_events E (\<lambda>i. None) (length es) 0 ids w1 = Some (fold learn es ids, w1)"
      using sv_events_no_reads [of 0 es w1 E "\<lambda>i. None" ids] len assms(5) by simp
    with False acq len(1) rel show ?thesis by (auto simp: sv_frame_def is_read_def)
  qed
qed

theorem sv_frame_defined_iff_no_read_witness:
  "\<exists>s'. sv_frame ref_ext (\<lambda>i. None) (0, sv_ids, world_of ref_connected) = Some s'"
proof -
  have "batch_ok (world_of ref_connected)" by (simp add: ref_connected_service)
  from sv_frame_defined_iff_no_read [OF ref_env ref_run_connected _ refl this, of 0 sv_ids]
  show ?thesis by (simp add: ref_connected_main acquired_def ref_connected_service ref_event_def)
qed

end
