(* ===== verification/Spec2Isabelle.thy ===== *)
theory Spec2Isabelle
  imports Svl_Config Svl_Stream Svl_Replies Svl_Shutdown Svl_IO_Memory Svl_Plugin Svl_Apps
begin

text \<open>
  A verification development for the C code of ServerLynx: a TCP service on top of libuv and the tn
  library (\<^verbatim>\<open>src/src/svlynx\<close>, \<^verbatim>\<open>src/include/svlynx\<close>), a load generator (\<^verbatim>\<open>src/src/svlynx_lg\<close>) and a server
  (\<^verbatim>\<open>src/src/svlynx_sv\<close>) that use it.

  \<^bold>\<open>The program.\<close>  A service has two threads.  The main thread sets the service up, starts and stops it,
  queues commands (open, close, send) and takes events (open, close, read).  The IO thread runs a
  libuv loop whose callbacks accept and connect clients, read from and write to them, and close them;
  a check callback handles the queued commands.  The threads share the command list, the event list,
  the pools of receive buffers and the state word.  Each client is a link, an entry of an array with
  a free list of indices; its libuv handle points back at it.  A plugin wraps the service for Unity.

  \<^bold>\<open>What is outside.\<close>  libuv, the tn library and socklynx are not part of the repository.  The record
  \<open>ext\<close> (theory \<open>Tn_Interface\<close>) has one field per function of tn and libuv that the code calls: the
  containers are functions on an opaque type, and what libuv and the allocator answer depends on the
  log of the calls made so far.  \<open>Tn_Laws\<close> states what the code relies on (a list is a sequence of
  bounded length, a pool counts its buffers, a queue is a queue, memory is fresh) through a \<open>view\<close> of
  the opaque objects; \<open>env_ok E V\<close> collects these laws, and \<open>Tn_Reference\<close> satisfies them with concrete
  functions, on which all witnesses are evaluated.  socklynx is the record \<open>sl_ext\<close> of \<open>Svl_Plugin\<close>.

  \<^bold>\<open>Undefined behaviour.\<close>  The result \<open>None\<close> of a function is undefined behaviour: a null or uninitialised
  pointer that is used, an index outside an array, a failing assertion, an \<^verbatim>\<open>int\<close> that overflows, or
  (for \<open>on_check_cb\<close>, \<open>lg_loop\<close> and \<open>sv_loop\<close>, which are partial functions) a loop that does not end.
  Machine integers are words, with the wrap-around of \<^verbatim>\<open>size_t\<close> and \<^verbatim>\<open>uint32_t\<close>; errors are values of
  the type \<open>code\<close>; \<open>guards\<close> of \<open>Svl_Prelude\<close> is the chain of \<^verbatim>\<open>TN_GUARD_CLEANUP\<close> statements that ends at
  the first failing one.  Two Hoare-style judgements speak of such chains: \<open>triple\<close>, in which every
  statement is defined, and \<open>outcome\<close>, which only speaks of the runs that are.

  \<^bold>\<open>The theories.\<close>

  \<^item> \<open>Svl_Prelude\<close>: words, lists and the guard chain.  \<open>Transition\<close>: locales for transition systems, \<open>run\<close>,
    the locales \<open>invariant\<close> and \<open>simulation\<close>.  \<open>Slot_Alloc\<close>: a locale for allocators of indices.
    \<open>Event_Channel\<close>: an abstract channel of events, and that it is first in, first out.
  \<^item> \<open>Svl_Link\<close>: \<^verbatim>\<open>link.h\<close>, \<^verbatim>\<open>link.c\<close>.  Set-up, opening, closing, reset and look-up of links, reading of
    length-prefixed messages; \<open>Slot_Alloc\<close> is interpreted on open and close.
  \<^item> \<open>Svl_Config\<close>: the configuration functions of \<^verbatim>\<open>service.c\<close> (lines 13-27 and 139-176).
  \<^item> \<open>Svl_World\<close>: \<^verbatim>\<open>svl_service_t\<close>, \<^verbatim>\<open>svl_service_priv_t\<close> and the statistics, with the data fields of libuv
    handles, as one record \<open>world\<close>, and the log.
  \<^item> \<open>Svl_Service\<close>: the API of \<^verbatim>\<open>service.c\<close>.  \<open>Svl_Internal\<close>: every callback and command handler of
    \<^verbatim>\<open>service_internal.c\<close>; a record \<open>frame\<close> extends the world with the local variables of a callback.
    \<open>Svl_IO_Thread\<close>: \<^verbatim>\<open>svl_service_io_thread\<close>, whose \<^verbatim>\<open>uv_run\<close> is an argument.
  \<^item> \<open>Svl_Invariant\<close>, \<open>Svl_Callbacks\<close>, \<open>Svl_Connect\<close>, \<open>Svl_Check\<close>, \<open>Svl_Api\<close>: the invariant \<open>io_inv\<close> of the running
    service, and that each callback, each command and each call of the API keeps it and is defined.
  \<^item> \<open>Svl_System\<close>: the two threads as a step relation, each step a call of the API or a callback that
    libuv may make, and the invariant of the system.  \<open>Svl_Reference_Run\<close>: a concrete run.
  \<^item> \<open>Svl_Safety\<close>: what holds in every reachable state (contract of libuv, conservation of events,
    buffers, commands, links and requests, state of the links, definedness of every callback and call,
    termination of the check callback).
  \<^item> \<open>Svl_Delivery\<close>: the running service refines \<open>Event_Channel\<close>; events are delivered once and in order.
  \<^item> \<open>Svl_Traffic\<close>: what happens to received bytes, to send and close commands, and at the end of a link.
  \<^item> \<open>Svl_Sessions\<close>, \<open>Svl_Talk\<close>, \<open>Svl_Conversation\<close>: the events of a client come in sessions of an open event,
    read events and a close event (an automaton, \<open>phases\<close>); what each callback and each command adds to
    them, and the invariant over all runs.  \<open>Svl_Stream\<close>: the byte stream of a connection from the socket to
    the main thread, over all runs.  \<open>Svl_Replies\<close>: close commands are answered by close events, at most once.
  \<^item> \<open>Svl_Shutdown\<close>: what the timer callback closes when the service stops, and that the event loop goes on
    while a client stays connected.  \<open>Svl_Memory\<close>: the blocks that \<^verbatim>\<open>svl_service_setup\<close> takes and
    \<^verbatim>\<open>svl_service_cleanup\<close> gives back.  \<open>Svl_IO_Memory\<close>: the blocks of the IO thread when its set-up fails, and when
    giving them back breaks the rules of libuv.
  \<^item> \<open>Svl_Commands\<close>: what a call of the command API does to the command queue.
  \<^item> \<open>Svl_Lifecycle\<close>: the loads and stores of the state word by start, stop, signal, the IO thread, its
    timer and SIGINT, as an interleaving of two threads; which states can be trusted, when a stop ends,
    and the race in which it does not.  \<open>Svl_Startup\<close>: how \<^verbatim>\<open>svl_service_io_thread\<close> ends when its set-up fails,
    and that its body, on every path, is a sequence of the steps of \<open>Svl_Lifecycle\<close>.
  \<^item> \<open>Svl_Plugin\<close>: \<^verbatim>\<open>plugin.c\<close>.  \<open>Svl_Apps\<close>: \<^verbatim>\<open>svlynx_lg.c\<close> and \<^verbatim>\<open>svlynx_sv.c\<close>.

  \<^bold>\<open>Bounds.\<close>  The loops over arrays have a counter of remaining iterations.  The wait of the plugin is a
  function with a measure; 500 ms are ten looks at the state.  The loop of the check callback ends
  because the stock of commands is finite, that of the load generator because the service leaves the
  started state; both are proved.  The counter of the event loops of the two programs is an \<^verbatim>\<open>int\<close>, so
  their theorems assume that the event array has less than \<^verbatim>\<open>2^31 - 1\<close> entries.  The length of an event has
  32 bits; the theorem on byte streams is about runs in which no buffer holds \<^verbatim>\<open>2^32\<close> bytes or more, and
  the buffers of the pool have 65535.

  \<^bold>\<open>What is simplified.\<close>  A step of the running service is a whole call or a whole callback; the accesses
  to the shared lists are atomic in the tn library, and \<open>Svl_Lifecycle\<close> has the finer interleaving for
  the state word, the only object that the functions load and store in two steps.  A command holds a
  snapshot of the message it points at, so the memory of a message must stay as it is until the IO
  thread has written it.  The two programs run their frames between, not during, the work of the IO
  thread.

  \<^bold>\<open>Not modelled.\<close>  Logging and the formatting of addresses for it; the code that is commented out; what
  \<^verbatim>\<open>uv_run\<close> does after the service has been stopped (it drains the closing handles); the C# scripts; and
  the insides of tn, libuv and socklynx.

  \<^bold>\<open>Limits of the theorems.\<close>  The memory of the IO thread is followed for a start that fails, not for a
  loop that has run, because what is left then depends on what \<^verbatim>\<open>uv_run\<close> does while the handles close.  The
  framing functions of \<^verbatim>\<open>link.c\<close> are proved on their own: nothing in the repository calls them.  Open events
  of accepted connections carry whatever command identifier the event list hands out, so only close
  events are matched with their commands.
\<close>

end
